(* ===== verification/Prelude.thy ===== *)
theory Prelude
  imports Main "HOL-Library.Word" "HOL-Library.Monad_Syntax"
begin

text \<open>
  Shared vocabulary of the development: the machine integer types of the C code, the faults a
  C function can end in, the string functions of the C library the sources call (strchr, strstr,
  strcasecmp, strncmp, atoi, network byte order), and the lemma collections the component
  theories extend.

  Conventions. The platform is the one the program is built for: two's complement, 8-bit char,
  16-bit short, 32-bit int, 64-bit long (LP64), little endian. A C string is a list of
  characters without its terminating NUL; a buffer of bytes that need not be terminated is a
  list that may contain NULs. A signed integer that is stored or shifted is a word read by
  \<^term>\<open>sint\<close>; an int that only counts is an \<^typ>\<open>int\<close>. Arithmetic on words wraps.
\<close>

unbundle bit_operations_syntax

section \<open>Types\<close>

type_synonym u8 = "8 word"
type_synonym u16 = "16 word"
type_synonym u32 = "32 word"
type_synonym u64 = "64 word"

type_synonym bytes = "u8 list"

text \<open>
  The ways in which a modelled C function fails to return a value: \<open>die\<close> of common.c with its
  message, a failed \<open>assert\<close>, an access outside an object, a dereference of NULL, a division
  by zero. A result of type \<open>fault + 'a\<close> is \<open>Inl\<close> of the fault or \<open>Inr\<close> of the value.
\<close>

datatype fault =
    Die string
  | Assert_failed
  | Out_of_bounds
  | Null_pointer
  | Div_by_zero

named_theorems layout_simps \<open>lengths and sizes that every operation of a component keeps\<close>
named_theorems seq_simps \<open>wrapped arithmetic on sequence numbers\<close>

section \<open>Sums as results\<close>

definition returns :: "fault + 'a \<Rightarrow> bool" where
  "returns r \<longleftrightarrow> (case r of Inl _ \<Rightarrow> False | Inr _ \<Rightarrow> True)"

lemma returns_simps [simp]: "returns (Inr x)" "\<not> returns (Inl e)"
  by (simp_all add: returns_def)

lemma returns_iff: "returns r \<longleftrightarrow> (\<exists>x. r = Inr x)"
  by (cases r) simp_all

text \<open>What a function does with the value another one returned.\<close>

fun bind_fault :: "fault + 'a \<Rightarrow> ('a \<Rightarrow> fault + 'b) \<Rightarrow> fault + 'b" where
  "bind_fault (Inl e) f = Inl e"
| "bind_fault (Inr a) f = f a"

lemma bind_fault_assoc: "bind_fault (bind_fault m f) g = bind_fault m (\<lambda>x. bind_fault (f x) g)"
  by (cases m) simp_all

lemma bind_fault_Inr: "bind_fault m f = Inr b \<Longrightarrow> (\<And>a. m = Inr a \<Longrightarrow> f a = Inr b \<Longrightarrow> P) \<Longrightarrow> P"
  by (cases m) simp_all

section \<open>Words read as integers\<close>

text \<open>The integer of \<open>n\<close> bits, with sign, that an integer is cut to.\<close>

definition wrap :: "nat \<Rightarrow> int \<Rightarrow> int" where
  "wrap n x = (x + 2 ^ (n - 1)) mod 2 ^ n - 2 ^ (n - 1)"

lemma sint_of_int_wrap: "sint (word_of_int x :: 'a :: len word) = wrap LENGTH('a) x"
  by (simp add: sint_uint wrap_def signed_take_bit_eq_take_bit_shift take_bit_eq_mod unsigned_of_int mod_simps)

lemma sint_of_int_32: "sint (word_of_int x :: u32) = wrap 32 x"
  using sint_of_int_wrap [where 'a = 32] by simp

lemma sint_of_int_16: "sint (word_of_int x :: u16) = wrap 16 x"
  using sint_of_int_wrap [where 'a = 16] by simp

lemma sint_shift: "sint (signed_drop_bit n (w :: u32)) = sint w div 2 ^ n"
  by (simp add: sint_signed_drop_bit_eq drop_bit_eq_div)

lemma wrap_sint [simp]: "wrap 32 (sint (w :: u32)) = sint w" "wrap 16 (sint (v :: u16)) = sint v"
  using sint_of_int_wrap [of "sint w", where 'a = 32] sint_of_int_wrap [of "sint v", where 'a = 16] by simp_all

lemma sint_arith_wrap:
  "sint (v + w :: u32) = wrap 32 (sint v + sint w)" "sint (v - w) = wrap 32 (sint v - sint w)"
  "sint (v * w) = wrap 32 (sint v * sint w)"
  by (simp_all flip: sint_of_int_32)

section \<open>Integer division of C\<close>

definition cdiv :: "int \<Rightarrow> int \<Rightarrow> int" where
  "cdiv a b = sgn a * sgn b * (\<bar>a\<bar> div \<bar>b\<bar>)"

lemma cdiv_nonneg: "0 \<le> a \<Longrightarrow> 0 < b \<Longrightarrow> cdiv a b = a div b"
  by (cases "a = 0") (simp_all add: cdiv_def)

section \<open>Strings of the C library\<close>

abbreviation NUL :: char where "NUL \<equiv> CHR 0x00"

text \<open>The C string that starts a buffer.\<close>

definition cstr :: "string \<Rightarrow> string" where
  "cstr buf = takeWhile (\<lambda>c. c \<noteq> NUL) buf"

lemma cstr_no_nul [simp]: "NUL \<notin> set (cstr buf)"
  by (auto simp: cstr_def dest: set_takeWhileD)

lemma cstr_id [simp]: "NUL \<notin> set s \<Longrightarrow> cstr s = s"
  by (induction s) (auto simp: cstr_def)

lemma cstr_append_nul [simp]: "NUL \<notin> set s \<Longrightarrow> cstr (s @ NUL # t) = s"
  by (induction s) (auto simp: cstr_def)

lemma length_cstr_le [simp]: "length (cstr buf) \<le> length buf"
  by (simp add: cstr_def length_takeWhile_le)

text \<open>\<open>strchr\<close> and \<open>strstr\<close> return the suffix that starts at the match, as the C pointer does.\<close>

fun strchr :: "string \<Rightarrow> char \<Rightarrow> string option" where
  "strchr [] c = None"
| "strchr (x # xs) c = (if x = c then Some (x # xs) else strchr xs c)"

fun strstr :: "string \<Rightarrow> string \<Rightarrow> string option" where
  "strstr [] n = (if n = [] then Some [] else None)"
| "strstr (x # xs) n = (if take (length n) (x # xs) = n then Some (x # xs) else strstr xs n)"

lemma strchr_Some_hd: "strchr s c = Some t \<Longrightarrow> \<exists>u. t = c # u"
  by (induction s) (auto split: if_splits)

lemma strchr_None: "strchr s c = None \<longleftrightarrow> c \<notin> set s"
  by (induction s) auto

lemma strchr_split: "strchr s c = Some t \<Longrightarrow> s = takeWhile (\<lambda>x. x \<noteq> c) s @ t"
  by (induction s) (auto split: if_splits)

lemma strchr_append [simp]: "c \<notin> set s \<Longrightarrow> strchr (s @ c # t) c = Some (c # t)"
  by (induction s) auto

lemma strstr_Some_prefix: "strstr s n = Some t \<Longrightarrow> take (length n) t = n"
  by (induction s) (auto split: if_splits)

lemma strstr_Some_suffix: "strstr s n = Some t \<Longrightarrow> \<exists>p. s = p @ t"
proof (induction s)
  case (Cons x xs)
  show ?case
  proof (cases "take (length n) (x # xs) = n")
    case True
    with Cons.prems show ?thesis by auto
  next
    case False
    with Cons obtain p where "xs = p @ t" by auto
    then show ?thesis by (intro exI [of _ "x # p"]) simp
  qed
qed (auto split: if_splits)

text \<open>\<open>strncmp(a, b, n) == 0\<close> on C strings, and \<open>strcasecmp(a, b) == 0\<close> in the C locale.\<close>

definition strncmp_eq :: "string \<Rightarrow> string \<Rightarrow> nat \<Rightarrow> bool" where
  "strncmp_eq a b n \<longleftrightarrow> take n a = take n b"

definition to_lower :: "char \<Rightarrow> char" where
  "to_lower c = (if 65 \<le> (of_char c :: nat) \<and> (of_char c :: nat) \<le> 90
                 then char_of (of_char c + 32 :: nat) else c)"

definition strcasecmp_eq :: "string \<Rightarrow> string \<Rightarrow> bool" where
  "strcasecmp_eq a b \<longleftrightarrow> map to_lower a = map to_lower b"

lemma strcasecmp_eq_refl [simp]: "strcasecmp_eq a a"
  by (simp add: strcasecmp_eq_def)

lemma strcasecmp_eq_sym: "strcasecmp_eq a b \<Longrightarrow> strcasecmp_eq b a"
  by (simp add: strcasecmp_eq_def)

lemma strcasecmp_eq_trans: "strcasecmp_eq a b \<Longrightarrow> strcasecmp_eq b c \<Longrightarrow> strcasecmp_eq a c"
  by (simp add: strcasecmp_eq_def)

text \<open>
  \<open>atoi\<close>: white space, a sign, digits. glibc reads a long that saturates and converts it to int.
\<close>

definition is_space :: "char \<Rightarrow> bool" where
  "is_space c \<longleftrightarrow> c = CHR '' '' \<or> (9 \<le> (of_char c :: nat) \<and> (of_char c :: nat) \<le> 13)"

definition is_digit :: "char \<Rightarrow> bool" where
  "is_digit c \<longleftrightarrow> 48 \<le> (of_char c :: nat) \<and> (of_char c :: nat) \<le> 57"

fun digits_value :: "int \<Rightarrow> string \<Rightarrow> int" where
  "digits_value acc [] = acc"
| "digits_value acc (c # cs) =
     (if is_digit c then digits_value (10 * acc + (of_char c - 48)) cs else acc)"

definition strtol10 :: "string \<Rightarrow> int" where
  "strtol10 s =
     (let t = dropWhile is_space s in
      case t of
        [] \<Rightarrow> 0
      | c # cs \<Rightarrow> if c = CHR ''-'' then - digits_value 0 cs
                  else if c = CHR ''+'' then digits_value 0 cs
                  else digits_value 0 t)"

definition atoi :: "string \<Rightarrow> int" where
  "atoi s = sint (word_of_int (max (- (2 ^ 63)) (min (2 ^ 63 - 1) (strtol10 s))) :: u32)"

lemma atoi_bounds: "- (2 ^ 31) \<le> atoi s \<and> atoi s < 2 ^ 31"
  unfolding atoi_def
  using sint_greater_eq [of "word_of_int (max (- (2 ^ 63)) (min (2 ^ 63 - 1) (strtol10 s))) :: u32"]
    sint_less [of "word_of_int (max (- (2 ^ 63)) (min (2 ^ 63 - 1) (strtol10 s))) :: u32"]
  by simp

section \<open>Arrays\<close>

text \<open>A load and a store through an index; outside the array there is no result.\<close>

definition store_at :: "'a list \<Rightarrow> int \<Rightarrow> 'a \<Rightarrow> 'a list option" where
  "store_at xs i v = (if 0 \<le> i \<and> i < int (length xs) then Some (xs[nat i := v]) else None)"

definition load_at :: "'a list \<Rightarrow> int \<Rightarrow> 'a option" where
  "load_at xs i = (if 0 \<le> i \<and> i < int (length xs) then Some (xs ! nat i) else None)"

lemma store_at_length [layout_simps]: "store_at xs i v = Some ys \<Longrightarrow> length ys = length xs"
  by (auto simp: store_at_def split: if_splits)

lemma store_at_nat [simp]: "i < length xs \<Longrightarrow> store_at xs (int i) v = Some (xs[i := v])"
  by (simp add: store_at_def)

lemma load_at_nat [simp]: "i < length xs \<Longrightarrow> load_at xs (int i) = Some (xs ! i)"
  by (simp add: load_at_def)

section \<open>Rotations of a ring\<close>

lemma mod_shift_inj:
  assumes "i < n" "j < (n :: nat)" "(u + i) mod n = (u + j) mod n"
  shows "i = j"
  using assms
proof (induction i j rule: linorder_wlog)
  case (le i j)
  then have "n dvd (u + j) - (u + i)" using mod_eq_dvd_iff_nat [of "u + i" "u + j" n] by simp
  then have "n dvd j - i" by simp
  moreover have "j - i < n" using le by linarith
  ultimately have "j - i = 0" using nat_dvd_not_less [of "j - i" n] by (cases "j - i = 0") auto
  with le show ?case by simp
qed simp

lemma mod_shift_surj:
  assumes "k < (n :: nat)"
  shows "(u + (k + (n - u mod n)) mod n) mod n = k"
proof -
  have le: "u mod n \<le> n" "u mod n \<le> u" using assms by (simp_all add: less_imp_le)
  have "(u + (k + (n - u mod n)) mod n) mod n = (u + (k + (n - u mod n))) mod n"
    by (rule mod_add_right_eq)
  also have "u + (k + (n - u mod n)) = k + n + (u - u mod n)" using le by linarith
  also have "u - u mod n = n * (u div n)" by (simp add: minus_mod_eq_mult_div)
  also have "(k + n + n * (u div n)) mod n = k" using assms by simp
  finally show ?thesis .
qed

section \<open>Signed and unsigned readings of a word\<close>

lemma sint_cases_uint:
  "sint (w :: 'a :: len word) =
     (if uint w < 2 ^ (LENGTH('a) - 1) then uint w else uint w - 2 ^ LENGTH('a))"
proof -
  obtain m where m: "LENGTH('a) = Suc m" using len_gt_0 [where 'a = 'a] by (cases "LENGTH('a)") auto
  have lt: "uint w < 2 * 2 ^ m" using uint_lt2p [of w] by (simp add: m)
  have "sint w = uint w - 2 ^ Suc m * of_bool (bit (uint w) m)"
    using lt by (simp add: sint_uint m signed_take_bit_eq_take_bit_minus take_bit_int_eq_self)
  moreover have "bit (uint w) m \<longleftrightarrow> 2 ^ m \<le> uint w"
  proof -
    have "uint w div 2 ^ m < 2"
    proof (rule ccontr)
      assume "\<not> uint w div 2 ^ m < 2"
      then have "2 * 2 ^ m \<le> uint w div 2 ^ m * 2 ^ m" by simp
      also have "\<dots> \<le> uint w" by (metis div_mult_mod_eq le_add_same_cancel1 mod_int_pos_iff
          zero_less_numeral zero_less_power)
      finally show False using lt by simp
    qed
    moreover have "0 \<le> uint w div 2 ^ m" by (simp add: pos_imp_zdiv_nonneg_iff)
    ultimately have "uint w div 2 ^ m = 0 \<or> uint w div 2 ^ m = 1" by linarith
    moreover have "uint w div 2 ^ m = 0 \<longleftrightarrow> uint w < 2 ^ m"
      using uint_ge_0 [of w] by (auto simp: div_int_pos_iff zdiv_eq_0_iff)
    ultimately show ?thesis by (auto simp: bit_iff_odd)
  qed
  ultimately show ?thesis by (auto simp: m)
qed

lemma uint_le_iff_unat: "uint w < 2 ^ n \<longleftrightarrow> unat w < 2 ^ n"
proof -
  have "uint w < 2 ^ n \<longleftrightarrow> int (unat w) < int (2 ^ n)" by simp
  then show ?thesis by (simp only: of_nat_less_iff)
qed

lemma sint_small: "unat (w :: 'a :: len word) < 2 ^ (LENGTH('a) - 1) \<Longrightarrow> sint w = int (unat w)"
  by (simp add: sint_cases_uint uint_le_iff_unat)

lemma sint_nonneg_iff: "0 \<le> sint (w :: 'a :: len word) \<longleftrightarrow> unat w < 2 ^ (LENGTH('a) - 1)"
proof (cases "unat w < 2 ^ (LENGTH('a) - 1)")
  case False
  have "uint w < 2 ^ LENGTH('a)" by (rule uint_lt2p)
  with False have "sint w < 0" by (simp add: sint_cases_uint uint_le_iff_unat)
  with False show ?thesis by simp
qed (simp add: sint_small)

lemma unat_of_nat_small: "n < 2 ^ LENGTH('a) \<Longrightarrow> unat (of_nat n :: 'a :: len word) = n"
  by (simp add: unat_of_nat take_bit_nat_eq_self)

lemma unat_uminus_of_nat:
  assumes "0 < k" "k < 2 ^ LENGTH('a)"
  shows "unat (- of_nat k :: 'a :: len word) = 2 ^ LENGTH('a) - k"
proof -
  have "(of_nat (2 ^ LENGTH('a) - k) :: 'a word) = of_nat (2 ^ LENGTH('a)) - of_nat k"
    using assms(2) by (intro of_nat_diff) simp
  also have "(of_nat (2 ^ LENGTH('a)) :: 'a word) = 0" by simp
  finally have "(- of_nat k :: 'a word) = of_nat (2 ^ LENGTH('a) - k)" by simp
  then show ?thesis using assms by (simp only: unat_of_nat_small)
qed

section \<open>Memory loads and network byte order\<close>

text \<open>
  A load or store of an unsigned short or uint32_t through a cast pointer is little endian;
  \<open>htons\<close>, \<open>ntohs\<close> and \<open>ntohl\<close> swap. The two together are the big-endian reading that the
  protocols are specified with.
\<close>

definition load16 :: "u8 \<Rightarrow> u8 \<Rightarrow> u16" where
  "load16 b0 b1 = ucast b0 OR push_bit 8 (ucast b1)"

definition store16 :: "u16 \<Rightarrow> bytes" where
  "store16 v = [ucast v, ucast (drop_bit 8 v)]"

definition htons :: "u16 \<Rightarrow> u16" where
  "htons v = push_bit 8 v OR drop_bit 8 v"

abbreviation ntohs :: "u16 \<Rightarrow> u16" where "ntohs \<equiv> htons"

definition load32 :: "u8 \<Rightarrow> u8 \<Rightarrow> u8 \<Rightarrow> u8 \<Rightarrow> u32" where
  "load32 b0 b1 b2 b3 =
     ucast b0 OR push_bit 8 (ucast b1) OR push_bit 16 (ucast b2) OR push_bit 24 (ucast b3)"

definition ntohl :: "u32 \<Rightarrow> u32" where
  "ntohl v = push_bit 24 v OR push_bit 8 (v AND push_bit 8 (mask 8)) OR
             drop_bit 8 (v AND push_bit 16 (mask 8)) OR drop_bit 24 v"

definition be16 :: "u8 \<Rightarrow> u8 \<Rightarrow> u16" where
  "be16 b0 b1 = push_bit 8 (ucast b0) OR ucast b1"

definition be16_bytes :: "u16 \<Rightarrow> bytes" where
  "be16_bytes v = [ucast (drop_bit 8 v), ucast v]"

definition be32 :: "u8 \<Rightarrow> u8 \<Rightarrow> u8 \<Rightarrow> u8 \<Rightarrow> u32" where
  "be32 b0 b1 b2 b3 =
     push_bit 24 (ucast b0) OR push_bit 16 (ucast b1) OR push_bit 8 (ucast b2) OR ucast b3"

definition be32_bytes :: "u32 \<Rightarrow> bytes" where
  "be32_bytes v = [ucast (drop_bit 24 v), ucast (drop_bit 16 v), ucast (drop_bit 8 v), ucast v]"

lemma be16_bytes_inverse [simp]:
  "be16 (ucast (drop_bit 8 v)) (ucast v) = v"
  by (rule bit_word_eqI) (auto simp: be16_def bit_simps)

lemma be32_bytes_inverse [simp]:
  "be32 (ucast (drop_bit 24 v)) (ucast (drop_bit 16 v)) (ucast (drop_bit 8 v)) (ucast v) = v"
proof (rule bit_word_eqI)
  fix n assume "n < LENGTH(32)"
  then consider "n < 8" | "8 \<le> n" "n < 16" | "16 \<le> n" "n < 24" | "24 \<le> n" "n < 32" by force
  then show "bit (be32 (ucast (drop_bit 24 v)) (ucast (drop_bit 16 v)) (ucast (drop_bit 8 v))
      (ucast v)) n = bit v n"
    by cases (auto simp: be32_def bit_simps)
qed

lemma length_be_bytes [simp]: "length (be16_bytes v) = 2" "length (be32_bytes w) = 4"
  by (simp_all add: be16_bytes_def be32_bytes_def)

lemma htons_htons [simp]: "htons (htons v) = v"
  by (rule bit_word_eqI) (auto simp: htons_def bit_simps)

lemma unat_be16: "unat (be16 b0 b1) = unat b0 * 256 + unat b1"
proof -
  have "bit (push_bit 8 (ucast b0) AND (ucast b1 :: u16)) n = bit (0 :: u16) n" for n
    by (auto simp: bit_simps dest: bit_imp_le_length)
  then have "push_bit 8 (ucast b0) AND (ucast b1 :: u16) = 0" by (intro bit_eqI) blast
  then have "be16 b0 b1 = push_bit 8 (ucast b0) + ucast b1"
    by (simp add: be16_def disjunctive_add_eq_or)
  then have eq: "be16 b0 b1 = word_of_nat (unat b0 * 256 + unat b1)"
    by (simp add: push_bit_eq_mult ac_simps)
  have lt: "unat b < 256" for b :: u8 by (rule order_less_le_trans [OF unsigned_less]) simp
  have "unat b0 * 256 + unat b1 < 2 ^ LENGTH(16)" using lt [of b0] lt [of b1] by simp
  then show ?thesis unfolding eq by (rule unat_of_nat_small)
qed

lemma ntohs_load16: "ntohs (load16 b0 b1) = be16 b0 b1"
  by (rule bit_word_eqI)
    (auto simp: htons_def load16_def be16_def bit_simps dest: bit_imp_le_length)

lemma ntohl_load32: "ntohl (load32 b0 b1 b2 b3) = be32 b0 b1 b2 b3"
proof (rule bit_word_eqI)
  fix n assume "n < LENGTH(32)"
  moreover have hi: "\<not> bit b k" if "8 \<le> k" for b :: u8 and k
    using that bit_imp_le_length [of b k] by auto
  ultimately consider "n < 8" | "8 \<le> n" "n < 16" | "16 \<le> n" "n < 24" | "24 \<le> n" "n < 32"
    by force
  then show "bit (ntohl (load32 b0 b1 b2 b3)) n = bit (be32 b0 b1 b2 b3) n"
    by cases (auto simp: ntohl_def load32_def be32_def bit_simps hi)
qed

lemma store16_htons: "store16 (htons v) = be16_bytes v"
  by (auto simp: store16_def htons_def be16_bytes_def bit_simps intro!: bit_word_eqI)

end
