(* ===== verification/Alac_Bits.thy ===== *)
theory Alac_Bits
  imports Prelude
begin

text \<open>
  The decoder state of alac.h and the bit reader of alac.c. The input pointer is an index into
  the packet array; \<open>None\<close> is undefined behaviour: a read or write outside an array, a shift by
  a negative or too large amount, \<open>__builtin_clz(0)\<close>. The lemmas say that the reader returns
  the big-endian bits at the current bit position and advances it by their number.
\<close>

unbundle bit_operations_syntax

section \<open>State\<close>

record alac_file =
  input_buffer :: bytes
  input_pos :: int
  input_buffer_bitaccumulator :: int
  samplesize :: int
  numchannels :: int
  bytespersample :: int
  predicterror_buffer_a :: "u32 list"
  predicterror_buffer_b :: "u32 list"
  outputsamples_buffer_a :: "u32 list"
  outputsamples_buffer_b :: "u32 list"
  uncompressed_bytes_buffer_a :: "u32 list"
  uncompressed_bytes_buffer_b :: "u32 list"
  setinfo_max_samples_per_frame :: u32
  setinfo_7a :: u8
  setinfo_sample_size :: u8
  setinfo_rice_historymult :: u8
  setinfo_rice_initialhistory :: u8
  setinfo_rice_kmodifier :: u8
  setinfo_7f :: u8
  setinfo_80 :: u16
  setinfo_82 :: u32
  setinfo_86 :: u32
  setinfo_8a_rate :: u32

section \<open>The bit reader\<close>

definition input_byte :: "alac_file \<Rightarrow> int \<Rightarrow> u8 option" where
  "input_byte alac i =
     (let j = input_pos alac + i in
      if 0 \<le> j \<and> j < int (length (input_buffer alac)) then Some (input_buffer alac ! nat j) else None)"

definition readbits_16 :: "alac_file \<Rightarrow> int \<Rightarrow> (u32 \<times> alac_file) option" where
  "readbits_16 alac bits =
     do {
       b0 \<leftarrow> input_byte alac 0;
       b1 \<leftarrow> input_byte alac 1;
       b2 \<leftarrow> input_byte alac 2;
       let result = push_bit 16 (ucast b0) OR push_bit 8 (ucast b1) OR ucast b2;
       let result = push_bit (nat (input_buffer_bitaccumulator alac)) result;
       let result = result AND 0x00ffffff;
       if bits < 0 \<or> 24 < bits then None
       else do {
         let result = drop_bit (nat (24 - bits)) result;
         let new_accumulator = input_buffer_bitaccumulator alac + bits;
         Some (result,
               alac\<lparr>input_pos := input_pos alac + drop_bit 3 new_accumulator,
                    input_buffer_bitaccumulator := new_accumulator AND 7\<rparr>)
       }
     }"

definition readbits :: "alac_file \<Rightarrow> int \<Rightarrow> (u32 \<times> alac_file) option" where
  "readbits alac bits =
     (if bits > 16 then
        do {
          let bits = bits - 16;
          (v, alac) \<leftarrow> readbits_16 alac 16;
          if 32 \<le> bits then None
          else do {
            let result = push_bit (nat bits) v;
            (w, alac) \<leftarrow> readbits_16 alac bits;
            Some (result OR w, alac)
          }
        }
      else
        do {
          (w, alac) \<leftarrow> readbits_16 alac bits;
          Some (0 OR w, alac)
        })"

definition readbit :: "alac_file \<Rightarrow> (u32 \<times> alac_file) option" where
  "readbit alac =
     do {
       b0 \<leftarrow> input_byte alac 0;
       let result = ucast b0;
       let result = push_bit (nat (input_buffer_bitaccumulator alac)) result;
       let result = signed_drop_bit 7 result AND 1;
       let new_accumulator = input_buffer_bitaccumulator alac + 1;
       Some (result,
             alac\<lparr>input_pos := input_pos alac + cdiv new_accumulator 8,
                  input_buffer_bitaccumulator := new_accumulator mod 8\<rparr>)
     }"

definition unreadbits :: "alac_file \<Rightarrow> int \<Rightarrow> alac_file" where
  "unreadbits alac bits =
     (let new_accumulator = input_buffer_bitaccumulator alac - bits;
          alac = alac\<lparr>input_pos := input_pos alac + drop_bit 3 new_accumulator,
                      input_buffer_bitaccumulator := new_accumulator AND 7\<rparr>
      in if input_buffer_bitaccumulator alac < 0
         then alac\<lparr>input_buffer_bitaccumulator := input_buffer_bitaccumulator alac * -1\<rparr>
         else alac)"

section \<open>The stream of bits\<close>

text \<open>
  Reference: bit \<open>i\<close> of the packet, most significant bit of each byte first; the position of
  the reader; a reader state in normal form (the accumulator below 8, the pointer not before
  the packet).
\<close>

definition stream_bit :: "bytes \<Rightarrow> nat \<Rightarrow> bool" where
  "stream_bit buf i = bit (buf ! (i div 8)) (7 - i mod 8)"

definition bitpos :: "alac_file \<Rightarrow> nat" where
  "bitpos alac = 8 * nat (input_pos alac) + nat (input_buffer_bitaccumulator alac)"

definition reader_ok :: "alac_file \<Rightarrow> bool" where
  "reader_ok alac \<longleftrightarrow>
     0 \<le> input_pos alac \<and> 0 \<le> input_buffer_bitaccumulator alac \<and>
     input_buffer_bitaccumulator alac < 8"

text \<open>Setting the reader to a bit position.\<close>

definition seek :: "alac_file \<Rightarrow> nat \<Rightarrow> alac_file" where
  "seek alac n = alac\<lparr>input_pos := int (n div 8), input_buffer_bitaccumulator := int (n mod 8)\<rparr>"

lemma seek_simps [simp]:
  "input_buffer (seek a n) = input_buffer a" "bitpos (seek a n) = n" "reader_ok (seek a n)"
  "seek (seek a n) m = seek a m"
  by (simp_all add: seek_def bitpos_def reader_ok_def nat_mod_distrib nat_div_distrib)

lemma seek_bitpos: "reader_ok a \<Longrightarrow> seek a (bitpos a) = a"
proof -
  assume ok: "reader_ok a"
  obtain p q where p: "input_pos a = int p" and q: "input_buffer_bitaccumulator a = int q" "q < 8"
    by (rule that [of "nat (input_pos a)" "nat (input_buffer_bitaccumulator a)"])
      (use ok in \<open>auto simp: reader_ok_def\<close>)
  then have "bitpos a div 8 = p" "bitpos a mod 8 = q" by (simp_all add: bitpos_def)
  then show ?thesis using p q by (cases a) (simp add: seek_def)
qed

lemma and_7_mod_8: "(k :: int) AND 7 = k mod 8"
proof -
  have "(7 :: int) = mask 3" by (simp add: mask_eq_exp_minus_1)
  then have "k AND 7 = take_bit 3 k" by (simp only: take_bit_eq_mask)
  then show ?thesis by (simp add: take_bit_eq_mod)
qed

text \<open>Advancing by \<open>n\<close> bits, forwards or backwards, lands on the position it should.\<close>

lemma advance_seek:
  assumes "reader_ok a" "int (bitpos a) + n = int m"
  shows "a\<lparr>input_pos := input_pos a + drop_bit 3 (input_buffer_bitaccumulator a + n),
           input_buffer_bitaccumulator := (input_buffer_bitaccumulator a + n) AND 7\<rparr> = seek a m"
proof -
  have acc: "input_buffer_bitaccumulator a + n = int m - 8 * input_pos a"
    using assms by (auto simp: bitpos_def reader_ok_def)
  have "(int m - 8 * input_pos a) div 8 = int m div 8 - input_pos a"
    using div_mult_self1 [of 8 "int m" "- input_pos a"] by (simp add: mult.commute)
  moreover have "(int m - 8 * input_pos a) mod 8 = int m mod 8"
    using mod_mult_self1 [of "int m" "- input_pos a" 8] by (simp add: mult.commute)
  ultimately show ?thesis
    by (simp add: acc seek_def and_7_mod_8 drop_bit_eq_div zdiv_int zmod_int)
qed

section \<open>The value of a run of bits\<close>

fun stream_nat :: "bytes \<Rightarrow> nat \<Rightarrow> nat \<Rightarrow> nat" where
  "stream_nat buf n 0 = 0"
| "stream_nat buf n (Suc k) = 2 * stream_nat buf n k + of_bool (stream_bit buf (n + k))"

lemma bit_stream_nat: "bit (stream_nat buf n k) j \<longleftrightarrow> j < k \<and> stream_bit buf (n + k - 1 - j)"
proof (induction k arbitrary: j)
  case (Suc k)
  show ?case
  proof (cases j)
    case (Suc i)
    have "bit (stream_nat buf n (Suc k)) (Suc i) = bit (stream_nat buf n k) i"
      by (simp add: bit_Suc)
    then show ?thesis using Suc.IH [of i] by (simp add: Suc)
  qed (simp add: bit_0)
qed simp

lemma stream_nat_less: "stream_nat buf n k < 2 ^ k"
  by (induction k) auto

lemma stream_nat_append: "stream_nat buf n (k + m) = stream_nat buf n k * 2 ^ m + stream_nat buf (n + k) m"
  by (induction m) (simp_all add: add.assoc)

lemma three_bytes:
  fixes b0 b1 b2 :: u8
  assumes "t + i = 23"
  shows "bit (push_bit 16 (ucast b0) OR push_bit 8 (ucast b1) OR ucast b2 :: u32) i =
    bit ([b0, b1, b2] ! (t div 8)) (7 - t mod 8)"
proof -
  have hi: "\<not> bit b k" if "8 \<le> k" for b :: u8 and k
    using that bit_imp_le_length [of b k] by auto
  obtain q r where t: "t = 8 * q + r" "r < 8"
    by (rule that [of "t div 8" "t mod 8"]) simp_all
  have dm: "t div 8 = q" "t mod 8 = r" using t by simp_all
  obtain s where s: "r + s = 7" using t(2) by (intro that [of "7 - r"]) simp
  have s7: "7 - r = s" using s by simp
  have "q = 0 \<or> q = 1 \<or> q = 2" using t assms by linarith
  then consider "q = 2" "i = s" | "q = 1" "i = 8 + s" | "q = 0" "i = 16 + s"
    using t s assms by (elim disjE) simp_all
  then show ?thesis
  proof cases
    case 1
    then show ?thesis unfolding dm s7 using s by (simp add: bit_simps)
  next
    case 2
    then show ?thesis unfolding dm s7 using s by (auto simp: bit_simps hi)
  next
    case 3
    then show ?thesis unfolding dm s7 using s by (auto simp: bit_simps hi)
  qed
qed

lemma input_byte_seek:
  "input_byte (seek a n) (int i) =
     (if n div 8 + i < length (input_buffer a) then Some (input_buffer a ! (n div 8 + i)) else None)"
proof -
  have "input_pos (seek a n) + int i = int (n div 8 + i)" by (simp add: seek_def)
  then show ?thesis by (simp only: input_byte_def Let_def nat_int of_nat_less_iff seek_simps)
      (simp del: of_nat_add)
qed

lemma seek_acc: "nat (input_buffer_bitaccumulator (seek a n)) = n mod 8"
  by (simp add: seek_def nat_mod_distrib)

text \<open>The 24 bits at the pointer, shifted by the accumulator, give the wanted bits on top.\<close>

lemma window_bits:
  assumes len: "n + 24 \<le> 8 * length buf" and k: "k \<le> 16"
  shows "drop_bit (24 - k) (push_bit (n mod 8)
      (push_bit 16 (ucast (buf ! (n div 8))) OR push_bit 8 (ucast (buf ! (n div 8 + 1))) OR
       ucast (buf ! (n div 8 + 2))) AND 0x00ffffff) = (of_nat (stream_nat buf n k) :: u32)"
    (is "?l = ?r")
proof (rule bit_word_eqI)
  fix j assume j: "j < LENGTH(32)"
  let ?p = "n div 8" and ?acc = "n mod 8"
  let ?w = "push_bit 16 (ucast (buf ! ?p)) OR push_bit 8 (ucast (buf ! (?p + 1))) OR
    ucast (buf ! (?p + 2)) :: u32"
  have mask: "(0x00ffffff :: u32) = mask 24" by (simp add: mask_eq_exp_minus_1)
  have acc: "?acc < 8" by simp
  have "bit ?l j \<longleftrightarrow> j < k \<and> stream_bit buf (n + k - 1 - j)"
  proof (cases "j < k")
    case True
    obtain e where e: "24 = k + e" using k by (intro that [of "24 - k"]) simp
    obtain d where d: "k = Suc (j + d)" using True less_imp_Suc_add by blast
    obtain i where i: "e + j = ?acc + i" using e d acc k by (intro that [of "e + j - ?acc"]) simp
    obtain t where t: "t + i = 23" using e d i by (intro that [of "23 - i"]) simp
    have nd: "8 * ?p + ?acc = n" by simp
    have ke: "24 - k = e" using e by simp
    have pos: "n + k - 1 - j = 8 * ?p + t" using e d i t nd by linarith
    have "t div 8 < 3" using t by (intro div_less_iff_less_mult [THEN iffD2]) simp_all
    then have "t div 8 = 0 \<or> t div 8 = 1 \<or> t div 8 = 2" by linarith
    then have bt: "[buf ! ?p, buf ! (?p + 1), buf ! (?p + 2)] ! (t div 8) = buf ! (?p + t div 8)"
      by (elim disjE) (simp_all only: nth_Cons_0 nth_Cons_Suc add_0_right One_nat_def numeral_2_eq_2)
    have "bit ?l j = bit (push_bit ?acc ?w AND mask 24) (e + j)"
      unfolding mask ke by (simp only: bit_drop_bit_eq comp_def)
    also have "\<dots> = bit ?w i"
    proof -
      have "?acc \<le> ?acc + i" "?acc + i < 24" "?acc + i < 32" "?acc + i - ?acc = i" using e d i by linarith+
      then show ?thesis unfolding i
        by (simp only: bit_and_iff bit_mask_iff bit_push_bit_iff possible_bit_word) simp
    qed
    also have "\<dots> = bit (buf ! (?p + t div 8)) (7 - t mod 8)"
      unfolding bt [symmetric] by (rule three_bytes [OF t])
    also have "\<dots> = stream_bit buf (8 * ?p + t)"
      by (simp add: stream_bit_def)
    finally show ?thesis using True pos by (simp only: simp_thms)
  next
    case False
    then have "\<not> 24 - k + j < 24" using k by linarith
    then have "\<not> bit ?l j" unfolding mask by (simp only: bit_drop_bit_eq comp_def bit_and_iff bit_mask_iff) simp
    then show ?thesis using False by simp
  qed
  moreover have "bit ?r j \<longleftrightarrow> j < k \<and> stream_bit buf (n + k - 1 - j)"
    using j by (simp add: bit_of_nat_iff bit_stream_nat)
  ultimately show "bit ?l j = bit ?r j" by (rule trans [OF _ sym])
qed

lemma readbits_16_stream:
  assumes len: "n + 24 \<le> 8 * length (input_buffer a)" and k: "k \<le> 16"
  shows "readbits_16 (seek a n) (int k) =
    Some (of_nat (stream_nat (input_buffer a) n k), seek a (n + k))"
proof -
  obtain s where s: "s = seek a n" by simp
  have p: "n div 8 + 2 < length (input_buffer a)" using len by linarith
  have bts: "input_byte s 0 = Some (input_buffer a ! (n div 8))"
    "input_byte s 1 = Some (input_buffer a ! (n div 8 + 1))"
    "input_byte s 2 = Some (input_buffer a ! (n div 8 + 2))"
    using input_byte_seek [of a n 0] input_byte_seek [of a n 1] input_byte_seek [of a n 2] p
    unfolding s by simp_all
  have adv: "s\<lparr>input_pos := input_pos s + drop_bit 3 (input_buffer_bitaccumulator s + int k),
      input_buffer_bitaccumulator := (input_buffer_bitaccumulator s + int k) AND 7\<rparr> = seek a (n + k)"
    unfolding s by (rule advance_seek [of "seek a n" "int k" "n + k", simplified]) 
  have m: "nat (24 - int k) = 24 - k" using k by linarith
  have guard: "\<not> (int k < 0 \<or> 24 < int k)" using k by simp
  have acc: "nat (input_buffer_bitaccumulator s) = n mod 8" unfolding s by (rule seek_acc)
  show ?thesis
    unfolding s [symmetric] readbits_16_def Let_def bts bind.bind_lunit Option.bind.simps
      if_not_P [OF guard] m acc window_bits [OF len k] adv by (rule refl)
qed

lemma readbits_stream:
  assumes len: "n + k + 24 \<le> 8 * length (input_buffer a)" and k: "k \<le> 32"
  shows "readbits (seek a n) (int k) =
    Some (of_nat (stream_nat (input_buffer a) n k), seek a (n + k))"
proof (cases "k \<le> 16")
  case True
  then show ?thesis using readbits_16_stream [of n a k] len by (simp add: readbits_def)
next
  case False
  then obtain m where m: "k = 16 + m" "m \<le> 16" "0 < m"
    using k by (intro that [of "k - 16"]) auto
  let ?v = "stream_nat (input_buffer a) n 16" and ?u = "stream_nat (input_buffer a) (n + 16) m"
  have r: "readbits_16 (seek a n) 16 = Some (of_nat ?v, seek a (n + 16))"
    "readbits_16 (seek a (n + 16)) (int m) = Some (of_nat ?u, seek a (n + 16 + m))"
    using readbits_16_stream [of n a 16] readbits_16_stream [of "n + 16" a m] len m by simp_all
  have disj: "push_bit m (of_nat ?v) OR of_nat ?u = (of_nat (?v * 2 ^ m + ?u) :: u32)"
  proof (rule bit_word_eqI)
    fix j assume j: "j < LENGTH(32)"
    have u: "\<not> (m \<le> j \<and> bit ?u j)" by (simp add: bit_stream_nat)
    have eq: "?v * 2 ^ m + ?u = push_bit m ?v OR ?u"
    proof -
      have "push_bit m ?v + ?u = push_bit m ?v OR ?u"
        by (rule disjunctive_add) (auto simp: bit_push_bit_iff bit_stream_nat)
      then show ?thesis by (simp add: push_bit_eq_mult)
    qed
    show "bit (push_bit m (of_nat ?v) OR of_nat ?u :: u32) j = bit (of_nat (?v * 2 ^ m + ?u) :: u32) j"
      unfolding eq using j by (auto simp: bit_or_iff bit_push_bit_iff bit_of_nat_iff)
  qed
  show ?thesis
    using r m disj stream_nat_append [of "input_buffer a" n 16 m]
    by (simp add: readbits_def add.assoc)
qed

lemma readbit_stream:
  assumes len: "n < 8 * length (input_buffer a)"
  shows "readbit (seek a n) = Some (of_bool (stream_bit (input_buffer a) n), seek a (n + 1))"
proof -
  obtain s where s: "s = seek a n" by simp
  let ?b = "input_buffer a ! (n div 8)"
  have b0: "input_byte s 0 = Some ?b"
    using input_byte_seek [of a n 0] len unfolding s by (simp add: less_mult_imp_div_less)
  have acc: "nat (input_buffer_bitaccumulator s) = n mod 8" unfolding s by (rule seek_acc)
  have ge: "0 \<le> input_buffer_bitaccumulator s" "0 \<le> input_pos s" "input_buffer_bitaccumulator s < 8"
    using seek_simps(3) [of a n] unfolding s reader_ok_def by simp_all
  have adv: "s\<lparr>input_pos := input_pos s + cdiv (input_buffer_bitaccumulator s + 1) 8,
      input_buffer_bitaccumulator := (input_buffer_bitaccumulator s + 1) mod 8\<rparr> = seek a (n + 1)"
    using advance_seek [of "seek a n" 1 "n + 1"] ge
    unfolding s [symmetric] by (simp add: s and_7_mod_8 cdiv_nonneg drop_bit_eq_div)
  have val: "signed_drop_bit 7 (push_bit (n mod 8) (ucast ?b)) AND 1 =
      (of_bool (stream_bit (input_buffer a) n) :: u32)"
  proof (rule bit_word_eqI)
    fix j assume "j < LENGTH(32)"
    have m: "n mod 8 < 8" by simp
    show "bit (signed_drop_bit 7 (push_bit (n mod 8) (ucast ?b)) AND 1 :: u32) j =
        bit (of_bool (stream_bit (input_buffer a) n) :: u32) j"
    proof (cases j)
      case 0
      then show ?thesis using m
        by (auto simp: bit_simps bit_signed_drop_bit_iff stream_bit_def bit_1_iff)
    qed (simp add: bit_simps bit_1_iff)
  qed
  show ?thesis
    unfolding s [symmetric] readbit_def Let_def b0 Option.bind.simps acc val adv by (rule refl)
qed

lemma unreadbits_seek:
  assumes "m \<le> n"
  shows "unreadbits (seek a n) (int m) = seek a (n - m)"
proof -
  obtain s where s: "s = seek a n" by simp
  have adv: "s\<lparr>input_pos := input_pos s + drop_bit 3 (input_buffer_bitaccumulator s - int m),
      input_buffer_bitaccumulator := (input_buffer_bitaccumulator s - int m) AND 7\<rparr> = seek a (n - m)"
    using advance_seek [of "seek a n" "- int m" "n - m"] assms unfolding s by simp
  have "\<not> input_buffer_bitaccumulator (seek a (n - m)) < 0" by (simp add: seek_def)
  then show ?thesis unfolding s [symmetric] unreadbits_def Let_def adv by (rule if_not_P)
qed

section \<open>Properties\<close>

text \<open>
  C8: \<open>readbits\<close> returns the next \<open>k\<close> bits of the packet, most significant first, for every
  \<open>k\<close> up to 32 and every position in a byte, and moves on by \<open>k\<close> bits; \<open>readbit\<close> returns the
  next bit, and \<open>unreadbits\<close> moves back by its argument.
\<close>

theorem bit_reader_reads_stream:
  assumes "reader_ok a" "k \<le> 32" "bitpos a + k + 24 \<le> 8 * length (input_buffer a)" "m \<le> bitpos a"
  shows "readbits a (int k) =
      Some (of_nat (stream_nat (input_buffer a) (bitpos a) k), seek a (bitpos a + k)) \<and>
    readbit a = Some (of_bool (stream_bit (input_buffer a) (bitpos a)), seek a (bitpos a + 1)) \<and>
    unreadbits a (int m) = seek a (bitpos a - m)"
  using readbits_stream [of "bitpos a" k a] readbit_stream [of "bitpos a" a]
    unreadbits_seek [of m "bitpos a" a] seek_bitpos [OF assms(1)] assms by simp

theorem bit_reader_reads_stream_witness:
  "\<exists>a. input_buffer a = [0xab, 0xcd, 0, 0, 0, 0] \<and> fst (the (readbits a 12)) = 0xabc"
proof -
  let ?a = "\<lparr>input_buffer = [0xab, 0xcd, 0, 0, 0, 0], input_pos = 0, input_buffer_bitaccumulator = 0,
    samplesize = 16, numchannels = 2, bytespersample = 4, predicterror_buffer_a = [],
    predicterror_buffer_b = [], outputsamples_buffer_a = [], outputsamples_buffer_b = [],
    uncompressed_bytes_buffer_a = [], uncompressed_bytes_buffer_b = [],
    setinfo_max_samples_per_frame = 0, setinfo_7a = 0, setinfo_sample_size = 16,
    setinfo_rice_historymult = 0, setinfo_rice_initialhistory = 0, setinfo_rice_kmodifier = 0,
    setinfo_7f = 0, setinfo_80 = 0, setinfo_82 = 0, setinfo_86 = 0, setinfo_8a_rate = 0\<rparr>"
  have v: "stream_nat [0xab, 0xcd, 0, 0, 0, 0] 0 12 = 0xabc" by code_simp
  have a: "input_buffer ?a = [0xab, 0xcd, 0, 0, 0, 0]" "bitpos ?a = 0" "reader_ok ?a"
    by (simp_all add: bitpos_def reader_ok_def)
  have "readbits ?a 12 = Some (0xabc, seek ?a 12)"
    using bit_reader_reads_stream [of ?a 12 0] a v by simp
  then show ?thesis using a(1) by (intro exI [of _ ?a]) simp
qed

end
