(* ===== verification/Alac_Entropy.thy ===== *)
theory Alac_Entropy
  imports Alac_Bits
begin

text \<open>
  The adaptive Rice decoder of alac.c: \<open>count_leading_zeros\<close>, \<open>entropy_decode_value\<close> and
  \<open>entropy_rice_decode\<close>, with the code the decoder inverts as reference. Signed 32-bit values
  are words read by \<^term>\<open>sint\<close>; their arithmetic wraps. \<open>None\<close> is undefined behaviour.
\<close>

unbundle bit_operations_syntax

section \<open>Operations\<close>

definition count_leading_zeros :: "u32 \<Rightarrow> int option" where
  "count_leading_zeros input =
     (if input = 0 then None
      else Some (int (length (takeWhile (\<lambda>i. \<not> bit input i) (rev [0..<32])))))"

definition RICE_THRESHOLD :: nat where
  "RICE_THRESHOLD = 8"

function rice_prefix :: "alac_file \<Rightarrow> nat \<Rightarrow> (nat \<times> alac_file) option" where
  "rice_prefix alac x =
     (if x \<le> RICE_THRESHOLD
      then do {
        (b, alac) \<leftarrow> readbit alac;
        if b \<noteq> 0 then rice_prefix alac (x + 1) else Some (x, alac)
      }
      else Some (x, alac))"
  by pat_completeness auto
termination
  by (relation "measure (\<lambda>(alac, x). Suc RICE_THRESHOLD - x)") auto

declare rice_prefix.simps [simp del]

definition entropy_decode_value ::
    "alac_file \<Rightarrow> int \<Rightarrow> int \<Rightarrow> u32 \<Rightarrow> (u32 \<times> alac_file) option" where
  "entropy_decode_value alac readSampleSize k rice_kmodifier_mask =
     do {
       (x, alac) \<leftarrow> rice_prefix alac 0;
       if RICE_THRESHOLD < x then
         do {
           (value, alac) \<leftarrow> readbits alac readSampleSize;
           if 32 - readSampleSize < 0 \<or> 32 \<le> 32 - readSampleSize then None
           else Some (value AND drop_bit (nat (32 - readSampleSize)) 0xffffffff, alac)
         }
       else if k \<noteq> 1 then
         do {
           (extraBits, alac) \<leftarrow> readbits alac k;
           if k < 0 \<or> 32 \<le> k then None
           else do {
             let x = of_nat x * ((push_bit (nat k) 1 - 1) AND rice_kmodifier_mask);
             if 1 < sint extraBits then Some (x + (extraBits - 1), alac)
             else Some (x, unreadbits alac 1)
           }
         }
       else Some (of_nat x, alac)
     }"

text \<open>
  The loop of \<open>entropy_rice_decode\<close>: one iteration decodes a sample, stores it, adapts the
  history, and fills a run of zeros when the history is small.
\<close>

definition rice_sample :: "u32 \<Rightarrow> u32" where
  "rice_sample decodedValue =
     (let finalValue = word_of_int (cdiv (sint (decodedValue + 1)) 2) in
      if decodedValue AND 1 \<noteq> 0 then finalValue * -1 else finalValue)"

definition rice_history :: "u32 \<Rightarrow> u32 \<Rightarrow> int \<Rightarrow> u32" where
  "rice_history history decodedValue rice_historymult =
     (let history = history + (decodedValue * word_of_int rice_historymult
                    - signed_drop_bit 9 (history * word_of_int rice_historymult)) in
      if 0xFFFF < sint decodedValue then 0xFFFF else history)"

definition rice_k :: "u32 \<Rightarrow> int \<Rightarrow> int option" where
  "rice_k history rice_kmodifier =
     do {
       z \<leftarrow> count_leading_zeros (signed_drop_bit 9 history + 3);
       let k = 31 - rice_kmodifier - z;
       Some (if k < 0 then k + rice_kmodifier else rice_kmodifier)
     }"

definition zero_block_k :: "u32 \<Rightarrow> int option" where
  "zero_block_k history =
     do {
       z \<leftarrow> count_leading_zeros history;
       Some (z + cdiv (sint (history + 16)) 64 - 24)
     }"

definition memset_zero_block :: "u32 list \<Rightarrow> int \<Rightarrow> int \<Rightarrow> u32 list option" where
  "memset_zero_block outputBuffer i blockSize =
     (if 0 \<le> i \<and> i + blockSize \<le> int (length outputBuffer)
      then Some (take (nat i) outputBuffer @ replicate (nat blockSize) 0 @
                 drop (nat (i + blockSize)) outputBuffer)
      else None)"

function rice_loop ::
    "alac_file \<Rightarrow> u32 list \<Rightarrow> int \<Rightarrow> int \<Rightarrow> int \<Rightarrow> int \<Rightarrow> u32 \<Rightarrow> u32 \<Rightarrow> u32 \<Rightarrow> int
       \<Rightarrow> (u32 list \<times> alac_file) option" where
  "rice_loop alac outputBuffer outputSize readSampleSize rice_kmodifier rice_historymult
     rice_kmodifier_mask history signModifier outputCount =
     (if outputCount < outputSize
      then do {
        k \<leftarrow> rice_k history rice_kmodifier;
        (decodedValue, alac) \<leftarrow> entropy_decode_value alac readSampleSize k 0xFFFFFFFF;
        let decodedValue = decodedValue + signModifier;
        outputBuffer \<leftarrow> store_at outputBuffer outputCount (rice_sample decodedValue);
        let history = rice_history history decodedValue rice_historymult;
        if sint history < 128 \<and> outputCount + 1 < outputSize
        then do {
          k \<leftarrow> zero_block_k history;
          (blockSize, alac) \<leftarrow> entropy_decode_value alac 16 k rice_kmodifier_mask;
          outputBuffer \<leftarrow>
            (if 0 < sint blockSize
             then memset_zero_block outputBuffer (outputCount + 1) (sint blockSize)
             else Some outputBuffer);
          rice_loop alac outputBuffer outputSize readSampleSize rice_kmodifier rice_historymult
            rice_kmodifier_mask 0 (if 0xFFFF < sint blockSize then 0 else 1)
            (outputCount + (if 0 < sint blockSize then sint blockSize else 0) + 1)
        }
        else rice_loop alac outputBuffer outputSize readSampleSize rice_kmodifier rice_historymult
               rice_kmodifier_mask history 0 (outputCount + 1)
      }
      else Some (outputBuffer, alac))"
  by pat_completeness auto
termination
  by (relation "measure (\<lambda>(alac, buf, outputSize, rss, km, hm, mask, h, sm, outputCount).
        nat (outputSize - outputCount))") auto

declare rice_loop.simps [simp del]

definition entropy_rice_decode ::
    "alac_file \<Rightarrow> u32 list \<Rightarrow> int \<Rightarrow> int \<Rightarrow> int \<Rightarrow> int \<Rightarrow> int \<Rightarrow> u32
       \<Rightarrow> (u32 list \<times> alac_file) option" where
  "entropy_rice_decode alac outputBuffer outputSize readSampleSize rice_initialhistory
     rice_kmodifier rice_historymult rice_kmodifier_mask =
     rice_loop alac outputBuffer outputSize readSampleSize rice_kmodifier rice_historymult
       rice_kmodifier_mask (word_of_int rice_initialhistory) 0 0"

section \<open>The Rice code\<close>

text \<open>
  Reference: the bits of a number, most significant first; the code of a value: its quotient by
  the multiplier in unary, then the remainder in \<open>k\<close> bits, or in \<open>k - 1\<close> when it is zero; an
  escape of nine ones and the value itself in \<open>rss\<close> bits when the quotient is above eight.
\<close>

definition nat_bits :: "nat \<Rightarrow> nat \<Rightarrow> bool list" where
  "nat_bits k v = map (\<lambda>i. bit v (k - 1 - i)) [0..<k]"

definition rice_code :: "nat \<Rightarrow> nat \<Rightarrow> nat \<Rightarrow> nat \<Rightarrow> bool list" where
  "rice_code rss k m v =
     (if m \<noteq> 0 \<and> v div m \<le> RICE_THRESHOLD
      then replicate (v div m) True @ [False] @
           (if v mod m = 0 then replicate (k - 1) False else nat_bits k (v mod m + 1))
      else replicate (Suc RICE_THRESHOLD) True @ nat_bits rss v)"

definition carries :: "bytes \<Rightarrow> nat \<Rightarrow> bool list \<Rightarrow> bool" where
  "carries buf n bs \<longleftrightarrow> list_all2 (=) (map (\<lambda>i. stream_bit buf (n + i)) [0..<length bs]) bs"

lemma length_nat_bits [simp]: "length (nat_bits k v) = k"
  by (simp add: nat_bits_def)

lemma carries_iff: "carries buf n bs \<longleftrightarrow> (\<forall>i < length bs. stream_bit buf (n + i) = bs ! i)"
  by (simp add: carries_def list_all2_conv_all_nth)

lemma carries_append:
  "carries buf n (xs @ ys) \<longleftrightarrow> carries buf n xs \<and> carries buf (n + length xs) ys" (is "?l \<longleftrightarrow> ?r")
proof
  assume l: ?l
  have "stream_bit buf (n + i) = xs ! i" if "i < length xs" for i
    using l that by (auto simp: carries_iff nth_append)
  moreover have "stream_bit buf (n + length xs + i) = ys ! i" if "i < length ys" for i
    using l that by (auto simp: carries_iff nth_append add.assoc dest: spec [of _ "length xs + i"])
  ultimately show ?r by (simp add: carries_iff)
next
  assume ?r
  then have x: "\<And>i. i < length xs \<Longrightarrow> stream_bit buf (n + i) = xs ! i"
    and y: "\<And>i. i < length ys \<Longrightarrow> stream_bit buf (n + length xs + i) = ys ! i"
    by (simp_all add: carries_iff)
  show ?l unfolding carries_iff
  proof (intro allI impI)
    fix i assume i: "i < length (xs @ ys)"
    show "stream_bit buf (n + i) = (xs @ ys) ! i"
      using x [of i] y [of "i - length xs"] i by (auto simp: nth_append)
  qed
qed

lemma carries_Nil [simp]: "carries buf n []"
  by (simp add: carries_iff)

lemma carries_Cons: "carries buf n (b # bs) \<longleftrightarrow> stream_bit buf n = b \<and> carries buf (n + 1) bs"
  using carries_append [of buf n "[b]" bs] by (simp add: carries_iff)

lemma carries_nat_bits:
  assumes "carries buf n (nat_bits k v)"
  shows "stream_nat buf n k = take_bit k v"
proof (rule bit_eqI)
  fix j
  show "bit (stream_nat buf n k) j = bit (take_bit k v) j"
  proof (cases "j < k")
    case True
    then have "stream_bit buf (n + (k - 1 - j)) = nat_bits k v ! (k - 1 - j)"
      using assms unfolding carries_iff length_nat_bits by (drule_tac spec [of _ "k - 1 - j"]) simp
    then show ?thesis using True by (simp add: bit_stream_nat bit_take_bit_iff nat_bits_def)
  qed (simp add: bit_stream_nat bit_take_bit_iff)
qed


text \<open>The unary prefix: ones up to the zero, or nine of them.\<close>

lemma rice_prefix_ones:
  assumes "carries (input_buffer a) n (replicate q True @ [False])" "x + q \<le> RICE_THRESHOLD"
    "n + q < 8 * length (input_buffer a)"
  shows "rice_prefix (seek a n) x = Some (x + q, seek a (n + q + 1))"
  using assms
proof (induction q arbitrary: n x)
  case 0
  then show ?case
    by (subst rice_prefix.simps) (simp add: carries_Cons readbit_stream)
next
  case (Suc q)
  then have "rice_prefix (seek a (n + 1)) (x + 1) = Some (x + 1 + q, seek a (n + 1 + q + 1))"
    by (intro Suc.IH) (simp_all add: carries_Cons)
  with Suc.prems show ?case
    by (subst rice_prefix.simps) (simp add: carries_Cons readbit_stream)
qed

lemma rice_prefix_escape:
  assumes "carries (input_buffer a) n (replicate q True)" "x + q = Suc RICE_THRESHOLD"
    "n + q \<le> 8 * length (input_buffer a)"
  shows "rice_prefix (seek a n) x = Some (Suc RICE_THRESHOLD, seek a (n + q))"
  using assms
proof (induction q arbitrary: n x)
  case 0
  then show ?case by (subst rice_prefix.simps) simp
next
  case (Suc q)
  then have "rice_prefix (seek a (n + 1)) (x + 1) = Some (Suc RICE_THRESHOLD, seek a (n + 1 + q))"
    by (intro Suc.IH) (simp_all add: carries_Cons)
  with Suc.prems show ?case
    by (subst rice_prefix.simps) (simp add: carries_Cons readbit_stream)
qed

lemma mask_all_ones: "1 \<le> r \<Longrightarrow> r \<le> 32 \<Longrightarrow> drop_bit (32 - r) (0xffffffff :: u32) = mask r"
proof (rule bit_word_eqI)
  fix j assume "1 \<le> r" "r \<le> 32" "j < LENGTH(32)"
  moreover have m: "(0xffffffff :: u32) = mask 32" by (simp add: mask_eq_exp_minus_1)
  ultimately show "bit (drop_bit (32 - r) (0xffffffff :: u32)) j = bit (mask r :: u32) j"
    unfolding m by (auto simp del: mask_full simp: bit_drop_bit_eq bit_mask_iff)
qed

text \<open>The decoder of a value inverts the code.\<close>

lemma entropy_decode_code:
  fixes a :: alac_file and mm :: u32
  assumes code: "carries (input_buffer a) n (rice_code rss k m v)"
    and room: "n + length (rice_code rss k m v) + 32 \<le> 8 * length (input_buffer a)"
    and k: "1 \<le> k" "k < 32"
    and rss: "1 \<le> rss" "rss \<le> 32" "v < 2 ^ rss"
    and m: "m = (if k = 1 then 1 else unat ((push_bit k 1 - 1) AND mm))"
  shows "entropy_decode_value (seek a n) (int rss) (int k) mm =
    Some (of_nat v, seek a (n + length (rice_code rss k m v)))"
proof (cases "m \<noteq> 0 \<and> v div m \<le> RICE_THRESHOLD")
  case False
  then have rc: "rice_code rss k m v = replicate (Suc RICE_THRESHOLD) True @ nat_bits rss v"
    unfolding rice_code_def by (rule if_not_P)
  have pre: "rice_prefix (seek a n) 0 = Some (Suc RICE_THRESHOLD, seek a (n + Suc RICE_THRESHOLD))"
    using code room unfolding rc carries_append by (intro rice_prefix_escape) auto
  have val: "stream_nat (input_buffer a) (n + Suc RICE_THRESHOLD) rss = v"
    using code carries_nat_bits [of "input_buffer a" "n + Suc RICE_THRESHOLD" rss v] rss(3)
    unfolding rc carries_append by (simp add: take_bit_nat_eq_self)
  have rd: "readbits (seek a (n + Suc RICE_THRESHOLD)) (int rss) =
      Some (of_nat v, seek a (n + Suc RICE_THRESHOLD + rss))"
    using readbits_stream [of "n + Suc RICE_THRESHOLD" rss a] room rss unfolding val rc by simp
  have "nat (32 - int rss) = 32 - rss" using rss(2) by simp
  moreover have "(of_nat v :: u32) AND mask rss = of_nat v"
    using rss by (simp add: take_bit_eq_mask [symmetric] take_bit_of_nat take_bit_nat_eq_self)
  ultimately show ?thesis
    using pre rd rss mask_all_ones [of rss] by (simp add: entropy_decode_value_def rc add.assoc)
next
  case True
  let ?q = "v div m" and ?r = "v mod m"
  let ?tail = "if ?r = 0 then replicate (k - 1) False else nat_bits k (?r + 1)"
  have rc: "rice_code rss k m v = (replicate ?q True @ [False]) @ ?tail"
    using True by (simp add: rice_code_def)
  have pre: "rice_prefix (seek a n) 0 = Some (?q, seek a (n + ?q + 1))"
    using code room True rice_prefix_ones [of a n ?q 0] unfolding rc carries_append by simp
  show ?thesis
  proof (cases "k = 1")
    case True
    then show ?thesis using pre m \<open>m \<noteq> 0 \<and> v div m \<le> RICE_THRESHOLD\<close>
      by (simp add: entropy_decode_value_def rice_code_def)
  next
    case False
    then have mm: "m = unat ((push_bit k 1 - 1) AND mm)" using m by simp
    then have x: "(push_bit k 1 - 1) AND mm = of_nat m" by simp
    have "m < 2 ^ k"
    proof -
      have "(push_bit k 1 - 1 :: u32) = mask k" by (simp add: mask_eq_exp_minus_1 push_bit_of_1)
      then have "m = unat (take_bit k mm)" using mm by (simp add: take_bit_eq_mask and.commute)
      then show ?thesis by (simp add: unsigned_take_bit_eq)
    qed
    then have r: "?r + 1 < 2 ^ k" using True mod_less_divisor [of m v] by linarith
    have vq: "v = ?q * m + ?r" by simp
    have lt31: "(2 :: nat) ^ k \<le> 2 ^ 31" using k by (intro power_increasing) simp_all
    show ?thesis
    proof (cases "?r = 0")
      case r0: True
      let ?b = "of_bool (stream_bit (input_buffer a) (n + ?q + 1 + (k - 1))) :: nat"
      have "stream_nat (input_buffer a) (n + ?q + 1) (k - 1) = 0"
        using carries_nat_bits [of "input_buffer a" "n + ?q + 1" "k - 1" 0] code r0
        unfolding rc carries_append by (simp add: nat_bits_def map_replicate_const)
      then have val: "stream_nat (input_buffer a) (n + ?q + 1) k = ?b"
        using stream_nat.simps(2) [of "input_buffer a" "n + ?q + 1" "k - 1"] k by simp
      have rd: "readbits (seek a (n + ?q + 1)) (int k) = Some (of_nat ?b, seek a (n + ?q + 1 + k))"
        using readbits_stream [of "n + ?q + 1" k a] room k r0 unfolding val rc by simp
      have "\<not> 1 < sint (of_nat ?b :: u32)" by simp
      moreover have "unreadbits (seek a (n + ?q + 1 + k)) 1 = seek a (n + ?q + k)"
        using unreadbits_seek [of 1 "n + ?q + 1 + k" a] by simp
      moreover have "of_nat ?q * of_nat m = (of_nat v :: u32)" using vq r0 by (metis add_0_right of_nat_mult)
      ultimately show ?thesis
        using pre rd False True k r0 x
        by (simp add: entropy_decode_value_def rc add.assoc del: of_nat_of_bool)
    next
      case r1: False
      have val: "stream_nat (input_buffer a) (n + ?q + 1) k = ?r + 1"
        using carries_nat_bits [of "input_buffer a" "n + ?q + 1" k "?r + 1"] code r1 r
        unfolding rc carries_append by (simp add: take_bit_nat_eq_self)
      have rd: "readbits (seek a (n + ?q + 1)) (int k) =
          Some (of_nat (?r + 1), seek a (n + ?q + 1 + k))"
        using readbits_stream [of "n + ?q + 1" k a] room k r1 unfolding val rc by simp
      have "unat (of_nat (?r + 1) :: u32) = ?r + 1"
        using r lt31 by (intro unat_of_nat_small) simp
      then have "sint (of_nat (?r + 1) :: u32) = int (?r + 1)"
        using r lt31 by (subst sint_small) simp_all
      then have "1 < sint (of_nat (?r + 1) :: u32)" using r1 by simp
      moreover have "of_nat ?q * of_nat m + (of_nat (?r + 1) - 1) = (of_nat v :: u32)"
        unfolding of_nat_mult [symmetric] of_nat_add [symmetric] of_nat_Suc
        by (simp flip: of_nat_mult of_nat_add)
      ultimately show ?thesis
        using pre rd False True k r1 x
        by (simp add: entropy_decode_value_def rc add.assoc del: of_nat_add of_nat_Suc)
    qed
  qed
qed


section \<open>Coding a block of samples\<close>

text \<open>
  Reference: the encoder whose output \<open>entropy_rice_decode\<close> inverts, in integers and without any
  function of the decoder. A sample is folded to a natural number with its sign in the low bit.
  The parameter \<open>k\<close> of the code is the logarithm of the history in units of 512, plus 3, with a
  limit; the history goes up by the weighted value and down by the same part of itself. When it is
  small the encoder emits the number of zeros that follow, with a \<open>k\<close> of its own. After such a run
  the next sample is not zero, so one less than its value is coded. \<open>None\<close> is a block the format
  cannot carry.
\<close>

definition fold_sign :: "int \<Rightarrow> nat" where
  "fold_sign x = (if 0 \<le> x then nat (2 * x) else nat (- 2 * x - 1))"

definition rice_mult :: "nat \<Rightarrow> u32 \<Rightarrow> nat" where
  "rice_mult k mm = (if k = 1 then 1 else unat ((push_bit k 1 - 1) AND mm))"

definition code_value :: "nat \<Rightarrow> int option \<Rightarrow> u32 \<Rightarrow> nat \<Rightarrow> bool list option" where
  "code_value rss k mm v =
     (case k of None \<Rightarrow> None
      | Some k \<Rightarrow> if 1 \<le> k \<and> k < 32 \<and> v < 2 ^ rss
                  then Some (rice_code rss (nat k) (rice_mult (nat k) mm) v) else None)"

fun log2_floor :: "nat \<Rightarrow> nat" where
  "log2_floor n = (if n < 2 then 0 else Suc (log2_floor (n div 2)))"

definition ref_k :: "int \<Rightarrow> int \<Rightarrow> int option" where
  "ref_k history kmodifier =
     (let n = (history div 512 + 3) mod 2 ^ 32
      in if n = 0 then None else Some (min (int (log2_floor (nat n))) kmodifier))"

definition ref_run_k :: "int \<Rightarrow> int option" where
  "ref_run_k history =
     (let n = history mod 2 ^ 32; d = history + 16
      in if n = 0 then None
         else Some (7 - int (log2_floor (nat n)) + (if d < 0 then - (- d div 64) else d div 64)))"

definition ref_history :: "int \<Rightarrow> int \<Rightarrow> int \<Rightarrow> int" where
  "ref_history history value mult =
     (if 0xFFFF < value then 0xFFFF
      else wrap 32 (history + value * mult - wrap 32 (history * mult) div 512))"

function rice_encode ::
    "nat \<Rightarrow> int \<Rightarrow> int \<Rightarrow> u32 \<Rightarrow> int \<Rightarrow> nat \<Rightarrow> int list \<Rightarrow> bool list option" where
  "rice_encode rss km hm mm h sm [] = Some []"
| "rice_encode rss km hm mm h sm (x # xs) =
     (let dv = fold_sign x; h' = ref_history h (int dv) hm in
      if dv < sm then None
      else do {
        bs \<leftarrow> code_value rss (ref_k h km) 0xFFFFFFFF (dv - sm);
        if h' < 128 \<and> xs \<noteq> []
        then do {
          let run = length (takeWhile (\<lambda>y. y = 0) xs);
          cs \<leftarrow> code_value 16 (ref_run_k h') mm run;
          ds \<leftarrow> rice_encode rss km hm mm 0 1 (drop run xs);
          Some (bs @ cs @ ds)
        }
        else do {
          ds \<leftarrow> rice_encode rss km hm mm h' 0 xs;
          Some (bs @ ds)
        }
      })"
  by pat_completeness auto
termination
  by (relation "measure (\<lambda>(rss, km, hm, mm, h, sm, xs). length xs)") auto

declare log2_floor.simps [simp del]

text \<open>The logarithm and the zeros in front.\<close>

lemma log2_floor_bounds: "0 < n \<Longrightarrow> 2 ^ log2_floor n \<le> n \<and> n < 2 ^ Suc (log2_floor n)"
proof (induction n rule: log2_floor.induct)
  case (1 n)
  show ?case
  proof (cases "n < 2")
    case True
    then show ?thesis using 1(2) by (simp add: log2_floor.simps [of n])
  next
    case False
    then have "2 ^ log2_floor (n div 2) \<le> n div 2 \<and> n div 2 < 2 ^ Suc (log2_floor (n div 2))" using 1(1) by simp
    then have "2 * 2 ^ log2_floor (n div 2) \<le> n \<and> n < 2 * 2 ^ Suc (log2_floor (n div 2))" by linarith
    then show ?thesis using False by (simp add: log2_floor.simps [of n])
  qed
qed

lemma leading_zeros_log:
  assumes "(w :: u32) \<noteq> 0"
  shows "count_leading_zeros w = Some (31 - int (log2_floor (unat w)))"
proof -
  let ?k = "log2_floor (unat w)"
  have pos: "0 < unat w" using assms by (simp add: unat_gt_0)
  note b = log2_floor_bounds [OF pos]
  have k: "?k < 32"
  proof (rule ccontr)
    assume "\<not> ?k < 32"
    then have "(2 :: nat) ^ 32 \<le> 2 ^ ?k" by (intro power_increasing) simp_all
    moreover have "unat w < 2 ^ LENGTH(32)" by (rule unsigned_less)
    ultimately show False using b by simp
  qed
  have bit: "bit w i \<longleftrightarrow> bit (unat w) i" for i by (simp add: bit_unsigned_iff bit_imp_le_length)
  have hi: "\<not> bit w i" if "?k < i" for i
  proof -
    have "(2 :: nat) ^ Suc ?k \<le> 2 ^ i" using that by (intro power_increasing) simp_all
    then have "unat w div 2 ^ i = 0" using b by simp
    then have "\<not> bit (unat w) i" by (simp only: bit_iff_odd) simp
    then show ?thesis using bit by blast
  qed
  have "unat w div 2 ^ ?k = 1" using b by (intro div_nat_eqI) simp_all
  then have "bit (unat w) ?k" by (simp only: bit_iff_odd) simp
  then have lo: "bit w ?k" using bit by blast
  have s: "rev [0..<32] = rev [Suc ?k..<32] @ ?k # rev [0..<?k]"
    using k by (metis upt_conv_Cons upt_add_eq_append le_add_diff_inverse less_imp_le zero_le rev_append rev.simps(2) append_assoc append_Cons append_Nil)
  have "takeWhile (\<lambda>i. \<not> bit w i) (rev [Suc ?k..<32] @ ?k # rev [0..<?k]) = rev [Suc ?k..<32]"
    using hi lo by (subst takeWhile_append2) auto
  then show ?thesis using assms k by (simp add: count_leading_zeros_def s)
qed

text \<open>The functions of the decoder are those of the reference.\<close>

lemma uint_sint_mod: "uint (w :: u32) = sint w mod 2 ^ 32"
  using uint_word_of_int [of "sint w", where 'a = 32] by simp

lemma rice_k_ref: "rice_k h km = ref_k (sint h) km"
proof -
  let ?w = "signed_drop_bit 9 h + 3 :: u32"
  have "?w = word_of_int (sint (signed_drop_bit 9 h) + 3)" by simp
  then have "?w = word_of_int (sint h div 512 + 3)" unfolding sint_shift by simp
  moreover have "uint (word_of_int (sint h div 512 + 3) :: u32) = (sint h div 512 + 3) mod 2 ^ 32"
    by (subst uint_word_of_int) simp
  ultimately have u: "uint ?w = (sint h div 512 + 3) mod 2 ^ 32" by (simp only:)
  have z: "?w = 0 \<longleftrightarrow> (sint h div 512 + 3) mod 2 ^ 32 = 0" unfolding u [symmetric] by (simp add: uint_0_iff)
  have n: "unat ?w = nat ((sint h div 512 + 3) mod 2 ^ 32)" unfolding u [symmetric] by simp
  show ?thesis
  proof (cases "?w = 0")
    case True
    then show ?thesis using z by (simp add: rice_k_def ref_k_def count_leading_zeros_def)
  next
    case False
    then show ?thesis using z leading_zeros_log [OF False] unfolding rice_k_def ref_k_def Let_def n
      by (auto simp: min_def)
  qed
qed

lemma zero_block_k_ref:
  assumes "sint h < 128"
  shows "zero_block_k h = ref_run_k (sint h)"
proof -
  have "sint (h + 16) = sint h + 16"
  proof -
    have "- (2 ^ 31) \<le> sint h" using sint_ge [of h] by simp
    then show ?thesis using assms by (simp add: sint_arith_wrap wrap_def)
  qed
  moreover have "cdiv d 64 = (if d < 0 then - (- d div 64) else d div 64)" for d
    by (cases "d = 0") (simp_all add: cdiv_def)
  moreover have "unat h = nat (sint h mod 2 ^ 32)" unfolding uint_sint_mod [symmetric] by simp
  moreover have "h = 0 \<longleftrightarrow> sint h mod 2 ^ 32 = 0" unfolding uint_sint_mod [symmetric] by (simp add: uint_0_iff)
  ultimately show ?thesis
    using leading_zeros_log [of h] by (cases "h = 0") (simp_all add: zero_block_k_def ref_run_k_def count_leading_zeros_def Let_def)
qed

lemma rice_history_ref:
  assumes "v < 2 ^ 31"
  shows "sint (rice_history h (of_nat v) m) = ref_history (sint h) (int v) m"
proof -
  let ?m = "word_of_int m :: u32"
  have v: "sint (of_nat v :: u32) = int v"
    using sint_of_int_32 [of "int v"] assms by (simp add: wrap_def)
  have "signed_drop_bit 9 (h * ?m) = word_of_int (sint (signed_drop_bit 9 (h * ?m)))" by simp
  also have "sint (signed_drop_bit 9 (h * ?m)) = wrap 32 (sint h * m) div 512"
    unfolding sint_shift using sint_of_int_32 [of "sint h * m"] by simp
  finally have d: "signed_drop_bit 9 (h * ?m) = word_of_int (wrap 32 (sint h * m) div 512)" .
  have "h + (of_nat v * ?m - signed_drop_bit 9 (h * ?m)) =
      word_of_int (sint h + int v * m - wrap 32 (sint h * m) div 512)"
    unfolding d by simp
  then have "sint (h + (of_nat v * ?m - signed_drop_bit 9 (h * ?m))) =
      wrap 32 (sint h + int v * m - wrap 32 (sint h * m) div 512)"
    by (simp only: sint_of_int_32)
  then show ?thesis using v by (simp add: rice_history_def ref_history_def Let_def)
qed

lemma rice_sample_fold:
  assumes "fold_sign x < 2 ^ 31 - 1"
  shows "rice_sample (of_nat (fold_sign x)) = word_of_int x"
proof -
  let ?d = "fold_sign x"
  have "unat (of_nat (?d + 1) :: u32) = ?d + 1" using assms by (intro unat_of_nat_small) simp
  then have "sint (of_nat (?d + 1) :: u32) = int (?d + 1)"
    using assms by (subst sint_small) simp_all
  then have s: "cdiv (sint (of_nat ?d + 1 :: u32)) 2 = (int ?d + 1) div 2"
    by (simp add: cdiv_nonneg add.commute)
  have "odd (of_nat ?d :: u32) \<longleftrightarrow> odd ?d"
    unfolding bit_0 [symmetric] by (simp only: bit_of_nat_iff) simp
  then have o: "of_nat ?d AND 1 \<noteq> (0 :: u32) \<longleftrightarrow> odd ?d"
    by (simp add: and_one_eq mod_2_eq_odd)
  show ?thesis
  proof (cases "0 \<le> x")
    case True
    then have "int ?d = 2 * x" by (simp add: fold_sign_def)
    moreover from this have "even ?d" by presburger
    ultimately show ?thesis unfolding rice_sample_def Let_def s using o by simp
  next
    case False
    then have d: "int ?d = - 2 * x - 1" by (simp add: fold_sign_def)
    moreover from this have "odd ?d" by presburger
    moreover have "(int ?d + 1) div 2 = - x" using d by simp
    ultimately show ?thesis unfolding rice_sample_def Let_def s using o by simp
  qed
qed

lemma code_value_decode:
  assumes "code_value rss k mm v = Some bs" "carries (input_buffer a) n bs"
    "n + length bs + 32 \<le> 8 * length (input_buffer a)" "1 \<le> rss" "rss \<le> 32"
  obtains j where "k = Some j"
    "entropy_decode_value (seek a n) (int rss) j mm = Some (of_nat v, seek a (n + length bs))"
proof -
  obtain j where j: "k = Some j" "1 \<le> j" "j < 32" "v < 2 ^ rss"
    "bs = rice_code rss (nat j) (rice_mult (nat j) mm) v"
    using assms(1) by (auto simp: code_value_def split: option.splits if_splits)
  have "entropy_decode_value (seek a n) (int rss) (int (nat j)) mm =
      Some (of_nat v, seek a (n + length bs))"
    unfolding j(5) using assms j by (intro entropy_decode_code) (auto simp: rice_mult_def)
  with j that show ?thesis by simp
qed

lemma zero_run_split: "xs = replicate (length (takeWhile (\<lambda>y. y = 0) xs)) (0 :: int) @
    drop (length (takeWhile (\<lambda>y. y = 0) xs)) xs"
  by (induction xs) auto

text \<open>The stores of one iteration and of a run extend the part of the output that is done.\<close>

lemma store_done:
  assumes "c < length buf"
  shows "store_at buf (int c) v = Some (take c buf @ v # drop (Suc c) buf)"
  using assms by (simp add: store_at_def upd_conv_take_nth_drop)

lemma memset_done:
  assumes "length pre = c" "r \<le> length post"
  shows "memset_zero_block (pre @ post) (int c) (int r) =
    Some (pre @ replicate r 0 @ drop r post)"
proof -
  have "nat (int c + int r) = c + r" by simp
  then show ?thesis using assms by (simp add: memset_zero_block_def)
qed

lemma rice_loop_encode:
  assumes "rice_encode rss km hm mm hi sm xs = Some bs" "carries (input_buffer a) n bs"
    "n + length bs + 32 \<le> 8 * length (input_buffer a)" "1 \<le> rss" "rss \<le> 30" "sm \<le> 1"
    "length xs \<le> length post" "length xs < 2 ^ 16" "hi = sint h"
  shows "rice_loop (seek a n) (pre @ post) (int (length pre + length xs)) (int rss) km hm mm h
      (of_nat sm) (int (length pre)) =
    Some (pre @ map word_of_int xs @ drop (length xs) post, seek a (n + length bs))"
  using assms
proof (induction rss km hm mm hi sm xs arbitrary: bs n pre post h rule: rice_encode.induct)
  case (1 rss km hm mm hi sm)
  then show ?case by (subst rice_loop.simps) simp
next
  case (2 rss km hm mm hi sm x xs)
  note hi = 2(11)
  have hk: "ref_k (sint h) km = rice_k h km" by (simp add: rice_k_ref)
  let ?dv = "fold_sign x"
  let ?h = "rice_history h (of_nat ?dv) hm"
  let ?hi = "ref_history (sint h) (int ?dv) hm"
  let ?run = "length (takeWhile (\<lambda>y. y = 0) xs)"
  let ?zero = "sint ?h < 128 \<and> xs \<noteq> []"
  have sm: "sm \<le> ?dv" using 2(3) by (auto simp: Let_def split: if_splits)
  obtain b1 rest where b1: "code_value rss (rice_k h km) 0xFFFFFFFF (?dv - sm) = Some b1"
    and bs: "bs = b1 @ rest"
    using 2(3) unfolding hi hk [symmetric] by (auto simp: Let_def bind_eq_Some_conv split: if_splits)
  have dv: "?dv - sm < 2 ^ rss"
    using b1 by (auto simp: code_value_def split: option.splits if_splits)
  have "(2 :: nat) ^ rss \<le> 2 ^ 30" using 2(7) by (intro power_increasing) simp_all
  then have small: "?dv < 2 ^ 31 - 1" using dv 2(8) by simp
  have hs: "?hi = sint ?h" using rice_history_ref [of ?dv h hm] small by simp
  have fit: "carries (input_buffer a) n b1" "carries (input_buffer a) (n + length b1) rest"
    "n + length b1 + 32 \<le> 8 * length (input_buffer a)"
    using 2(4,5) unfolding bs carries_append by simp_all
  obtain j where j: "rice_k h km = Some j"
    "entropy_decode_value (seek a n) (int rss) j 0xFFFFFFFF = Some (of_nat (?dv - sm), seek a (n + length b1))"
    by (rule code_value_decode [OF b1 fit(1,3)]) (use 2(6,7) in auto)
  have dvw: "of_nat (?dv - sm) + of_nat sm = (of_nat ?dv :: u32)"
    using sm by (simp add: of_nat_diff)
  obtain p0 ps where post: "post = p0 # ps" using 2(9) by (cases post) auto
  have st: "store_at (pre @ post) (int (length pre)) (rice_sample (of_nat ?dv)) =
      Some ((pre @ [word_of_int x]) @ ps)"
    using store_done [of "length pre" "pre @ post"] by (simp add: post rice_sample_fold [OF small])
  have more: "int (length pre) + 1 < int (length pre + length (x # xs)) \<longleftrightarrow> xs \<noteq> []" by auto
  have go: "int (length pre) < int (length pre + length (x # xs))" by simp
  show ?case
  proof (cases ?zero)
    case False
    then have rest: "rice_encode rss km hm mm ?hi 0 xs = Some rest"
      using 2(3) sm b1 bs by (auto simp: Let_def bind_eq_Some_conv hi hk hs)
    have "rice_loop (seek a (n + length b1)) ((pre @ [word_of_int x]) @ ps)
        (int (length (pre @ [word_of_int x]) + length xs)) (int rss) km hm mm ?h (of_nat 0)
        (int (length (pre @ [word_of_int x]))) =
      Some ((pre @ [word_of_int x]) @ map word_of_int xs @ drop (length xs) ps,
        seek a (n + length b1 + length rest))"
      by (rule 2(2)) (use 2 sm False rest fit bs post in \<open>auto simp: Let_def b1 hi hk hs\<close>)
    then show ?thesis using go more False
      by (subst rice_loop.simps)
        (auto simp: j dvw st bs post rice_sample_fold [OF small] add.assoc add.commute [of _ 1] Let_def)
  next
    case True
    have hr: "ref_run_k ?hi = zero_block_k ?h" using True by (simp add: hs zero_block_k_ref)
    obtain r where r: "r = length (takeWhile (\<lambda>y. y = 0) xs)" by simp
    obtain b2 ds where b2: "code_value 16 (zero_block_k ?h) mm r = Some b2"
      and ds: "rice_encode rss km hm mm 0 1 (drop r xs) = Some ds" and rest: "rest = b2 @ ds"
      using 2(3) sm b1 bs True by (auto simp: Let_def bind_eq_Some_conv r hi hk hs hr [unfolded hs])
    have fit2: "carries (input_buffer a) (n + length b1) b2"
      "carries (input_buffer a) (n + length b1 + length b2) ds"
      "n + length b1 + length b2 + 32 \<le> 8 * length (input_buffer a)"
      using fit(2) 2(5) unfolding bs rest carries_append by simp_all
    obtain i where i: "zero_block_k ?h = Some i"
      "entropy_decode_value (seek a (n + length b1)) (int 16) i mm =
        Some (of_nat r, seek a (n + length b1 + length b2))"
      by (rule code_value_decode [OF b2 fit2(1,3)]) auto
    have i16: "entropy_decode_value (seek a (n + length b1)) 16 i mm =
        Some (of_nat r, seek a (n + (length b1 + length b2)))"
      using i(2) by (simp add: add.assoc)
    have run: "r \<le> length xs" unfolding r by (rule length_takeWhile_le)
    then have "unat (of_nat r :: u32) = r" using 2(10) by (intro unat_of_nat_small) simp
    then have sr: "sint (of_nat r :: u32) = int r"
      using run 2(10) by (subst sint_small) simp_all
    let ?pre = "pre @ word_of_int x # replicate r 0"
    have set: "(if 0 < r then memset_zero_block (pre @ word_of_int x # ps)
          (1 + int (length pre)) (int r) else Some (pre @ word_of_int x # ps)) =
        Some (pre @ word_of_int x # replicate r 0 @ drop r ps)"
      using memset_done [of "pre @ [word_of_int x]" "length pre + 1" r ps] run 2(9) post
      by simp
    have map0: "map word_of_int xs = replicate r 0 @ map word_of_int (drop r xs)"
      by (subst zero_run_split) (simp add: r)
    have "rice_loop (seek a (n + length b1 + length b2)) (?pre @ drop r ps)
        (int (length ?pre + length (drop r xs))) (int rss) km hm mm 0 (of_nat 1)
        (int (length ?pre)) =
      Some (?pre @ map word_of_int (drop r xs) @ drop (length (drop r xs)) (drop r ps),
        seek a (n + length b1 + length b2 + length ds))"
      unfolding r
      by (rule 2(1)) (use 2 sm True ds b1 b2 fit2 bs rest post run in \<open>auto simp: Let_def r hi hk hs hr [unfolded hs]\<close>)
    moreover have "int (length ?pre + length (drop r xs)) = 1 + (int (length pre) + int (length xs))"
      "int (length ?pre) = 1 + (int (length pre) + (if 0 < r then int r else 0))"
      "\<not> 0xFFFF < r"
      using run 2(10) by auto
    ultimately have rec: "rice_loop (seek a (n + (length b1 + length b2)))
        (pre @ word_of_int x # replicate r 0 @ drop r ps)
        (1 + (int (length pre) + int (length xs))) (int rss) km hm mm 0 1
        (1 + (int (length pre) + (if 0 < r then int r else 0))) =
      Some (pre @ word_of_int x # map word_of_int xs @ drop (length xs) ps,
        seek a (n + (length b1 + (length b2 + length ds))))"
      using run by (simp add: map0 add.assoc)
    have "\<not> 0xFFFF < r" using run 2(10) by simp
    then show ?thesis using go more True set rec
      by (subst rice_loop.simps)
        (cases "r = 0", simp_all add: j dvw st i(1) i16 sr bs rest post rice_sample_fold [OF small] Let_def
          add.assoc add.commute [of _ 1])
  qed
qed

section \<open>Packing bits into bytes\<close>

definition byte_of :: "bool list \<Rightarrow> u8" where
  "byte_of bs = foldr (\<lambda>i w. if i < length bs \<and> bs ! i then set_bit (7 - i) w else w) [0..<8] 0"

fun pack :: "bool list \<Rightarrow> bytes" where
  "pack [] = []"
| "pack (b # bs) = byte_of (take 8 (b # bs)) # pack (drop 7 bs)"

lemma pack_step: "bs \<noteq> [] \<Longrightarrow> pack bs = byte_of (take 8 bs) # pack (drop 8 bs)"
  by (cases bs) simp_all

lemma sub7_inj: "a < 8 \<Longrightarrow> i < 8 \<Longrightarrow> 7 - a = 7 - i \<longleftrightarrow> a = (i :: nat)"
  by auto

lemma bit_byte_fold:
  "set js \<subseteq> {..<8} \<Longrightarrow> i < 8 \<Longrightarrow>
   bit (foldr (\<lambda>j w. if j < length bs \<and> bs ! j then set_bit (7 - j) w else w) js (0 :: u8)) (7 - i) \<longleftrightarrow>
   i \<in> set js \<and> i < length bs \<and> bs ! i"
  by (induction js) (auto simp: bit_set_bit_iff bit_simps sub7_inj)

lemma bit_byte_of:
  assumes "i < 8" "i < length bs"
  shows "bit (byte_of bs) (7 - i) = bs ! i"
proof -
  have "set [0..<8 :: nat] \<subseteq> {..<8}" "i \<in> set [0..<8]" using assms(1) by auto
  then show ?thesis unfolding byte_of_def using assms by (subst bit_byte_fold) auto
qed

lemma stream_bit_pack: "i < length bs \<Longrightarrow> stream_bit (pack bs @ junk) i = bs ! i"
proof (induction "length bs" arbitrary: bs i rule: less_induct)
  case less
  then have ne: "bs \<noteq> []" by auto
  show ?case
  proof (cases "i < 8")
    case True
    then have "bit (byte_of (take 8 bs)) (7 - i) = bs ! i"
      using bit_byte_of [of i "take 8 bs"] less.prems by simp
    then show ?thesis using True by (simp add: stream_bit_def pack_step [OF ne])
  next
    case False
    then obtain j where j: "i = 8 + j" using le_Suc_ex [of 8 i] by auto
    have "stream_bit (pack (drop 8 bs) @ junk) j = drop 8 bs ! j"
      using less.prems j ne by (intro less.hyps) auto
    moreover have "(8 + j) div 8 = Suc (j div 8)" "(8 + j) mod 8 = j mod 8" by simp_all
    ultimately show ?thesis using j less.prems
      by (simp only: stream_bit_def pack_step [OF ne] append_Cons nth_Cons_Suc) simp
  qed
qed

lemma carries_pack: "carries (pack bs @ junk) 0 bs"
  by (simp add: carries_iff stream_bit_pack)

lemma length_pack: "length bs \<le> 8 * length (pack bs)"
proof (induction "length bs" arbitrary: bs rule: less_induct)
  case less
  show ?case
  proof (cases "bs = []")
    case False
    then have "length (drop 8 bs) \<le> 8 * length (pack (drop 8 bs))"
      by (intro less) simp
    then show ?thesis by (simp add: pack_step [OF False])
  qed simp
qed

lemma pack_room: "length bs + 32 \<le> 8 * length (pack bs @ replicate 4 z)"
  using length_pack [of bs] by simp

section \<open>Properties\<close>

text \<open>A reader at the start of a packet.\<close>

definition reader_of :: "bytes \<Rightarrow> alac_file" where
  "reader_of buf =
     \<lparr>input_buffer = buf, input_pos = 0, input_buffer_bitaccumulator = 0, samplesize = 16,
      numchannels = 2, bytespersample = 4, predicterror_buffer_a = [], predicterror_buffer_b = [],
      outputsamples_buffer_a = [], outputsamples_buffer_b = [], uncompressed_bytes_buffer_a = [],
      uncompressed_bytes_buffer_b = [], setinfo_max_samples_per_frame = 0, setinfo_7a = 0,
      setinfo_sample_size = 16, setinfo_rice_historymult = 40, setinfo_rice_initialhistory = 10,
      setinfo_rice_kmodifier = 14, setinfo_7f = 2, setinfo_80 = 255, setinfo_82 = 0,
      setinfo_86 = 0, setinfo_8a_rate = 44100\<rparr>"

lemma reader_of_seek: "seek (reader_of buf) 0 = reader_of buf"
  by (simp add: reader_of_def seek_def)

text \<open>
  \<open>entropy_decode_value\<close> inverts the Rice code of a value, with the short form of a zero
  remainder and the escape above eight ones, and stops right behind it.
\<close>

theorem rice_value_round_trip:
  assumes "carries (input_buffer a) n (rice_code rss k m v)"
    and "n + length (rice_code rss k m v) + 32 \<le> 8 * length (input_buffer a)"
    and "1 \<le> k" "k < 32" "1 \<le> rss" "rss \<le> 32" "v < 2 ^ rss"
    and "m = (if k = 1 then 1 else unat ((push_bit k 1 - 1) AND mm))"
  shows "entropy_decode_value (seek a n) (int rss) (int k) mm =
    Some (of_nat v, seek a (n + length (rice_code rss k m v)))"
  by (rule entropy_decode_code [OF assms])

theorem rice_value_round_trip_witness:
  "\<exists>b. entropy_decode_value (reader_of (pack (rice_code 16 3 7 19) @ replicate 4 0)) 16 3 0xFFFFFFFF =
     Some (19, b)"
proof -
  let ?c = "rice_code 16 3 7 19" let ?a = "reader_of (pack ?c @ replicate 4 0)"
  have m: "(7 :: nat) = (if (3 :: nat) = 1 then 1 else unat ((push_bit 3 1 - 1) AND (0xFFFFFFFF :: u32)))"
    by code_simp
  have c: "carries (input_buffer ?a) 0 ?c" by (simp add: reader_of_def carries_pack)
  have r: "0 + length ?c + 32 \<le> 8 * length (input_buffer ?a)"
    using pack_room [of ?c 0] by (simp add: reader_of_def)
  show ?thesis using rice_value_round_trip [OF c r _ _ _ _ _ m] by (simp add: reader_of_seek)
qed

text \<open>
  C4: \<open>entropy_rice_decode\<close> inverts the adaptive coding of a block: the samples the encoder was
  given are stored in the first places of the output array, zero runs included, the other places
  keep their contents, and the reader stops right behind the code.
\<close>

theorem entropy_block_round_trip:
  assumes "rice_encode rss km hm mm (wrap 32 h0) 0 xs = Some bs"
    and "carries (input_buffer a) n bs" "n + length bs + 32 \<le> 8 * length (input_buffer a)"
    and "1 \<le> rss" "rss \<le> 30" "length xs \<le> length out" "length xs < 2 ^ 16"
  shows "entropy_rice_decode (seek a n) out (int (length xs)) (int rss) h0 km hm mm =
    Some (map word_of_int xs @ drop (length xs) out, seek a (n + length bs))"
  using rice_loop_encode [OF assms(1-5) _ assms(6,7), of "word_of_int h0" "[]"]
  by (simp add: entropy_rice_decode_def sint_of_int_32)

theorem entropy_block_round_trip_witness:
  "\<exists>packet b. entropy_rice_decode (reader_of packet) (replicate 5 9) 3 16 10 14 10 0x3fff =
     Some ([3, 0, 0, 9, 9], b)"
proof -
  have k: "ref_k 10 14 = Some 1" "ref_run_k 70 = Some 2" "ref_history 10 6 10 = 70" "wrap 32 10 = 10"
    "rice_mult 2 0x3fff = 3" by code_simp+
  let ?bs = "rice_code 16 1 1 6 @ rice_code 16 2 3 2"
  let ?p = "pack ?bs @ replicate 4 0"
  have enc: "rice_encode 16 14 10 0x3fff (wrap 32 10) 0 [3, 0, 0] = Some ?bs"
    by (simp add: k Let_def fold_sign_def code_value_def rice_mult_def [of "Suc 0"] flip: numeral_2_eq_2)
  have c: "carries (input_buffer (reader_of ?p)) 0 ?bs"
    using carries_pack [of ?bs "replicate 4 0"] by (simp add: reader_of_def)
  have r: "0 + length ?bs + 32 \<le> 8 * length (input_buffer (reader_of ?p))"
    using pack_room [of ?bs 0] by (simp add: reader_of_def)
  have "entropy_rice_decode (seek (reader_of ?p) 0) (replicate 5 9) (int (length [3, 0, 0 :: int]))
      (int 16) 10 14 10 0x3fff =
    Some (map word_of_int [3, 0, 0] @ drop (length [3, 0, 0 :: int]) (replicate 5 9),
      seek (reader_of ?p) (0 + length ?bs))"
    by (rule entropy_block_round_trip [OF enc c r]) simp_all
  moreover have "replicate 5 (9 :: u32) = [9, 9, 9, 9, 9]" by (simp add: eval_nat_numeral)
  ultimately show ?thesis by (intro exI [of _ ?p] exI) (simp add: reader_of_seek)
qed

end
