(* ===== verification/Alac_Predictor.thy ===== *)
theory Alac_Predictor
  imports Prelude
begin

text \<open>
  The adaptive linear predictor of alac.c (\<open>predictor_decompress_fir_adapt\<close>). Samples and
  errors are 32-bit words read as signed, coefficients 16-bit words; \<open>buffer_out\<close> is an index
  into the output buffer. \<open>None\<close> is undefined behaviour: an access outside a buffer or a shift
  by an amount outside 0..31. The reference is an encoder
  in integers that uses no function of the decoder.
\<close>

unbundle bit_operations_syntax

section \<open>Operations\<close>

definition SIGN_EXTENDED32 :: "u32 \<Rightarrow> int \<Rightarrow> u32 option" where
  "SIGN_EXTENDED32 val bits =
     (if 0 \<le> 32 - bits \<and> 32 - bits < 32
      then Some (signed_drop_bit (nat (32 - bits)) (push_bit (nat (32 - bits)) val))
      else None)"

definition SIGN_ONLY :: "u32 \<Rightarrow> u32" where
  "SIGN_ONLY v = (if sint v < 0 then -1 else if 0 < sint v then 1 else 0)"

text \<open>The sum over the taps, the prediction, and the two loops that adapt the coefficients.\<close>

fun fir_sum :: "u32 list \<Rightarrow> int \<Rightarrow> int \<Rightarrow> u16 list \<Rightarrow> nat \<Rightarrow> u32 option" where
  "fir_sum out p num coef 0 = Some 0"
| "fir_sum out p num coef (Suc j) =
     do {
       sum \<leftarrow> fir_sum out p num coef j;
       x \<leftarrow> load_at out (p + (num - int j));
       x0 \<leftarrow> load_at out p;
       c \<leftarrow> load_at coef (int j);
       Some (sum + (x - x0) * scast c)
     }"

definition fir_predict :: "u32 list \<Rightarrow> int \<Rightarrow> int \<Rightarrow> u16 list \<Rightarrow> int \<Rightarrow> u32 option" where
  "fir_predict out p num coef quant =
     do {
       sum \<leftarrow> fir_sum out p num coef (nat num);
       if quant - 1 < 0 \<or> 32 \<le> quant then None
       else do {
         x0 \<leftarrow> load_at out p;
         let outval = push_bit (nat (quant - 1)) 1 + sum;
         Some (signed_drop_bit (nat quant) outval + x0)
       }
     }"

function fir_adapt_pos ::
    "u32 list \<Rightarrow> int \<Rightarrow> int \<Rightarrow> int \<Rightarrow> int \<Rightarrow> u32 \<Rightarrow> u16 list \<Rightarrow> u16 list option" where
  "fir_adapt_pos out p num quant predictor_num error_val coef =
     (if 0 \<le> predictor_num \<and> 0 < sint error_val
      then do {
        x0 \<leftarrow> load_at out p;
        x \<leftarrow> load_at out (p + (num - predictor_num));
        c \<leftarrow> load_at coef predictor_num;
        let val = x0 - x;
        let sign = SIGN_ONLY val;
        coef \<leftarrow> store_at coef predictor_num (c - ucast sign);
        let val = val * sign;
        fir_adapt_pos out p num quant (predictor_num - 1)
          (error_val - signed_drop_bit (nat quant) val * word_of_int (num - predictor_num)) coef
      }
      else Some coef)"
  by pat_completeness auto
termination
  by (relation "measure (\<lambda>(out, p, num, quant, pn, e, coef). nat (pn + 1))") auto

function fir_adapt_neg ::
    "u32 list \<Rightarrow> int \<Rightarrow> int \<Rightarrow> int \<Rightarrow> int \<Rightarrow> u32 \<Rightarrow> u16 list \<Rightarrow> u16 list option" where
  "fir_adapt_neg out p num quant predictor_num error_val coef =
     (if 0 \<le> predictor_num \<and> sint error_val < 0
      then do {
        x0 \<leftarrow> load_at out p;
        x \<leftarrow> load_at out (p + (num - predictor_num));
        c \<leftarrow> load_at coef predictor_num;
        let val = x0 - x;
        let sign = - SIGN_ONLY val;
        coef \<leftarrow> store_at coef predictor_num (c - ucast sign);
        let val = val * sign;
        fir_adapt_neg out p num quant (predictor_num - 1)
          (error_val - signed_drop_bit (nat quant) val * word_of_int (num - predictor_num)) coef
      }
      else Some coef)"
  by pat_completeness auto
termination
  by (relation "measure (\<lambda>(out, p, num, quant, pn, e, coef). nat (pn + 1))") auto

declare fir_adapt_pos.simps [simp del] fir_adapt_neg.simps [simp del]

definition fir_adapt :: "u32 list \<Rightarrow> int \<Rightarrow> int \<Rightarrow> int \<Rightarrow> u32 \<Rightarrow> u16 list \<Rightarrow> u16 list option" where
  "fir_adapt out p num quant error_val coef =
     (if 0 < sint error_val then fir_adapt_pos out p num quant (num - 1) error_val coef
      else if sint error_val < 0 then fir_adapt_neg out p num quant (num - 1) error_val coef
      else Some coef)"

text \<open>
  The loops of the body: the copy when there is no predictor, the difference to the previous
  sample (the whole frame with 31 coefficients, the warm-up samples otherwise), the general case.
\<close>

definition copy_rest :: "u32 list \<Rightarrow> u32 list \<Rightarrow> int \<Rightarrow> u32 list option" where
  "copy_rest err out output_size =
     (if output_size \<le> int (length err) \<and> output_size \<le> int (length out)
      then Some (take 1 out @ take (nat (output_size - 1)) (drop 1 err) @ drop (nat output_size) out)
      else None)"

fun fir_delta :: "u32 list \<Rightarrow> u32 list \<Rightarrow> int \<Rightarrow> nat \<Rightarrow> nat \<Rightarrow> u32 list option" where
  "fir_delta err out rss i 0 = Some out"
| "fir_delta err out rss i (Suc n) =
     do {
       prev_value \<leftarrow> load_at out (int i);
       error_value \<leftarrow> load_at err (int i + 1);
       val \<leftarrow> SIGN_EXTENDED32 (prev_value + error_value) rss;
       out \<leftarrow> store_at out (int i + 1) val;
       fir_delta err out rss (Suc i) n
     }"

function fir_general ::
    "u32 list \<Rightarrow> u32 list \<Rightarrow> int \<Rightarrow> int \<Rightarrow> u16 list \<Rightarrow> int \<Rightarrow> int \<Rightarrow> int \<Rightarrow> int \<Rightarrow> u32 list option" where
  "fir_general err out output_size rss coef num quant p i =
     (if i < output_size
      then do {
        error_val \<leftarrow> load_at err i;
        outval \<leftarrow> fir_predict out p num coef quant;
        outval \<leftarrow> SIGN_EXTENDED32 (outval + error_val) rss;
        out \<leftarrow> store_at out (p + (num + 1)) outval;
        coef \<leftarrow> fir_adapt out p num quant error_val coef;
        fir_general err out output_size rss coef num quant (p + 1) (i + 1)
      }
      else Some out)"
  by pat_completeness auto
termination
  by (relation "measure (\<lambda>(err, out, output_size, rss, coef, num, quant, p, i).
        nat (output_size - i))") auto

declare fir_general.simps [simp del]

definition predictor_decompress_fir_adapt ::
    "u32 list \<Rightarrow> u32 list \<Rightarrow> int \<Rightarrow> int \<Rightarrow> u16 list \<Rightarrow> int \<Rightarrow> int \<Rightarrow> u32 list option" where
  "predictor_decompress_fir_adapt error_buffer buffer_out output_size readsamplesize
     predictor_coef_table predictor_coef_num predictor_quantitization =
     do {
       e0 \<leftarrow> load_at error_buffer 0;
       buffer_out \<leftarrow> store_at buffer_out 0 e0;
       if predictor_coef_num = 0 then
         (if output_size \<le> 1 then Some buffer_out else copy_rest error_buffer buffer_out output_size)
       else if predictor_coef_num = 0x1f then
         (if output_size \<le> 1 then Some buffer_out
          else fir_delta error_buffer buffer_out readsamplesize 0 (nat (output_size - 1)))
       else do {
         buffer_out \<leftarrow> fir_delta error_buffer buffer_out readsamplesize 0 (nat predictor_coef_num);
         if 0 < predictor_coef_num
         then fir_general error_buffer buffer_out output_size readsamplesize predictor_coef_table
                predictor_coef_num predictor_quantitization 0 (predictor_coef_num + 1)
         else Some buffer_out
       }
     }"

section \<open>The encoder\<close>

text \<open>
  Reference: the errors an encoder stores for the samples of a frame, in integers. The first \<open>num\<close>
  are differences to the sample before. After that a sample is predicted from the \<open>num\<close> before it: to
  the sample \<open>b\<close> before those is added the sum of the other differences to \<open>b\<close>, each with its
  coefficient, rounded to units of \<open>2 ^ q\<close>. Then the coefficients move by one in the direction of the
  error (sign of the error times sign of the difference), from the oldest sample on, as long as what
  remains of the error, less the weighted difference in the same units, keeps its sign. The
  coefficients \<open>cs\<close> are those of the samples in time order; the decoder has them reversed.
\<close>

fun ref_delta :: "nat \<Rightarrow> int list \<Rightarrow> int list" where
  "ref_delta r (x # y # xs) = wrap r (y - x) # ref_delta r (y # xs)"
| "ref_delta r xs = []"

definition ref_prediction :: "nat \<Rightarrow> int list \<Rightarrow> int \<Rightarrow> int list \<Rightarrow> int" where
  "ref_prediction q cs b ws =
     b + wrap 32 (sum_list (map2 (\<lambda>c x. c * (x - b)) cs ws) + 2 ^ (q - 1)) div 2 ^ q"

fun ref_adapt :: "nat \<Rightarrow> int \<Rightarrow> int \<Rightarrow> int \<Rightarrow> (int \<times> int) list \<Rightarrow> int list" where
  "ref_adapt q s e weight [] = []"
| "ref_adapt q s e weight ((c, d) # taps) =
     (if s * e \<le> 0 then c # map fst taps
      else wrap 16 (c - s * sgn d) #
        ref_adapt q s (wrap 32 (e - wrap 32 (s * \<bar>d\<bar>) div 2 ^ q * weight)) (weight + 1) taps)"

fun ref_errors :: "nat \<Rightarrow> nat \<Rightarrow> nat \<Rightarrow> int list \<Rightarrow> int list \<Rightarrow> int list" where
  "ref_errors r q num cs [] = []"
| "ref_errors r q num cs (b # xs) =
     (if length xs \<le> num then []
      else
        let ws = take num xs;
            e = wrap r (xs ! num - ref_prediction q cs b ws)
        in e # ref_errors r q num (ref_adapt q (sgn e) e 1 (zip cs (map (\<lambda>x. wrap 32 (b - x)) ws))) xs)"

definition predictor_compress ::
    "int \<Rightarrow> u16 list \<Rightarrow> nat \<Rightarrow> int \<Rightarrow> u32 list \<Rightarrow> u32 list option" where
  "predictor_compress rss coef num quant xs =
     (let ys = map sint xs; r = nat rss; cs = map sint (rev (take num coef)) in
      if num = 0 then Some xs
      else if num = 31 then Some (hd xs # map word_of_int (ref_delta r ys))
      else if length xs \<le> num + 1 then Some (hd xs # map word_of_int (ref_delta r (take (num + 1) ys)))
      else if 1 \<le> quant \<and> quant < 32 \<and> num \<le> length coef
      then Some (hd xs # map word_of_int (ref_delta r (take (num + 1) ys) @ ref_errors r (nat quant) num cs ys))
      else None)"

definition fits :: "int \<Rightarrow> u32 \<Rightarrow> bool" where
  "fits rss x \<longleftrightarrow> SIGN_EXTENDED32 x rss = Some x"

section \<open>Lemmas\<close>

text \<open>The errors in the words of the decoder.\<close>

fun delta_errors :: "u32 list \<Rightarrow> int \<Rightarrow> nat \<Rightarrow> nat \<Rightarrow> u32 list option" where
  "delta_errors xs rss i 0 = Some []"
| "delta_errors xs rss i (Suc n) =
     do {
       e \<leftarrow> SIGN_EXTENDED32 (xs ! (i + 1) - xs ! i) rss;
       es \<leftarrow> delta_errors xs rss (Suc i) n;
       Some (e # es)
     }"

fun fir_errors :: "u32 list \<Rightarrow> int \<Rightarrow> nat \<Rightarrow> int \<Rightarrow> u16 list \<Rightarrow> nat \<Rightarrow> nat \<Rightarrow> u32 list option" where
  "fir_errors xs rss num quant coef p 0 = Some []"
| "fir_errors xs rss num quant coef p (Suc n) =
     do {
       v \<leftarrow> fir_predict xs (int p) (int num) coef quant;
       e \<leftarrow> SIGN_EXTENDED32 (xs ! (p + num + 1) - v) rss;
       coef \<leftarrow> fir_adapt xs (int p) (int num) quant e coef;
       es \<leftarrow> fir_errors xs rss num quant coef (Suc p) n;
       Some (e # es)
     }"

text \<open>Sign extension depends on the low bits only, and errors are the exact difference there.\<close>

lemma SIGN_EXTENDED32_take_bit:
  assumes "1 \<le> r" "r \<le> 32"
  shows "SIGN_EXTENDED32 x (int r) = Some (signed_take_bit (r - 1) x)"
proof -
  have "signed_drop_bit (32 - r) (push_bit (32 - r) x) = signed_take_bit (r - 1) x"
  proof (rule bit_word_eqI)
    fix j assume "j < LENGTH(32)"
    then show "bit (signed_drop_bit (32 - r) (push_bit (32 - r) x)) j = bit (signed_take_bit (r - 1) x) j"
      using assms by (cases "j = r - 1") (auto simp: bit_simps bit_signed_drop_bit_iff bit_signed_take_bit_iff min_def)
  qed
  moreover have "nat (32 - int r) = 32 - r" using assms by simp
  ultimately show ?thesis using assms by (simp add: SIGN_EXTENDED32_def)
qed


lemma take_bit_add_word: "take_bit n (take_bit n a + take_bit n b) = take_bit n (a + b :: 'a :: len word)"
proof (transfer fixing: n)
  fix a b :: int
  have "take_bit (min LENGTH('a) n) (take_bit (min LENGTH('a) n) a + take_bit (min LENGTH('a) n) b) =
    take_bit (min LENGTH('a) n) (a + b)" by (rule take_bit_add)
  then show "take_bit LENGTH('a) (take_bit (min LENGTH('a) n) (take_bit (min LENGTH('a) n) a + take_bit (min LENGTH('a) n) b)) =
    take_bit LENGTH('a) (take_bit (min LENGTH('a) n) (a + b))" by simp
qed

lemma signed_take_bit_error:
  fixes v x :: u32
  shows "signed_take_bit n (v + signed_take_bit n (x - v)) = signed_take_bit n x"
proof -
  have "take_bit (Suc n) (v + signed_take_bit n (x - v)) =
      take_bit (Suc n) (take_bit (Suc n) v + take_bit (Suc n) (signed_take_bit n (x - v)))"
    by (rule take_bit_add_word [symmetric])
  also have "take_bit (Suc n) (signed_take_bit n (x - v)) = take_bit (Suc n) (x - v)"
    by (simp add: take_bit_signed_take_bit)
  also have "take_bit (Suc n) (take_bit (Suc n) v + take_bit (Suc n) (x - v)) = take_bit (Suc n) x"
    by (simp add: take_bit_add_word)
  finally show ?thesis by (simp add: signed_take_bit_eq_iff_take_bit_eq)
qed

lemma error_recovers:
  assumes "1 \<le> r" "r \<le> 32" "SIGN_EXTENDED32 (x - v) (int r) = Some e" "fits (int r) x"
  shows "SIGN_EXTENDED32 (v + e) (int r) = Some x"
  using assms by (auto simp: fits_def SIGN_EXTENDED32_take_bit signed_take_bit_error)

text \<open>The predictor looks at the samples up to \<open>p + num\<close> only.\<close>

lemma fir_sum_cong:
  assumes "\<And>j. 0 \<le> j \<Longrightarrow> j \<le> num \<Longrightarrow> load_at out (p + j) = load_at out' (p + j)" "int n \<le> num"
  shows "fir_sum out p num coef n = fir_sum out' p num coef n"
  using assms(2)
proof (induction n)
  case (Suc n)
  then show ?case using assms(1) [of "num - int n"] assms(1) [of 0] by simp
qed simp

lemma fir_predict_cong:
  assumes "\<And>j. 0 \<le> j \<Longrightarrow> j \<le> num \<Longrightarrow> load_at out (p + j) = load_at out' (p + j)" "0 \<le> num"
  shows "fir_predict out p num coef quant = fir_predict out' p num coef quant"
  using fir_sum_cong [of num out p out' "nat num" coef, OF assms(1)] assms(1) [of 0] assms(2)
  by (simp add: fir_predict_def cong: if_cong Option.bind_cong)

lemma fir_adapt_pos_cong:
  assumes "\<And>j. 0 \<le> j \<Longrightarrow> j \<le> num \<Longrightarrow> load_at out (p + j) = load_at out' (p + j)" "pn \<le> num" "0 \<le> num"
  shows "fir_adapt_pos out p num quant pn e coef = fir_adapt_pos out' p num quant pn e coef"
  using assms
proof (induction out p num quant pn e coef rule: fir_adapt_pos.induct)
  case (1 out p num quant pn e coef)
  show ?case
  proof (cases "0 \<le> pn \<and> 0 < sint e")
    case True
    have l: "load_at out p = load_at out' p" "load_at out (p + (num - pn)) = load_at out' (p + (num - pn))"
      using 1(2) [of 0] 1(2) [of "num - pn"] 1(3,4) True by simp_all
    show ?thesis
      by (subst (1 2) fir_adapt_pos.simps)
        (use 1 True in \<open>auto simp: Let_def l intro!: Option.bind_cong\<close>)
  qed (subst (1 2) fir_adapt_pos.simps, auto)
qed

lemma fir_adapt_neg_cong:
  assumes "\<And>j. 0 \<le> j \<Longrightarrow> j \<le> num \<Longrightarrow> load_at out (p + j) = load_at out' (p + j)" "pn \<le> num" "0 \<le> num"
  shows "fir_adapt_neg out p num quant pn e coef = fir_adapt_neg out' p num quant pn e coef"
  using assms
proof (induction out p num quant pn e coef rule: fir_adapt_neg.induct)
  case (1 out p num quant pn e coef)
  show ?case
  proof (cases "0 \<le> pn \<and> sint e < 0")
    case True
    have l: "load_at out p = load_at out' p" "load_at out (p + (num - pn)) = load_at out' (p + (num - pn))"
      using 1(2) [of 0] 1(2) [of "num - pn"] 1(3,4) True by simp_all
    show ?thesis
      by (subst (1 2) fir_adapt_neg.simps)
        (use 1 True in \<open>auto simp: Let_def l intro!: Option.bind_cong\<close>)
  qed (subst (1 2) fir_adapt_neg.simps, auto)
qed

lemma fir_adapt_cong:
  assumes "\<And>j. 0 \<le> j \<Longrightarrow> j \<le> num \<Longrightarrow> load_at out (p + j) = load_at out' (p + j)" "0 \<le> num"
  shows "fir_adapt out p num quant e coef = fir_adapt out' p num quant e coef"
  using assms by (simp add: fir_adapt_def fir_adapt_pos_cong [of num out p out'] fir_adapt_neg_cong [of num out p out'])

text \<open>The samples decoded so far are the samples that were coded.\<close>

definition agrees :: "u32 list \<Rightarrow> u32 list \<Rightarrow> nat \<Rightarrow> bool" where
  "agrees out xs n \<longleftrightarrow> n \<le> length out \<and> n \<le> length xs \<and> take n out = take n xs"

lemma agrees_nth: "agrees out xs n \<Longrightarrow> i < n \<Longrightarrow> out ! i = xs ! i"
  by (metis agrees_def nth_take)

lemma agrees_load:
  assumes "agrees out xs n" "0 \<le> i" "i < int n"
  shows "load_at out i = load_at xs i"
  using assms agrees_nth [OF assms(1), of "nat i"] by (auto simp: load_at_def agrees_def)

lemma agrees_store:
  assumes "agrees out xs n" "n < length out" "n < length xs"
  shows "agrees (out[n := xs ! n]) xs (Suc n)"
  using assms by (auto simp: agrees_def take_Suc_conv_app_nth)

lemma fir_delta_decodes:
  assumes "delta_errors xs (int r) i n = Some es" "agrees out xs (Suc i)"
    "\<And>j. j < n \<Longrightarrow> i + 1 + j < length err \<and> err ! (i + 1 + j) = es ! j"
    "i + n < length out" "i + n < length xs" "list_all (fits (int r)) xs" "1 \<le> r" "r \<le> 32"
  shows "\<exists>out'. fir_delta err out (int r) i n = Some out' \<and> agrees out' xs (Suc (i + n)) \<and>
    length out' = length out \<and> drop (Suc (i + n)) out' = drop (Suc (i + n)) out"
  using assms
proof (induction n arbitrary: i es out)
  case (Suc n)
  obtain e fs where e: "SIGN_EXTENDED32 (xs ! (i + 1) - xs ! i) (int r) = Some e"
    and fs: "delta_errors xs (int r) (Suc i) n = Some fs" and es: "es = e # fs"
    using Suc.prems(1) by (auto simp: bind_eq_Some_conv)
  have x: "fits (int r) (xs ! (i + 1))" using Suc.prems(5,6) by (simp add: list_all_length)
  have v: "SIGN_EXTENDED32 (xs ! i + e) (int r) = Some (xs ! (i + 1))"
    using error_recovers [OF Suc.prems(7,8) e x] .
  let ?out = "out[Suc i := xs ! Suc i]"
  have ag: "agrees ?out xs (Suc (Suc i))"
    using agrees_store [OF Suc.prems(2)] Suc.prems(4,5) by simp
  have "\<exists>out'. fir_delta err ?out (int r) (Suc i) n = Some out' \<and> agrees out' xs (Suc (Suc i + n)) \<and>
    length out' = length ?out \<and> drop (Suc (Suc i + n)) out' = drop (Suc (Suc i + n)) ?out"
  proof (rule Suc.IH [OF fs ag])
    fix j assume "j < n"
    then show "Suc i + 1 + j < length err \<and> err ! (Suc i + 1 + j) = fs ! j"
      using Suc.prems(3) [of "Suc j"] by (simp add: es)
  qed (use Suc.prems in simp_all)
  moreover have "load_at out (int i) = Some (xs ! i)"
    using Suc.prems(4) agrees_nth [OF Suc.prems(2), of i] by simp
  moreover have "load_at err (int i + 1) = Some e" "store_at out (int i + 1) (xs ! Suc i) = Some ?out"
    using Suc.prems(3) [of 0] Suc.prems(4) load_at_nat [of "Suc i" err] store_at_nat [of "Suc i" out]
    by (simp_all add: es add.commute)
  ultimately show ?case using v by simp
qed simp

lemma fir_general_decodes:
  assumes "fir_errors xs (int r) num quant coef p n = Some es" "agrees out xs (p + num + 1)"
    "\<And>j. j < n \<Longrightarrow> p + num + 1 + j < length err \<and> err ! (p + num + 1 + j) = es ! j"
    "p + num + 1 + n = length xs" "length xs \<le> length out"
    "list_all (fits (int r)) xs" "1 \<le> r" "r \<le> 32"
  shows "fir_general err out (int (length xs)) (int r) coef (int num) quant (int p)
      (int p + int num + 1) = Some (xs @ drop (length xs) out)"
  using assms
proof (induction n arbitrary: p coef es out)
  case 0
  then have "take (length xs) out = xs" by (simp add: agrees_def)
  moreover have "\<not> int p + int num + 1 < int (length xs)" using 0 by simp
  ultimately show ?case by (subst fir_general.simps) (metis (no_types) append_take_drop_id)
next
  case (Suc n)
  let ?i = "p + num + 1"
  obtain v e c fs where v: "fir_predict xs (int p) (int num) coef quant = Some v"
    and e: "SIGN_EXTENDED32 (xs ! ?i - v) (int r) = Some e"
    and c: "fir_adapt xs (int p) (int num) quant e coef = Some c"
    and fs: "fir_errors xs (int r) num quant c (Suc p) n = Some fs" and es: "es = e # fs"
    using Suc.prems(1) by (auto simp: bind_eq_Some_conv)
  have lt: "?i < length xs" "?i < length out" using Suc.prems(4,5) by simp_all
  have x: "fits (int r) (xs ! ?i)" using lt Suc.prems(6) by (simp add: list_all_length)
  have dec: "SIGN_EXTENDED32 (v + e) (int r) = Some (xs ! ?i)"
    using error_recovers [OF Suc.prems(7,8) e x] .
  let ?out = "out[?i := xs ! ?i]"
  have ag: "agrees ?out xs (Suc ?i)"
    using agrees_store [OF Suc.prems(2)] lt by simp
  have le: "fir_predict out (int p) (int num) coef quant = Some v"
    unfolding v [symmetric] using agrees_load [OF Suc.prems(2)] by (intro fir_predict_cong) auto
  have ad: "fir_adapt ?out (int p) (int num) quant e coef = Some c"
    unfolding c [symmetric] using agrees_load [OF ag] by (intro fir_adapt_cong) auto
  have "fir_general err ?out (int (length xs)) (int r) c (int num) quant (int (Suc p))
      (int (Suc p) + int num + 1) = Some (xs @ drop (length xs) ?out)"
  proof (rule Suc.IH [OF fs])
    fix j assume "j < n"
    then show "Suc p + num + 1 + j < length err \<and> err ! (Suc p + num + 1 + j) = fs ! j"
      using Suc.prems(3) [of "Suc j"] by (simp add: es)
  qed (use Suc.prems ag in simp_all)
  moreover have "load_at err (int p + int num + 1) = Some e"
    "store_at out (int p + (int num + 1)) (xs ! ?i) = Some ?out"
    using Suc.prems(3) [of 0] lt load_at_nat [of ?i err] store_at_nat [of ?i out]
    by (simp_all add: es ac_simps)
  moreover have "int p + int num + 1 < int (length xs)" using lt by simp
  ultimately show ?case using le dec ad lt
    by (subst fir_general.simps) (simp add: add.commute [of _ 1] add.assoc)
qed


lemma delta_errors_length: "delta_errors xs rss i n = Some es \<Longrightarrow> length es = n"
  by (induction n arbitrary: i es) (auto simp: bind_eq_Some_conv)

lemma fir_errors_length: "fir_errors xs rss num quant coef p n = Some es \<Longrightarrow> length es = n"
  by (induction n arbitrary: p coef es) (auto simp: bind_eq_Some_conv)

lemma agrees_all: "agrees out xs (length xs) \<Longrightarrow> out = xs @ drop (length xs) out"
  unfolding agrees_def by (metis append_take_drop_id order_refl take_all)

lemma first_sample:
  assumes "xs \<noteq> []" "length xs \<le> length out"
  shows "agrees (out[0 := hd xs]) xs (Suc 0)"
  using assms by (cases xs; cases out) (simp_all add: agrees_def)

lemma first_store:
  assumes "xs \<noteq> []" "length xs \<le> length out" "es \<noteq> []" "hd es = hd xs"
  shows "store_at out 0 (hd xs) = Some (out[0 := hd xs])" "load_at (es @ junk) 0 = Some (hd xs)"
  using assms by (cases xs; cases out; cases es; simp add: store_at_def load_at_def)+

lemma one_sample:
  assumes "length xs = 1" "xs \<noteq> []" "length xs \<le> length out"
  shows "out[0 := hd xs] = xs @ drop (length xs) out"
  using assms by (cases xs; cases out) simp_all

lemma decompress_copy:
  assumes len: "xs \<noteq> []" "length xs \<le> length out"
  shows "predictor_decompress_fir_adapt (xs @ junk) out (int (length xs)) r coef 0 quant =
    Some (xs @ drop (length xs) out)"
proof (cases "length xs = 1")
  case True
  then show ?thesis using first_store [of xs out xs] one_sample [of xs out] len
    by (simp add: predictor_decompress_fir_adapt_def)
next
  case False
  have "\<not> int (length xs) \<le> 1" using False len(1) by (cases xs) auto
  moreover have "take 1 (out[0 := hd xs]) @ take (length xs - 1) (drop 1 (xs @ junk)) = xs"
    using len by (cases xs; cases out) simp_all
  moreover have "nat (int (length xs) - 1) = length xs - 1" by simp
  ultimately show ?thesis using first_store [of xs out xs] len
    by (simp add: predictor_decompress_fir_adapt_def copy_rest_def flip: append_assoc)
qed

lemma decompress_delta:
  assumes ds: "delta_errors xs (int r) 0 (length xs - 1) = Some ds"
    and fit: "list_all (fits (int r)) xs" "1 \<le> r" "r \<le> 32"
    and len: "xs \<noteq> []" "length xs \<le> length out"
  shows "predictor_decompress_fir_adapt ((hd xs # ds) @ junk) out (int (length xs)) (int r) coef 31 quant =
    Some (xs @ drop (length xs) out)"
proof -
  let ?err = "(hd xs # ds) @ junk" and ?out = "out[0 := hd xs]"
  obtain m where m: "length xs = Suc m" using len(1) by (cases xs) auto
  have ld: "length ds = m" using delta_errors_length [OF ds] m by simp
  have "\<exists>out'. fir_delta ?err ?out (int r) 0 (length xs - 1) = Some out' \<and>
      agrees out' xs (Suc (0 + (length xs - 1))) \<and> length out' = length ?out \<and>
      drop (Suc (0 + (length xs - 1))) out' = drop (Suc (0 + (length xs - 1))) ?out"
    by (rule fir_delta_decodes [OF ds first_sample [OF len] _ _ _ fit])
      (use len m ld in \<open>auto simp: nth_append\<close>)
  then obtain out' where o: "fir_delta ?err ?out (int r) 0 (length xs - 1) = Some out'"
    "agrees out' xs (length xs)" "drop (length xs) out' = drop (length xs) ?out"
    using m by auto
  have res: "out' = xs @ drop (length xs) out"
    using agrees_all [OF o(2)] o(3) len(1) by (cases xs) auto
  show ?thesis
  proof (cases "length xs = 1")
    case True
    then show ?thesis using first_store [of xs out "hd xs # ds"] one_sample [of xs out] len
      by (simp add: predictor_decompress_fir_adapt_def)
  next
    case False
    then have "\<not> int (length xs) \<le> 1" using len(1) by (cases xs) auto
    moreover have "nat (int (length xs) - 1) = length xs - 1" by simp
    ultimately show ?thesis using first_store [of xs out "hd xs # ds"] len o(1) res
      by (simp add: predictor_decompress_fir_adapt_def)
  qed
qed

lemma decompress_fir:
  assumes ds: "delta_errors xs (int r) 0 num = Some ds"
    and fs: "fir_errors xs (int r) num quant coef 0 (length xs - num - 1) = Some fs"
    and fit: "list_all (fits (int r)) xs" "1 \<le> r" "r \<le> 32"
    and num: "num \<noteq> 0" "num \<noteq> 31" "num < length xs"
    and len: "xs \<noteq> []" "length xs \<le> length out"
  shows "predictor_decompress_fir_adapt ((hd xs # ds @ fs) @ junk) out (int (length xs)) (int r)
      coef (int num) quant = Some (xs @ drop (length xs) out)"
proof -
  let ?err = "(hd xs # ds @ fs) @ junk" and ?out = "out[0 := hd xs]"
  have ld: "length ds = num" "length fs = length xs - num - 1"
    using delta_errors_length [OF ds] fir_errors_length [OF fs] .
  obtain out' where o: "fir_delta ?err ?out (int r) 0 num = Some out'"
    "agrees out' xs (Suc num)" "length out' = length out"
    "drop (Suc num) out' = drop (Suc num) ?out"
    using fir_delta_decodes [OF ds first_sample [OF len] _ _ _ fit, of ?err] num len ld
    by (auto simp: nth_append)
  have "fir_general ?err out' (int (length xs)) (int r) coef (int num) quant (int 0)
      (int 0 + int num + 1) = Some (xs @ drop (length xs) out')"
    using o num len ld
    by (intro fir_general_decodes [OF fs _ _ _ _ fit]) (auto simp: nth_append)
  moreover have "drop (length xs) out' = drop (length xs) out"
  proof -
    obtain d where d: "length xs = d + Suc num" by (rule that [of "length xs - Suc num"]) (use num(3) in simp)
    have "drop (length xs) out' = drop d (drop (Suc num) out')" by (simp add: d)
    also have "drop (Suc num) out' = drop (Suc num) out" using o(4) by simp
    also have "drop d (drop (Suc num) out) = drop (length xs) out" by (simp add: d)
    finally show ?thesis .
  qed
  ultimately show ?thesis using first_store [of xs out "hd xs # ds @ fs"] len num o(1)
    by (simp add: predictor_decompress_fir_adapt_def add.commute [of _ 1])
qed

section \<open>The decoder and the reference\<close>

lemma sext_ref:
  assumes "1 \<le> r" "r \<le> 32"
  shows "SIGN_EXTENDED32 (word_of_int x) (int r) = Some (word_of_int (wrap r x))"
proof -
  have "signed_take_bit (r - 1) (word_of_int x :: u32) = word_of_int (signed_take_bit (r - 1) x)"
    using assms by (intro bit_word_eqI) (auto simp: bit_simps min_def)
  moreover have "signed_take_bit (r - 1) x = wrap r x"
    using assms by (simp add: signed_take_bit_eq_take_bit_shift take_bit_eq_mod wrap_def)
  ultimately show ?thesis using SIGN_EXTENDED32_take_bit [OF assms] by simp
qed

lemma sint_diff_word: "(x - y :: u32) = word_of_int (sint x - sint y)"
  by simp

lemma delta_ref:
  assumes "1 \<le> r" "r \<le> 32" "i + n < length xs"
  shows "delta_errors xs (int r) i n = Some (map word_of_int (ref_delta r (take (n + 1) (drop i (map sint xs)))))"
  using assms(3)
proof (induction n arbitrary: i)
  case 0
  then have "take 1 (drop i (map sint xs)) = [sint (xs ! i)]"
    by (simp add: take_Suc_conv_app_nth)
  then show ?case by simp
next
  case (Suc n)
  have t: "take (Suc n + 1) (drop i (map sint xs)) = sint (xs ! i) # sint (xs ! Suc i) # take n (drop (Suc (Suc i)) (map sint xs))"
    using Suc.prems by (simp add: Cons_nth_drop_Suc [symmetric])
  have u: "take (n + 1) (drop (Suc i) (map sint xs)) = sint (xs ! Suc i) # take n (drop (Suc (Suc i)) (map sint xs))"
    using Suc.prems by (simp add: Cons_nth_drop_Suc [symmetric])
  have "SIGN_EXTENDED32 (xs ! Suc i - xs ! i) (int r) = Some (word_of_int (wrap r (sint (xs ! Suc i) - sint (xs ! i))))"
    using sext_ref [OF assms(1,2)] by (subst sint_diff_word) (simp only:)
  then show ?case using Suc.IH [of "Suc i"] Suc.prems unfolding t u by simp
qed

text \<open>The sum and the prediction.\<close>

lemma fir_sum_ref:
  assumes "p + num < length xs" "num \<le> length coef" "n \<le> num"
  shows "fir_sum xs (int p) (int num) coef n =
    Some (word_of_int (\<Sum>j < n. sint (coef ! j) * (sint (xs ! (p + num - j)) - sint (xs ! p))))"
  using assms(3)
proof (induction n)
  case (Suc n)
  have "int p + (int num - int n) = int (p + num - n)" using Suc.prems by simp
  then have l: "load_at xs (int p + (int num - int n)) = Some (xs ! (p + num - n))"
    using assms(1) by (simp only: load_at_nat)
  have "load_at coef (int n) = Some (coef ! n)" using assms(2) Suc.prems by simp
  moreover have "load_at xs (int p) = Some (xs ! p)" using assms(1) by simp
  moreover have "(xs ! (p + num - n) - xs ! p) * scast (coef ! n) =
      word_of_int (sint (coef ! n) * (sint (xs ! (p + num - n)) - sint (xs ! p)))"
    by (simp add: mult.commute)
  ultimately show ?case using Suc l by simp
qed simp

lemma taps_sum:
  fixes f :: "int \<Rightarrow> int \<Rightarrow> int"
  assumes "num \<le> length coef" "p + num < length ys"
  shows "sum_list (map2 f (rev (take num coef)) (take num (drop (Suc p) ys))) =
    (\<Sum>j < num. f (coef ! j) (ys ! (p + num - j)))"
proof -
  have e: "map2 f (rev (take num coef)) (take num (drop (Suc p) ys)) = map (\<lambda>i. f (coef ! (num - 1 - i)) (ys ! (p + 1 + i))) [0..<num]"
    using assms by (intro nth_equalityI) (simp_all add: rev_nth)
  have "sum_list \<dots> = (\<Sum>i < num. f (coef ! (num - 1 - i)) (ys ! (p + 1 + i)))"
    by (simp add: interv_sum_list_conv_sum_set_nat atLeast0LessThan)
  also have "\<dots> = (\<Sum>j < num. f (coef ! j) (ys ! (p + num - j)))"
    by (rule sum.reindex_bij_witness [of _ "\<lambda>j. num - 1 - j" "\<lambda>i. num - 1 - i"]) auto
  finally show ?thesis unfolding e .
qed

lemma fir_predict_ref:
  assumes "p + num < length xs" "num \<le> length coef" "1 \<le> quant" "quant < 32"
  shows "fir_predict xs (int p) (int num) coef quant =
    Some (word_of_int (ref_prediction (nat quant) (map sint (rev (take num coef))) (sint (xs ! p))
      (take num (drop (Suc p) (map sint xs)))))"
proof -
  let ?S = "\<Sum>j < num. sint (coef ! j) * (sint (xs ! (p + num - j)) - sint (xs ! p))"
  have s: "sum_list (map2 (\<lambda>c x. c * (x - sint (xs ! p))) (map sint (rev (take num coef))) (take num (drop (Suc p) (map sint xs)))) = ?S"
    using taps_sum [of num "map sint coef" p "map sint xs" "\<lambda>c x. c * (x - sint (xs ! p))"] assms(1,2)
    by (simp add: rev_map take_map)
  have "nat (quant - 1) = nat quant - 1" by simp
  then have q: "push_bit (nat (quant - 1)) 1 = (word_of_int (2 ^ (nat quant - 1)) :: u32)"
    by (simp add: push_bit_eq_mult)
  let ?o = "push_bit (nat (quant - 1)) 1 + word_of_int ?S :: u32"
  have "?o = word_of_int (?S + 2 ^ (nat quant - 1))" unfolding q by simp
  then have "sint ?o = wrap 32 (?S + 2 ^ (nat quant - 1))" by (simp only: sint_of_int_32)
  moreover have "sint (signed_drop_bit (nat quant) ?o) = sint ?o div 2 ^ nat quant"
    by (simp add: sint_signed_drop_bit_eq drop_bit_eq_div)
  moreover have "signed_drop_bit (nat quant) ?o + xs ! p =
      word_of_int (sint (signed_drop_bit (nat quant) ?o) + sint (xs ! p))" by simp
  ultimately have "signed_drop_bit (nat quant) ?o + xs ! p =
      word_of_int (ref_prediction (nat quant) (map sint (rev (take num coef))) (sint (xs ! p))
      (take num (drop (Suc p) (map sint xs))))"
    unfolding ref_prediction_def s by (simp only: add.commute)
  then show ?thesis
    using fir_sum_ref [OF assms(1,2) order_refl] assms by (simp add: fir_predict_def)
qed

text \<open>The adaptation; \<open>f\<close> is one of the two loops, with the number of taps left.\<close>

definition tap :: "u32 list \<Rightarrow> nat \<Rightarrow> nat \<Rightarrow> nat \<Rightarrow> int" where
  "tap xs p num n = wrap 32 (sint (xs ! p) - sint (xs ! (p + num - n)))"

lemma adapt_ref:
  assumes stop: "\<And>e cs. f 0 e cs = Some cs" "\<And>n e cs. \<not> 0 < s * sint e \<Longrightarrow> f (Suc n) e cs = Some cs"
    and step: "\<And>n e cs. 0 < s * sint e \<Longrightarrow> n < num \<Longrightarrow> n < length cs \<Longrightarrow> f (Suc n) e cs =
      f n (word_of_int (sint e - wrap 32 (s * \<bar>d n\<bar>) div 2 ^ q * (int num - int n)))
        (cs[n := word_of_int (sint (cs ! n) - s * sgn (d n))])"
    and n: "n \<le> num" "n \<le> length cs"
  shows "\<exists>cs' :: u16 list. f n (e :: u32) cs = Some cs' \<and> length cs' = length cs \<and> drop n cs' = drop n cs \<and>
    map sint (rev (take n cs')) = ref_adapt q s (sint e) (int num - int n + 1) (zip (map sint (rev (take n cs))) (map d (rev [0..<n])))"
  using n
proof (induction n arbitrary: e cs)
  case 0
  then show ?case by (simp add: stop(1))
next
  case (Suc n)
  have t: "take (Suc n) cs = take n cs @ [cs ! n]" using Suc.prems(2) by (simp add: take_Suc_conv_app_nth)
  have z: "zip (map sint (rev (take (Suc n) cs))) (map d (rev [0..<Suc n])) =
      (sint (cs ! n), d n) # zip (map sint (rev (take n cs))) (map d (rev [0..<n]))"
    by (simp add: t)
  show ?case
  proof (cases "0 < s * sint e")
    case False
    have "map fst (zip (map sint (rev (take n cs))) (map d (rev [0..<n]))) = map sint (rev (take n cs))"
      using Suc.prems(2) by simp
    then show ?thesis using stop(2) [OF False] False unfolding z by (simp add: t)
  next
    case True
    obtain e' :: u32 where e': "e' = word_of_int (sint e - wrap 32 (s * \<bar>d n\<bar>) div 2 ^ q * (int num - int n))"
      by blast
    obtain c :: u16 where c: "c = word_of_int (sint (cs ! n) - s * sgn (d n))" by blast
    note sint = e' [THEN arg_cong [of _ _ sint], unfolded sint_of_int_32] c [THEN arg_cong [of _ _ sint], unfolded sint_of_int_16]
    obtain cs' where cs': "f n e' (cs[n := c]) = Some cs'" "length cs' = length cs" "drop n cs' = drop n (cs[n := c])"
      "map sint (rev (take n cs')) = ref_adapt q s (sint e') (int num - int n + 1) (zip (map sint (rev (take n cs))) (map d (rev [0..<n])))"
      using Suc.IH [of "cs[n := c]" e'] Suc.prems by auto
    have "drop n (cs[n := c]) = c # drop (Suc n) cs"
      using Suc.prems(2) by (simp add: Cons_nth_drop_Suc [symmetric] drop_update_cancel)
    then have last: "cs' ! n = c" "drop (Suc n) cs' = drop (Suc n) cs"
      using cs'(2,3) Suc.prems(2) by (simp_all add: Cons_nth_drop_Suc [symmetric])
    have t': "take (Suc n) cs' = take n cs' @ [c]"
      using Suc.prems(2) cs'(2) last(1) by (simp add: take_Suc_conv_app_nth)
    have "f (Suc n) e cs = Some cs'" using step [OF True] Suc.prems cs'(1) unfolding e' c by simp
    moreover have "map sint (rev (take (Suc n) cs')) =
        ref_adapt q s (sint e) (int num - int (Suc n) + 1) (zip (map sint (rev (take (Suc n) cs))) (map d (rev [0..<Suc n])))"
      unfolding z t' using True cs'(4) by (simp add: sint)
    ultimately show ?thesis using cs'(2) last(2) by blast
  qed
qed

lemma sign_word: "sint (SIGN_ONLY v) = sgn (sint v)"
  by (simp add: SIGN_ONLY_def sgn_if)


lemma abs_word: "x * SIGN_ONLY x = (word_of_int \<bar>sint x\<bar> :: u32)"
proof -
  have "x * SIGN_ONLY x = word_of_int (sint x * sint (SIGN_ONLY x))" by simp
  then show ?thesis unfolding sign_word by (simp only: abs_sgn)
qed

lemma ucast_sign: "ucast (SIGN_ONLY v) = (word_of_int (sgn (sint v)) :: u16)" "ucast (- SIGN_ONLY v) = (word_of_int (- sgn (sint v)) :: u16)"
proof -
  have "ucast (- 1 :: u32) = (- 1 :: u16)" by code_simp
  then show "ucast (SIGN_ONLY v) = (word_of_int (sgn (sint v)) :: u16)" "ucast (- SIGN_ONLY v) = (word_of_int (- sgn (sint v)) :: u16)"
    by (simp_all add: SIGN_ONLY_def sgn_if)
qed

lemma tap_loads:
  assumes "p + num < length xs" "n < num"
  shows "load_at xs (int p) = Some (xs ! p)"
    "load_at xs (int p + (int num - int n)) = Some (xs ! (p + num - n))"
    "sint (xs ! p - xs ! (p + num - n)) = tap xs p num n"
proof -
  have "int p + (int num - int n) = int (p + num - n)" using assms by simp
  then show "load_at xs (int p + (int num - int n)) = Some (xs ! (p + num - n))" using assms by (simp only: load_at_nat)
  show "load_at xs (int p) = Some (xs ! p)" using assms by simp
  show "sint (xs ! p - xs ! (p + num - n)) = tap xs p num n" by (simp add: tap_def sint_arith_wrap)
qed

lemma adapt_pos_step:
  assumes "p + num < length xs" "0 < sint e" "n < num" "n < length cs"
  shows "fir_adapt_pos xs (int p) (int num) quant (int (Suc n) - 1) e cs =
    fir_adapt_pos xs (int p) (int num) quant (int n - 1)
      (word_of_int (sint e - wrap 32 (1 * \<bar>tap xs p num n\<bar>) div 2 ^ nat quant * (int num - int n)))
      (cs[n := word_of_int (sint (cs ! n) - 1 * sgn (tap xs p num n))])"
proof -
  note l = tap_loads [OF assms(1,3)]
  have v: "signed_drop_bit (nat quant) (word_of_int \<bar>x\<bar> :: u32) = word_of_int (wrap 32 \<bar>x\<bar> div 2 ^ nat quant)" for x
  proof -
    have "signed_drop_bit (nat quant) (word_of_int \<bar>x\<bar> :: u32) =
        word_of_int (sint (signed_drop_bit (nat quant) (word_of_int \<bar>x\<bar> :: u32)))" by simp
    then show ?thesis unfolding sint_shift sint_of_int_32 .
  qed
  show ?thesis
    using assms l by (subst fir_adapt_pos.simps) (simp add: abs_word ucast_sign v Let_def)
qed


lemma adapt_neg_step:
  assumes "p + num < length xs" "sint e < 0" "n < num" "n < length cs"
  shows "fir_adapt_neg xs (int p) (int num) quant (int (Suc n) - 1) e cs =
    fir_adapt_neg xs (int p) (int num) quant (int n - 1)
      (word_of_int (sint e - wrap 32 (- 1 * \<bar>tap xs p num n\<bar>) div 2 ^ nat quant * (int num - int n)))
      (cs[n := word_of_int (sint (cs ! n) - (- 1) * sgn (tap xs p num n))])"
proof -
  note l = tap_loads [OF assms(1,3)]
  have v: "signed_drop_bit (nat quant) (- word_of_int \<bar>x\<bar> :: u32) = word_of_int (wrap 32 (- \<bar>x\<bar>) div 2 ^ nat quant)" for x
  proof -
    have "signed_drop_bit (nat quant) (word_of_int (- \<bar>x\<bar>) :: u32) =
        word_of_int (sint (signed_drop_bit (nat quant) (word_of_int (- \<bar>x\<bar>) :: u32)))" by simp
    then show ?thesis unfolding sint_shift sint_of_int_32 by simp
  qed
  have a: "- (x * SIGN_ONLY x) = (- word_of_int \<bar>sint x\<bar> :: u32)" for x by (simp add: abs_word)
  show ?thesis
    using assms l by (subst fir_adapt_neg.simps) (simp add: a ucast_sign v Let_def)
qed

lemma taps_of_window:
  assumes "p + num < length xs"
  shows "map (tap xs p num) (rev [0..<num]) =
    map (\<lambda>x. wrap 32 (sint (xs ! p) - x)) (take num (drop (Suc p) (map sint xs)))"
  using assms by (intro nth_equalityI) (auto simp: tap_def rev_nth)

lemma fir_adapt_ref:
  assumes "p + num < length xs" "num \<le> length coef"
  shows "\<exists>coef'. fir_adapt xs (int p) (int num) quant e coef = Some coef' \<and> length coef' = length coef \<and>
    map sint (rev (take num coef')) = ref_adapt (nat quant) (sgn (sint e)) (sint e) 1
      (zip (map sint (rev (take num coef)))
        (map (\<lambda>x. wrap 32 (sint (xs ! p) - x)) (take num (drop (Suc p) (map sint xs)))))"
proof -
  let ?pos = "\<lambda>n. fir_adapt_pos xs (int p) (int num) quant (int n - 1)"
  let ?neg = "\<lambda>n. fir_adapt_neg xs (int p) (int num) quant (int n - 1)"
  let ?res = "\<lambda>s r. \<exists>cs'. r = Some cs' \<and> length cs' = length coef \<and> drop num cs' = drop num coef \<and>
    map sint (rev (take num cs')) = ref_adapt (nat quant) s (sint e) (int num - int num + 1)
      (zip (map sint (rev (take num coef))) (map (tap xs p num) (rev [0..<num])))"
  have pos: "?res 1 (?pos num e coef)"
  proof (rule adapt_ref [where f = ?pos and s = 1 and d = "tap xs p num" and q = "nat quant" and num = num and n = num])
    show "?pos 0 e' cs = Some cs" for e' cs by (subst fir_adapt_pos.simps) simp
    show "?pos (Suc n) e' cs = Some cs" if "\<not> 0 < 1 * sint e'" for n e' cs
      using that by (subst fir_adapt_pos.simps) simp
  qed (use assms adapt_pos_step [OF assms(1)] in simp_all)
  have neg: "?res (- 1) (?neg num e coef)"
  proof (rule adapt_ref [where f = ?neg and s = "- 1" and d = "tap xs p num" and q = "nat quant" and num = num and n = num])
    show "?neg 0 e' cs = Some cs" for e' cs by (subst fir_adapt_neg.simps) simp
    show "?neg (Suc n) e' cs = Some cs" if "\<not> 0 < - 1 * sint e'" for n e' cs
      using that by (subst fir_adapt_neg.simps) simp
  qed (use assms adapt_neg_step [OF assms(1)] in simp_all)
  have zero: "ref_adapt q 0 0 1 (zip cs ds) = cs" if "length ds = length cs" for q cs ds
    using that by (cases cs; cases ds) simp_all
  consider "0 < sint e" | "sint e < 0" | "sint e = 0" by linarith
  then show ?thesis
  proof cases
    case 1
    then show ?thesis using pos unfolding taps_of_window [OF assms(1)] by (auto simp: fir_adapt_def)
  next
    case 2
    then show ?thesis using neg unfolding taps_of_window [OF assms(1)] by (auto simp: fir_adapt_def)
  next
    case 3
    then show ?thesis using assms by (simp add: fir_adapt_def zero)
  qed
qed

lemma wrap_32_wrap:
  assumes "1 \<le> r" "r \<le> 32"
  shows "wrap 32 (wrap r x) = wrap r x"
proof -
  obtain k where k: "r = Suc k" "k \<le> 31" using assms by (cases r) auto
  have "(2 :: int) ^ k \<le> 2 ^ 31" using k(2) by (rule power_increasing) simp
  moreover have "0 \<le> (x + 2 ^ k) mod (2 * 2 ^ k)" "(x + 2 ^ k) mod (2 * 2 ^ k) < 2 * 2 ^ k" by simp_all
  moreover have "wrap r x = (x + 2 ^ k) mod (2 * 2 ^ k) - 2 ^ k" by (simp add: wrap_def k(1))
  ultimately have "- (2 ^ 31) \<le> wrap r x" "wrap r x < 2 ^ 31" by linarith+
  then show ?thesis unfolding wrap_def [of 32] by simp
qed

lemma fir_errors_ref:
  assumes "1 \<le> r" "r \<le> 32" "1 \<le> quant" "quant < 32" "num \<le> length coef" "p + num + 1 + n = length xs"
  shows "fir_errors xs (int r) num quant coef p n =
    Some (map word_of_int (ref_errors r (nat quant) num (map sint (rev (take num coef))) (drop p (map sint xs))))"
  using assms(5,6)
proof (induction n arbitrary: p coef)
  case 0
  then have "drop p (map sint xs) = sint (xs ! p) # drop (Suc p) (map sint xs)"
    by (subst Cons_nth_drop_Suc [symmetric]) simp_all
  then show ?case using 0 by simp
next
  case (Suc n)
  have len: "p + num < length xs" using Suc.prems by simp
  have d: "drop p (map sint xs) = sint (xs ! p) # drop (Suc p) (map sint xs)"
    using len by (subst Cons_nth_drop_Suc [symmetric]) simp_all
  let ?ws = "take num (drop (Suc p) (map sint xs))"
  let ?v = "ref_prediction (nat quant) (map sint (rev (take num coef))) (sint (xs ! p)) ?ws"
  let ?x = "drop (Suc p) (map sint xs) ! num"
  have x: "?x = sint (xs ! (p + num + 1))" using Suc.prems by simp
  obtain e :: u32 where e: "e = word_of_int (wrap r (?x - ?v))" by blast
  have "xs ! (p + num + 1) - word_of_int ?v = word_of_int (?x - ?v)" unfolding x by simp
  then have sext: "SIGN_EXTENDED32 (xs ! (p + num + 1) - word_of_int ?v) (int r) = Some e"
    unfolding e using sext_ref [OF assms(1,2)] by (simp only:)
  have se: "sint e = wrap r (?x - ?v)"
    unfolding e sint_of_int_32 by (rule wrap_32_wrap [OF assms(1,2)])
  obtain coef' where c: "fir_adapt xs (int p) (int num) quant e coef = Some coef'" "length coef' = length coef"
    "map sint (rev (take num coef')) = ref_adapt (nat quant) (sgn (sint e)) (sint e) 1
      (zip (map sint (rev (take num coef))) (map (\<lambda>x. wrap 32 (sint (xs ! p) - x)) ?ws))"
    using fir_adapt_ref [OF len Suc.prems(1), of quant e] by blast
  have "fir_errors xs (int r) num quant coef' (Suc p) n =
      Some (map word_of_int (ref_errors r (nat quant) num (map sint (rev (take num coef'))) (drop (Suc p) (map sint xs))))"
    using Suc.prems c(2) by (intro Suc.IH) simp_all
  moreover have "e = word_of_int (wrap r (sint (xs ! Suc (p + num)) - ?v))" using e x by simp
  moreover have "\<not> length xs - Suc p \<le> num" using Suc.prems(2) by simp
  ultimately show ?case
    using fir_predict_ref [OF len Suc.prems(1) assms(3,4)] sext c(1) Suc.prems(2)
    unfolding d c(3) se by (simp add: Let_def)
qed

lemma length_ref_delta [simp]: "length (ref_delta r xs) = length xs - 1"
  by (induction r xs rule: ref_delta.induct) simp_all

lemma length_ref_errors [simp]: "length (ref_errors r q num cs xs) = length xs - num - 1"
  by (induction r q num cs xs rule: ref_errors.induct) (auto simp: Let_def)

lemma predictor_compress_length:
  assumes "predictor_compress rss coef num quant xs = Some es" "xs \<noteq> []" "num = 0 \<or> num = 31 \<or> num < length xs"
  shows "length es = length xs"
  using assms by (cases xs) (auto simp: predictor_compress_def Let_def split: if_splits)

lemma predictor_decompress_compress:
  assumes c: "predictor_compress (int r) coef num quant xs = Some es"
    and fit: "list_all (fits (int r)) xs" "1 \<le> r" "r \<le> 32"
    and num: "num = 0 \<or> num = 31 \<or> num < length xs"
    and len: "xs \<noteq> []" "length xs \<le> length out"
  shows "predictor_decompress_fir_adapt (es @ junk) out (int (length xs)) (int r) coef (int num) quant =
    Some (xs @ drop (length xs) out)"
proof -
  consider "num = 0" | "num = 31" | "num \<noteq> 0" "num \<noteq> 31" "num < length xs" using num by auto
  then show ?thesis
  proof cases
    case 1
    then show ?thesis using c decompress_copy [OF len] by (simp add: predictor_compress_def)
  next
    case 2
    have "delta_errors xs (int r) 0 (length xs - 1) = Some (map word_of_int (ref_delta r (map sint xs)))"
      using delta_ref [OF fit(2,3), of 0 "length xs - 1" xs] len(1) by (cases xs) simp_all
    then show ?thesis using 2 c decompress_delta [OF _ fit len]
      by (auto simp: predictor_compress_def Let_def)
  next
    case 3
    let ?fs = "if length xs \<le> num + 1 then [] else
      map word_of_int (ref_errors r (nat quant) num (map sint (rev (take num coef))) (map sint xs))"
    have "delta_errors xs (int r) 0 num = Some (map word_of_int (ref_delta r (take (num + 1) (map sint xs))))"
      using delta_ref [OF fit(2,3), of 0 num xs] 3 by simp
    moreover have "fir_errors xs (int r) num quant coef 0 (length xs - num - 1) = Some ?fs"
      using 3 c fir_errors_ref [OF fit(2,3), of quant num coef 0 "length xs - num - 1" xs]
      by (auto simp: predictor_compress_def Let_def split: if_splits)
    ultimately have "predictor_decompress_fir_adapt ((hd xs # map word_of_int (ref_delta r (take (num + 1) (map sint xs))) @ ?fs) @ junk)
        out (int (length xs)) (int r) coef (int num) quant = Some (xs @ drop (length xs) out)"
      by (rule decompress_fir [OF _ _ fit 3 len])
    moreover have "es = hd xs # map word_of_int (ref_delta r (take (num + 1) (map sint xs))) @ ?fs"
      using 3 c by (auto simp: predictor_compress_def Let_def split: if_splits)
    ultimately show ?thesis by simp
  qed
qed

section \<open>Properties\<close>

text \<open>
  C5: the predictor is lossless: for a frame of samples that fit the sample size, and any number
  of coefficients, decompressing the errors that the reference encoder stored, with its prediction and
  its adaptation of the coefficients written in integers and apart from the decoder's, gives
  the samples back; what lies behind them in the output array is not touched.
\<close>

theorem predictor_lossless:
  assumes "predictor_compress (int r) coef num quant xs = Some es"
    and "list_all (fits (int r)) xs" "1 \<le> r" "r \<le> 32"
    and "num = 0 \<or> num = 31 \<or> num < length xs" "xs \<noteq> []" "length xs \<le> length out"
  shows "predictor_decompress_fir_adapt (es @ junk) out (int (length xs)) (int r) coef (int num) quant =
    Some (xs @ drop (length xs) out)"
  by (rule predictor_decompress_compress [OF assms])

theorem predictor_lossless_witness:
  "\<exists>es. predictor_compress 17 [5, 3] 2 4 [100, 103, 107, 90, 200] = Some es \<and>
     predictor_decompress_fir_adapt (es @ [7, 7]) (replicate 6 1) 5 17 [5, 3] 2 4 =
     Some [100, 103, 107, 90, 200, 1]"
proof -
  let ?xs = "[100, 103, 107, 90, 200] :: u32 list"
  have "predictor_compress (int 17) [5, 3] 2 4 ?xs \<noteq> None" by code_simp
  then obtain es where es: "predictor_compress (int 17) [5, 3] 2 4 ?xs = Some es" by auto
  have fit: "list_all (fits (int 17)) ?xs" by code_simp
  have o: "replicate 6 (1 :: u32) = [1, 1, 1, 1, 1, 1]" by (simp add: eval_nat_numeral)
  from predictor_lossless [OF es fit, of "replicate 6 1" "[7, 7]"] es show ?thesis
    unfolding o by simp
qed

end
