(* ===== verification/Alac_Frame.thy ===== *)
theory Alac_Frame
  imports Alac_Entropy Alac_Predictor
begin

text \<open>
  The frame decoder of alac.c: creation and configuration of the decoder, the mono and stereo
  elements of a frame, compressed and not, and the interleaving of the output. The output
  buffer is an array of bytes; 16-bit samples are stored little endian. \<open>None\<close> is undefined
  behaviour. A frame that is neither mono nor stereo, a prediction type other than 0 and a
  sample size other than 16 or 24 leave the output as it was, as in the code.
\<close>

unbundle bit_operations_syntax

section \<open>Creation\<close>

definition alac_create :: "int \<Rightarrow> int \<Rightarrow> alac_file" where
  "alac_create sample_size num_channels =
     \<lparr>input_buffer = [], input_pos = 0, input_buffer_bitaccumulator = 0,
      samplesize = sample_size, numchannels = num_channels,
      bytespersample = cdiv sample_size 8 * num_channels,
      predicterror_buffer_a = [], predicterror_buffer_b = [],
      outputsamples_buffer_a = [], outputsamples_buffer_b = [],
      uncompressed_bytes_buffer_a = [], uncompressed_bytes_buffer_b = [],
      setinfo_max_samples_per_frame = 0, setinfo_7a = 0, setinfo_sample_size = 0,
      setinfo_rice_historymult = 0, setinfo_rice_initialhistory = 0,
      setinfo_rice_kmodifier = 0, setinfo_7f = 0, setinfo_80 = 0, setinfo_82 = 0,
      setinfo_86 = 0, setinfo_8a_rate = 0\<rparr>"

text \<open>\<open>heap\<close> is what malloc's memory happens to contain; the size is computed in 32 bits.\<close>

definition alac_allocate_buffers :: "(nat \<Rightarrow> u32) \<Rightarrow> alac_file \<Rightarrow> alac_file" where
  "alac_allocate_buffers heap alac =
     (let block = map heap [0 ..< unat (setinfo_max_samples_per_frame alac * 4) div 4] in
      alac\<lparr>predicterror_buffer_a := block, predicterror_buffer_b := block,
           outputsamples_buffer_a := block, outputsamples_buffer_b := block,
           uncompressed_bytes_buffer_a := block, uncompressed_bytes_buffer_b := block\<rparr>)"

definition swap32 :: "u32 \<Rightarrow> u32" where
  "swap32 v =
     push_bit 24 (v AND 0x000000FF) OR push_bit 8 (v AND 0x0000FF00) OR
     drop_bit 8 (v AND 0x00FF0000) OR drop_bit 24 (v AND 0xFF000000)"

definition swap16 :: "u16 \<Rightarrow> u16" where
  "swap16 v = push_bit 8 (v AND 0x00FF) OR drop_bit 8 (v AND 0xFF00)"

definition alac_set_info :: "(nat \<Rightarrow> u32) \<Rightarrow> bytes \<Rightarrow> alac_file \<Rightarrow> alac_file option" where
  "alac_set_info heap b alac =
     (if length b < 48 then None
      else
        let w32 = (\<lambda>i. swap32 (load32 (b ! i) (b ! (i + 1)) (b ! (i + 2)) (b ! (i + 3)))) in
        Some (alac_allocate_buffers heap
          (alac\<lparr>setinfo_max_samples_per_frame := w32 24,
                setinfo_7a := b ! 28,
                setinfo_sample_size := b ! 29,
                setinfo_rice_historymult := b ! 30,
                setinfo_rice_initialhistory := b ! 31,
                setinfo_rice_kmodifier := b ! 32,
                setinfo_7f := b ! 33,
                setinfo_80 := swap16 (load16 (b ! 34) (b ! 35)),
                setinfo_82 := w32 36,
                setinfo_86 := w32 40,
                setinfo_8a_rate := w32 44\<rparr>)))"

section \<open>Interleaving\<close>

definition store16_at :: "bytes \<Rightarrow> int \<Rightarrow> u16 \<Rightarrow> bytes option" where
  "store16_at out i v =
     do {
       out \<leftarrow> store_at out (2 * i) (ucast v);
       store_at out (2 * i + 1) (ucast (drop_bit 8 v))
     }"

definition store24_at :: "bytes \<Rightarrow> int \<Rightarrow> u32 \<Rightarrow> bytes option" where
  "store24_at out i v =
     do {
       out \<leftarrow> store_at out i (ucast (v AND 0xFF));
       out \<leftarrow> store_at out (i + 1) (ucast (signed_drop_bit 8 v AND 0xFF));
       store_at out (i + 2) (ucast (signed_drop_bit 16 v AND 0xFF))
     }"

definition weighted_right :: "u32 \<Rightarrow> u32 \<Rightarrow> u8 \<Rightarrow> u8 \<Rightarrow> u32 option" where
  "weighted_right midright difference interlacing_shift interlacing_leftweight =
     (if 32 \<le> unat interlacing_shift then None
      else Some (midright -
             signed_drop_bit (unat interlacing_shift) (difference * ucast interlacing_leftweight)))"

text \<open>The 16-bit samples of one index; the loop over the frame.\<close>

definition unmix_16 :: "u8 \<Rightarrow> u8 \<Rightarrow> u32 \<Rightarrow> u32 \<Rightarrow> (u16 \<times> u16) option" where
  "unmix_16 interlacing_shift interlacing_leftweight a b =
     (if interlacing_leftweight \<noteq> 0 then
        do {
          r \<leftarrow> weighted_right a b interlacing_shift interlacing_leftweight;
          let right = (ucast r :: u16);
          let left = ucast (scast right + b);
          Some (left, right)
        }
      else Some (ucast a, ucast b))"

fun deinterlace_16_loop ::
    "u32 list \<Rightarrow> u32 list \<Rightarrow> int \<Rightarrow> u8 \<Rightarrow> u8 \<Rightarrow> nat \<Rightarrow> nat \<Rightarrow> bytes \<Rightarrow> bytes option" where
  "deinterlace_16_loop buffer_a buffer_b numch shift weight i 0 out = Some out"
| "deinterlace_16_loop buffer_a buffer_b numch shift weight i (Suc n) out =
     do {
       a \<leftarrow> load_at buffer_a (int i);
       b \<leftarrow> load_at buffer_b (int i);
       (left, right) \<leftarrow> unmix_16 shift weight a b;
       out \<leftarrow> store16_at out (int i * numch) left;
       out \<leftarrow> store16_at out (int i * numch + 1) right;
       deinterlace_16_loop buffer_a buffer_b numch shift weight (Suc i) n out
     }"

definition deinterlace_16 ::
    "u32 list \<Rightarrow> u32 list \<Rightarrow> bytes \<Rightarrow> int \<Rightarrow> int \<Rightarrow> u8 \<Rightarrow> u8 \<Rightarrow> bytes option" where
  "deinterlace_16 buffer_a buffer_b buffer_out numch numsamples interlacing_shift
     interlacing_leftweight =
     (if numsamples \<le> 0 then Some buffer_out
      else deinterlace_16_loop buffer_a buffer_b numch interlacing_shift
             interlacing_leftweight 0 (nat numsamples) buffer_out)"

text \<open>The 24-bit samples: the low bytes may have been stored uncompressed.\<close>

definition with_low_bytes :: "int \<Rightarrow> u32 list \<Rightarrow> int \<Rightarrow> u32 \<Rightarrow> u32 option" where
  "with_low_bytes uncompressed_bytes low i v =
     (if uncompressed_bytes \<noteq> 0 then
        do {
          l \<leftarrow> load_at low i;
          let mask = NOT (push_bit (nat (uncompressed_bytes * 8)) 0xFFFFFFFF);
          Some (push_bit (nat (uncompressed_bytes * 8)) v OR (l AND mask))
        }
      else Some v)"

definition unmix_24 :: "u8 \<Rightarrow> u8 \<Rightarrow> u32 \<Rightarrow> u32 \<Rightarrow> (u32 \<times> u32) option" where
  "unmix_24 interlacing_shift interlacing_leftweight a b =
     (if interlacing_leftweight \<noteq> 0 then
        do {
          right \<leftarrow> weighted_right a b interlacing_shift interlacing_leftweight;
          Some (right + b, right)
        }
      else Some (a, b))"

fun deinterlace_24_loop ::
    "u32 list \<Rightarrow> u32 list \<Rightarrow> int \<Rightarrow> u32 list \<Rightarrow> u32 list \<Rightarrow> int \<Rightarrow> u8 \<Rightarrow> u8 \<Rightarrow> nat \<Rightarrow> nat
       \<Rightarrow> bytes \<Rightarrow> bytes option" where
  "deinterlace_24_loop buffer_a buffer_b ub low_a low_b numch shift weight i 0 out = Some out"
| "deinterlace_24_loop buffer_a buffer_b ub low_a low_b numch shift weight i (Suc n) out =
     do {
       a \<leftarrow> load_at buffer_a (int i);
       b \<leftarrow> load_at buffer_b (int i);
       (left, right) \<leftarrow> unmix_24 shift weight a b;
       left \<leftarrow> with_low_bytes ub low_a (int i) left;
       right \<leftarrow> with_low_bytes ub low_b (int i) right;
       out \<leftarrow> store24_at out (int i * numch * 3) left;
       out \<leftarrow> store24_at out (int i * numch * 3 + 3) right;
       deinterlace_24_loop buffer_a buffer_b ub low_a low_b numch shift weight (Suc i) n out
     }"

definition deinterlace_24 ::
    "u32 list \<Rightarrow> u32 list \<Rightarrow> int \<Rightarrow> u32 list \<Rightarrow> u32 list \<Rightarrow> bytes \<Rightarrow> int \<Rightarrow> int \<Rightarrow> u8 \<Rightarrow> u8
       \<Rightarrow> bytes option" where
  "deinterlace_24 buffer_a buffer_b uncompressed_bytes low_a
     low_b buffer_out numch numsamples interlacing_shift
     interlacing_leftweight =
     (if numsamples \<le> 0 then Some buffer_out
      else deinterlace_24_loop buffer_a buffer_b uncompressed_bytes low_a
             low_b numch interlacing_shift interlacing_leftweight
             0 (nat numsamples) buffer_out)"

section \<open>The elements of a frame\<close>

record frame_head =
  outputsamples :: int
  outputsize :: int
  uncompressed_bytes :: int
  isnotcompressed :: bool

definition int_wrap :: "int \<Rightarrow> int" where
  "int_wrap i = sint (word_of_int i :: u32)"

definition read_head :: "alac_file \<Rightarrow> int \<Rightarrow> int \<Rightarrow> (frame_head \<times> alac_file) option" where
  "read_head alac outsamples outsize =
     do {
       (_, alac) \<leftarrow> readbits alac 4;
       (_, alac) \<leftarrow> readbits alac 12;
       (hassize, alac) \<leftarrow> readbits alac 1;
       (ub, alac) \<leftarrow> readbits alac 2;
       (notcomp, alac) \<leftarrow> readbits alac 1;
       if hassize \<noteq> 0 then
         do {
           (n, alac) \<leftarrow> readbits alac 32;
           Some (\<lparr>outputsamples = sint n,
                  outputsize = int_wrap (sint n * bytespersample alac),
                  uncompressed_bytes = sint ub, isnotcompressed = (notcomp \<noteq> 0)\<rparr>, alac)
         }
       else
         Some (\<lparr>outputsamples = outsamples, outputsize = outsize,
                uncompressed_bytes = sint ub, isnotcompressed = (notcomp \<noteq> 0)\<rparr>, alac)
     }"

record channel_params =
  prediction_type :: int
  prediction_quantitization :: int
  ricemodifier :: int
  predictor_coef_table :: "u16 list"

fun read_coefs :: "alac_file \<Rightarrow> nat \<Rightarrow> (u16 list \<times> alac_file) option" where
  "read_coefs alac 0 = Some ([], alac)"
| "read_coefs alac (Suc n) =
     do {
       (c, alac) \<leftarrow> readbits alac 16;
       (cs, alac) \<leftarrow> read_coefs alac n;
       Some (ucast c # cs, alac)
     }"

definition read_channel_params :: "alac_file \<Rightarrow> (channel_params \<times> alac_file) option" where
  "read_channel_params alac =
     do {
       (ptype, alac) \<leftarrow> readbits alac 4;
       (quant, alac) \<leftarrow> readbits alac 4;
       (rmod, alac) \<leftarrow> readbits alac 3;
       (num, alac) \<leftarrow> readbits alac 5;
       (table, alac) \<leftarrow> read_coefs alac (unat num);
       Some (\<lparr>prediction_type = sint ptype, prediction_quantitization = sint quant,
              ricemodifier = sint rmod, predictor_coef_table = table\<rparr>, alac)
     }"

text \<open>One channel: the entropy decoder fills the error buffer, the predictor the samples.\<close>

definition decode_channel ::
    "alac_file \<Rightarrow> u32 list \<Rightarrow> u32 list \<Rightarrow> int \<Rightarrow> int \<Rightarrow> channel_params
       \<Rightarrow> (u32 list \<times> u32 list \<times> alac_file) option" where
  "decode_channel alac err out outsamples readsamplesize cp =
     (if 32 \<le> unat (setinfo_rice_kmodifier alac) then None
      else do {
        (err, alac) \<leftarrow> entropy_rice_decode alac err outsamples readsamplesize
          (uint (setinfo_rice_initialhistory alac)) (uint (setinfo_rice_kmodifier alac))
          (cdiv (ricemodifier cp * uint (setinfo_rice_historymult alac)) 4)
          (push_bit (unat (setinfo_rice_kmodifier alac)) 1 - 1);
        if prediction_type cp = 0 then
          do {
            out \<leftarrow> predictor_decompress_fir_adapt err out outsamples readsamplesize
              (predictor_coef_table cp) (int (length (predictor_coef_table cp)))
              (prediction_quantitization cp);
            Some (err, out, alac)
          }
        else Some (err, out, alac)
      })"

text \<open>A sample that is stored as it is: up to 16 bits, or 16 bits and the rest.\<close>

definition read_raw_sample :: "alac_file \<Rightarrow> (u32 \<times> alac_file) option" where
  "read_raw_sample alac =
     (let size = uint (setinfo_sample_size alac) in
      if size \<le> 16 then
        do {
          (audiobits, alac) \<leftarrow> readbits alac size;
          audiobits \<leftarrow> SIGN_EXTENDED32 audiobits size;
          Some (audiobits, alac)
        }
      else
        do {
          (audiobits, alac) \<leftarrow> readbits alac 16;
          if 32 \<le> size - 16 then None
          else do {
            (low, alac) \<leftarrow> readbits alac (size - 16);
            audiobits \<leftarrow> SIGN_EXTENDED32 (push_bit (nat (size - 16)) audiobits OR low) 24;
            Some (audiobits, alac)
          }
        })"

subsection \<open>One channel\<close>

fun read_low_mono :: "alac_file \<Rightarrow> int \<Rightarrow> nat \<Rightarrow> nat \<Rightarrow> alac_file option" where
  "read_low_mono alac bits i 0 = Some alac"
| "read_low_mono alac bits i (Suc n) =
     do {
       (v, alac) \<leftarrow> readbits alac bits;
       low \<leftarrow> store_at (uncompressed_bytes_buffer_a alac) (int i) v;
       read_low_mono (alac\<lparr>uncompressed_bytes_buffer_a := low\<rparr>) bits (Suc i) n
     }"

fun read_raw_mono :: "alac_file \<Rightarrow> nat \<Rightarrow> nat \<Rightarrow> alac_file option" where
  "read_raw_mono alac i 0 = Some alac"
| "read_raw_mono alac i (Suc n) =
     do {
       (a, alac) \<leftarrow> read_raw_sample alac;
       buf_a \<leftarrow> store_at (outputsamples_buffer_a alac) (int i) a;
       read_raw_mono (alac\<lparr>outputsamples_buffer_a := buf_a\<rparr>) (Suc i) n
     }"

definition decode_mono_compressed :: "alac_file \<Rightarrow> frame_head \<Rightarrow> int \<Rightarrow> alac_file option" where
  "decode_mono_compressed alac h readsamplesize =
     do {
       (_, alac) \<leftarrow> readbits alac 8;
       (_, alac) \<leftarrow> readbits alac 8;
       (cp, alac) \<leftarrow> read_channel_params alac;
       alac \<leftarrow> (if uncompressed_bytes h \<noteq> 0
                then read_low_mono alac (uncompressed_bytes h * 8) 0 (nat (outputsamples h))
                else Some alac);
       (err, out, alac) \<leftarrow> decode_channel alac (predicterror_buffer_a alac)
          (outputsamples_buffer_a alac) (outputsamples h) readsamplesize cp;
       Some (alac\<lparr>predicterror_buffer_a := err, outputsamples_buffer_a := out\<rparr>)
     }"

fun mono_out_16 :: "u32 list \<Rightarrow> int \<Rightarrow> nat \<Rightarrow> nat \<Rightarrow> bytes \<Rightarrow> bytes option" where
  "mono_out_16 buf numch i 0 out = Some out"
| "mono_out_16 buf numch i (Suc n) out =
     do {
       s \<leftarrow> load_at buf (int i);
       out \<leftarrow> store16_at out (int i * numch) (ucast s);
       mono_out_16 buf numch (Suc i) n out
     }"

fun mono_out_24 :: "u32 list \<Rightarrow> int \<Rightarrow> u32 list \<Rightarrow> int \<Rightarrow> nat \<Rightarrow> nat \<Rightarrow> bytes \<Rightarrow> bytes option" where
  "mono_out_24 buf ub low numch i 0 out = Some out"
| "mono_out_24 buf ub low numch i (Suc n) out =
     do {
       s \<leftarrow> load_at buf (int i);
       s \<leftarrow> with_low_bytes ub low (int i) s;
       out \<leftarrow> store24_at out (int i * numch * 3) s;
       mono_out_24 buf ub low numch (Suc i) n out
     }"

definition decode_mono ::
    "alac_file \<Rightarrow> bytes \<Rightarrow> int \<Rightarrow> int \<Rightarrow> (alac_file \<times> bytes \<times> int) option" where
  "decode_mono alac outbuffer outsamples outsize =
     do {
       (h, alac) \<leftarrow> read_head alac outsamples outsize;
       let readsamplesize = uint (setinfo_sample_size alac) - uncompressed_bytes h * 8;
       (alac, ub) \<leftarrow>
         (if \<not> isnotcompressed h then
            do {
              alac \<leftarrow> decode_mono_compressed alac h readsamplesize;
              Some (alac, uncompressed_bytes h)
            }
          else
            do {
              alac \<leftarrow> read_raw_mono alac 0 (nat (outputsamples h));
              Some (alac, 0)
            });
       out \<leftarrow>
         (if setinfo_sample_size alac = 16
          then mono_out_16 (outputsamples_buffer_a alac) (numchannels alac) 0
                 (nat (outputsamples h)) outbuffer
          else if setinfo_sample_size alac = 24
          then mono_out_24 (outputsamples_buffer_a alac) ub (uncompressed_bytes_buffer_a alac)
                 (numchannels alac) 0 (nat (outputsamples h)) outbuffer
          else Some outbuffer);
       Some (alac, out, outputsize h)
     }"

subsection \<open>Two channels\<close>

fun read_low_stereo :: "alac_file \<Rightarrow> int \<Rightarrow> nat \<Rightarrow> nat \<Rightarrow> alac_file option" where
  "read_low_stereo alac bits i 0 = Some alac"
| "read_low_stereo alac bits i (Suc n) =
     do {
       (v, alac) \<leftarrow> readbits alac bits;
       low \<leftarrow> store_at (uncompressed_bytes_buffer_a alac) (int i) v;
       let alac = alac\<lparr>uncompressed_bytes_buffer_a := low\<rparr>;
       (w, alac) \<leftarrow> readbits alac bits;
       low \<leftarrow> store_at (uncompressed_bytes_buffer_b alac) (int i) w;
       read_low_stereo (alac\<lparr>uncompressed_bytes_buffer_b := low\<rparr>) bits (Suc i) n
     }"

text \<open>
  Up to 16 bits the two samples are read before either is sign extended; reading does not
  depend on the extension, so one sample at a time is the same.
\<close>

fun read_raw_stereo :: "alac_file \<Rightarrow> nat \<Rightarrow> nat \<Rightarrow> alac_file option" where
  "read_raw_stereo alac i 0 = Some alac"
| "read_raw_stereo alac i (Suc n) =
     do {
       (a, alac) \<leftarrow> read_raw_sample alac;
       (b, alac) \<leftarrow> read_raw_sample alac;
       buf_a \<leftarrow> store_at (outputsamples_buffer_a alac) (int i) a;
       buf_b \<leftarrow> store_at (outputsamples_buffer_b alac) (int i) b;
       read_raw_stereo (alac\<lparr>outputsamples_buffer_a := buf_a, outputsamples_buffer_b := buf_b\<rparr>)
         (Suc i) n
     }"

definition decode_stereo_compressed ::
    "alac_file \<Rightarrow> frame_head \<Rightarrow> int \<Rightarrow> (u8 \<times> u8 \<times> alac_file) option" where
  "decode_stereo_compressed alac h readsamplesize =
     do {
       (shift, alac) \<leftarrow> readbits alac 8;
       (weight, alac) \<leftarrow> readbits alac 8;
       (cp_a, alac) \<leftarrow> read_channel_params alac;
       (cp_b, alac) \<leftarrow> read_channel_params alac;
       alac \<leftarrow> (if uncompressed_bytes h \<noteq> 0
                then read_low_stereo alac (uncompressed_bytes h * 8) 0 (nat (outputsamples h))
                else Some alac);
       (err, out, alac) \<leftarrow> decode_channel alac (predicterror_buffer_a alac)
          (outputsamples_buffer_a alac) (outputsamples h) readsamplesize cp_a;
       let alac = alac\<lparr>predicterror_buffer_a := err, outputsamples_buffer_a := out\<rparr>;
       (err, out, alac) \<leftarrow> decode_channel alac (predicterror_buffer_b alac)
          (outputsamples_buffer_b alac) (outputsamples h) readsamplesize cp_b;
       let alac = alac\<lparr>predicterror_buffer_b := err, outputsamples_buffer_b := out\<rparr>;
       Some (ucast shift, ucast weight, alac)
     }"

definition decode_stereo ::
    "alac_file \<Rightarrow> bytes \<Rightarrow> int \<Rightarrow> int \<Rightarrow> (alac_file \<times> bytes \<times> int) option" where
  "decode_stereo alac outbuffer outsamples outsize =
     do {
       (h, alac) \<leftarrow> read_head alac outsamples outsize;
       let readsamplesize = uint (setinfo_sample_size alac) - uncompressed_bytes h * 8 + 1;
       (shift, weight, alac, ub) \<leftarrow>
         (if \<not> isnotcompressed h then
            do {
              (shift, weight, alac) \<leftarrow> decode_stereo_compressed alac h readsamplesize;
              Some (shift, weight, alac, uncompressed_bytes h)
            }
          else
            do {
              alac \<leftarrow> read_raw_stereo alac 0 (nat (outputsamples h));
              Some (0, 0, alac, 0)
            });
       out \<leftarrow>
         (if setinfo_sample_size alac = 16
          then deinterlace_16 (outputsamples_buffer_a alac) (outputsamples_buffer_b alac)
                 outbuffer (numchannels alac) (outputsamples h) shift weight
          else if setinfo_sample_size alac = 24
          then deinterlace_24 (outputsamples_buffer_a alac) (outputsamples_buffer_b alac) ub
                 (uncompressed_bytes_buffer_a alac) (uncompressed_bytes_buffer_b alac)
                 outbuffer (numchannels alac) (outputsamples h) shift weight
          else Some outbuffer);
       Some (alac, out, outputsize h)
     }"

section \<open>A frame\<close>

definition alac_decode_frame ::
    "alac_file \<Rightarrow> bytes \<Rightarrow> bytes \<Rightarrow> (alac_file \<times> bytes \<times> int) option" where
  "alac_decode_frame alac inbuffer outbuffer =
     do {
       let outsamples = sint (setinfo_max_samples_per_frame alac);
       let alac = alac\<lparr>input_buffer := inbuffer, input_pos := 0, input_buffer_bitaccumulator := 0\<rparr>;
       (channels, alac) \<leftarrow> readbits alac 3;
       let outsize = int_wrap (outsamples * bytespersample alac);
       if channels = 0 then decode_mono alac outbuffer outsamples outsize
       else if channels = 1 then decode_stereo alac outbuffer outsamples outsize
       else Some (alac, outbuffer, outsize)
     }"

end
