(* ===== verification/Alac_Lossless.thy ===== *)
theory Alac_Lossless
  imports Alac_Frame
begin

text \<open>
  A reference encoder for stereo frames of 16-bit samples, compressed and not, and the theorem
  that \<open>alac_decode_frame\<close> gives back its samples. The encoder mixes the channels, predicts,
  and Rice-codes the errors with the same adaptation as the decoder.
\<close>

unbundle bit_operations_syntax

section \<open>The encoder\<close>

text \<open>The bits of the fields of a frame.\<close>

definition params_bits :: "channel_params \<Rightarrow> bool list" where
  "params_bits cp =
     nat_bits 4 (nat (prediction_type cp)) @ nat_bits 4 (nat (prediction_quantitization cp)) @
     nat_bits 3 (nat (ricemodifier cp)) @ nat_bits 5 (length (predictor_coef_table cp)) @
     concat (map (\<lambda>c. nat_bits 16 (unat c)) (predictor_coef_table cp))"

definition params_ok :: "channel_params \<Rightarrow> bool" where
  "params_ok cp \<longleftrightarrow>
     prediction_type cp = 0 \<and> 0 \<le> prediction_quantitization cp \<and> prediction_quantitization cp < 16 \<and>
     0 \<le> ricemodifier cp \<and> ricemodifier cp < 8 \<and> length (predictor_coef_table cp) < 32"

definition head_bits :: "nat option \<Rightarrow> bool \<Rightarrow> bool list" where
  "head_bits nsize notcomp =
     nat_bits 4 0 @ nat_bits 12 0 @ nat_bits 1 (of_bool (nsize \<noteq> None)) @
     nat_bits 2 0 @ nat_bits 1 (of_bool notcomp) @
     (case nsize of None \<Rightarrow> [] | Some n \<Rightarrow> nat_bits 32 n)"

text \<open>Mixing: the middle and the difference, or the two channels as they are.\<close>

definition mix_16 :: "u8 \<Rightarrow> u8 \<Rightarrow> u16 \<times> u16 \<Rightarrow> u32 \<times> u32" where
  "mix_16 shift weight lr =
     (case lr of (l, r) \<Rightarrow>
       if weight \<noteq> 0 then
         let difference = scast l - scast r in
         (scast r + signed_drop_bit (unat shift) (difference * ucast weight), difference)
       else (scast l, scast r))"

text \<open>One channel: the errors of the predictor, Rice coded.\<close>

definition encode_channel :: "alac_file \<Rightarrow> nat \<Rightarrow> channel_params \<Rightarrow> u32 list \<Rightarrow> bool list option" where
  "encode_channel alac rss cp xs =
     (if params_ok cp \<and> list_all (fits (int rss)) xs \<and> unat (setinfo_rice_kmodifier alac) < 32 \<and>
         (let num = length (predictor_coef_table cp) in num = 0 \<or> num = 31 \<or> num < length xs)
      then do {
        es \<leftarrow> predictor_compress (int rss) (predictor_coef_table cp)
          (length (predictor_coef_table cp)) (prediction_quantitization cp) xs;
        rice_encode rss (uint (setinfo_rice_kmodifier alac))
          (cdiv (ricemodifier cp * uint (setinfo_rice_historymult alac)) 4)
          (push_bit (unat (setinfo_rice_kmodifier alac)) 1 - 1)
          (uint (setinfo_rice_initialhistory alac)) 0 (map sint es)
      }
      else None)"

definition encode_stereo ::
    "alac_file \<Rightarrow> nat option \<Rightarrow> u8 \<Rightarrow> u8 \<Rightarrow> channel_params \<Rightarrow> channel_params \<Rightarrow> (u16 \<times> u16) list
       \<Rightarrow> bool list option" where
  "encode_stereo alac nsize shift weight cp_a cp_b lrs =
     (if weight \<noteq> 0 \<and> 32 \<le> unat shift then None
      else do {
        bits_a \<leftarrow> encode_channel alac 17 cp_a (map (fst \<circ> mix_16 shift weight) lrs);
        bits_b \<leftarrow> encode_channel alac 17 cp_b (map (snd \<circ> mix_16 shift weight) lrs);
        Some (nat_bits 3 1 @ head_bits nsize False @ nat_bits 8 (unat shift) @ nat_bits 8 (unat weight) @
              params_bits cp_a @ params_bits cp_b @ bits_a @ bits_b)
      })"

definition encode_stereo_raw :: "nat option \<Rightarrow> (u16 \<times> u16) list \<Rightarrow> bool list" where
  "encode_stereo_raw nsize lrs =
     nat_bits 3 1 @ head_bits nsize True @
     concat (map (\<lambda>(l, r). nat_bits 16 (unat l) @ nat_bits 16 (unat r)) lrs)"

text \<open>The bytes that the frame should decode to.\<close>

definition interleaved :: "(u16 \<times> u16) list \<Rightarrow> bytes" where
  "interleaved lrs = concat (map (\<lambda>(l, r). store16 l @ store16 r) lrs)"

section \<open>Reading the fields back\<close>

lemma seek_sel [simp]:
  "numchannels (seek a n) = numchannels a" "bytespersample (seek a n) = bytespersample a"
  "predicterror_buffer_a (seek a n) = predicterror_buffer_a a"
  "predicterror_buffer_b (seek a n) = predicterror_buffer_b a"
  "uncompressed_bytes_buffer_a (seek a n) = uncompressed_bytes_buffer_a a"
  "uncompressed_bytes_buffer_b (seek a n) = uncompressed_bytes_buffer_b a"
  "outputsamples_buffer_a (seek a n) = outputsamples_buffer_a a"
  "outputsamples_buffer_b (seek a n) = outputsamples_buffer_b a"
  "setinfo_max_samples_per_frame (seek a n) = setinfo_max_samples_per_frame a"
  "setinfo_sample_size (seek a n) = setinfo_sample_size a"
  "setinfo_rice_historymult (seek a n) = setinfo_rice_historymult a"
  "setinfo_rice_initialhistory (seek a n) = setinfo_rice_initialhistory a"
  "setinfo_rice_kmodifier (seek a n) = setinfo_rice_kmodifier a"
  by (simp_all add: seek_def)

lemma seek_upd [simp]:
  "(seek a n)\<lparr>predicterror_buffer_a := x\<rparr> = seek (a\<lparr>predicterror_buffer_a := x\<rparr>) n"
  "(seek a n)\<lparr>predicterror_buffer_b := x\<rparr> = seek (a\<lparr>predicterror_buffer_b := x\<rparr>) n"
  "(seek a n)\<lparr>outputsamples_buffer_a := x\<rparr> = seek (a\<lparr>outputsamples_buffer_a := x\<rparr>) n"
  "(seek a n)\<lparr>outputsamples_buffer_b := x\<rparr> = seek (a\<lparr>outputsamples_buffer_b := x\<rparr>) n"
  by (simp_all add: seek_def)

lemma seek_start: "a\<lparr>input_buffer := b, input_pos := 0, input_buffer_bitaccumulator := 0\<rparr> =
    seek (a\<lparr>input_buffer := b\<rparr>) 0"
  by (simp add: seek_def)

lemma readbits_field:
  assumes "carries (input_buffer a) n (nat_bits k v)" "v < 2 ^ k" "k \<le> 32" "b = int k" "m = n + k"
    "m + 24 \<le> 8 * length (input_buffer a)"
  shows "readbits (seek a n) b = Some (of_nat v, seek a m)"
  using readbits_stream [of n k a] carries_nat_bits [OF assms(1)] assms
  by (simp add: take_bit_nat_eq_self)

lemma readbits_field_unat:
  assumes "carries (input_buffer a) n (nat_bits k (unat w))" "k = LENGTH('a :: len)" "k \<le> 32"
    "b = int k" "m = n + k" "m + 24 \<le> 8 * length (input_buffer a)"
  shows "readbits (seek a n) b = Some (ucast (w :: 'a word), seek a m)"
  using readbits_field [OF assms(1) _ assms(3-6)] assms(2) by simp

lemma ucast_up_down [simp]: "ucast (ucast (c :: u16) :: u32) = c" "ucast (ucast (b :: u8) :: u32) = b"
  by (rule bit_word_eqI; simp add: bit_simps)+

lemma read_coefs_carries:
  assumes "carries (input_buffer a) n (concat (map (\<lambda>c. nat_bits 16 (unat c)) cs))"
    "n + 16 * length cs + 24 \<le> 8 * length (input_buffer a)"
  shows "read_coefs (seek a n) (length cs) = Some (cs, seek a (n + 16 * length cs))"
  using assms
proof (induction cs arbitrary: n)
  case (Cons c cs)
  have "readbits (seek a n) 16 = Some (ucast c, seek a (n + 16))"
    using Cons.prems by (intro readbits_field_unat) (simp_all add: carries_append)
  moreover have "read_coefs (seek a (n + 16)) (length cs) = Some (cs, seek a (n + 16 + 16 * length cs))"
    using Cons.prems by (intro Cons.IH) (simp_all add: carries_append)
  ultimately show ?case by (simp add: add.assoc)
qed simp

lemma length_coef_bits: "length (concat (map (\<lambda>c. nat_bits 16 (f c)) cs)) = 16 * length cs"
  by (induction cs) simp_all

lemma read_channel_params_carries:
  assumes "carries (input_buffer a) n (params_bits cp)" "params_ok cp"
    "n + length (params_bits cp) + 24 \<le> 8 * length (input_buffer a)"
  shows "read_channel_params (seek a n) = Some (cp, seek a (n + length (params_bits cp)))"
proof -
  let ?cs = "predictor_coef_table cp" and ?len = "8 * length (input_buffer a)"
  have room: "n + 16 + 16 * length ?cs + 24 \<le> ?len"
    using assms(3) by (simp add: params_bits_def length_coef_bits)
  have c: "carries (input_buffer a) n (nat_bits 4 (nat (prediction_type cp)))"
    "carries (input_buffer a) (n + 4) (nat_bits 4 (nat (prediction_quantitization cp)))"
    "carries (input_buffer a) (n + 8) (nat_bits 3 (nat (ricemodifier cp)))"
    "carries (input_buffer a) (n + 11) (nat_bits 5 (length ?cs))"
    "carries (input_buffer a) (n + 16) (concat (map (\<lambda>c. nat_bits 16 (unat c)) ?cs))"
    using assms(1) by (simp_all add: params_bits_def carries_append ac_simps)
  have r: "readbits (seek a n) 4 = Some (of_nat (nat (prediction_type cp)), seek a (n + 4))"
    "readbits (seek a (n + 4)) 4 = Some (of_nat (nat (prediction_quantitization cp)), seek a (n + 8))"
    "readbits (seek a (n + 8)) 3 = Some (of_nat (nat (ricemodifier cp)), seek a (n + 11))"
    "readbits (seek a (n + 11)) 5 = Some (of_nat (length ?cs), seek a (n + 16))"
    using room assms(2)
    by (intro readbits_field [OF c(1)] readbits_field [OF c(2)] readbits_field [OF c(3)]
        readbits_field [OF c(4)]; simp add: params_ok_def nat_less_iff)+
  have cs: "read_coefs (seek a (n + 16)) (length ?cs) = Some (?cs, seek a (n + 16 + 16 * length ?cs))"
    by (rule read_coefs_carries [OF c(5) room])
  have s: "sint (of_nat (nat v) :: u32) = v" if "0 \<le> v" "v < 16" for v
  proof -
    have "unat (of_nat (nat v) :: u32) = nat v" using that by (intro unat_of_nat_small) simp
    then show ?thesis using that by (subst sint_small) simp_all
  qed
  have u: "unat (of_nat (length ?cs) :: u32) = length ?cs"
    using assms(2) by (intro unat_of_nat_small) (simp add: params_ok_def)
  show ?thesis
    using r cs u s [of "prediction_quantitization cp"] s [of "ricemodifier cp"] assms(2)
    by (simp add: read_channel_params_def params_ok_def params_bits_def length_coef_bits add.assoc)
qed


section \<open>One channel\<close>

text \<open>The encoder looks at the configuration only.\<close>

lemma encode_channel_upd [simp]:
  "encode_channel (a\<lparr>predicterror_buffer_a := x, outputsamples_buffer_a := y\<rparr>) = encode_channel a"
  "encode_channel (a\<lparr>input_buffer := b\<rparr>) = encode_channel a"
  by (intro ext, simp add: encode_channel_def)+

lemma decode_channel_encode:
  assumes enc: "encode_channel a rss cp xs = Some bs" and car: "carries (input_buffer a) n bs"
    and room: "n + length bs + 32 \<le> 8 * length (input_buffer a)"
    and rss: "1 \<le> rss" "rss \<le> 30" and xs: "xs \<noteq> []" "length xs < 2 ^ 16"
    and len: "length xs \<le> length err" "length xs \<le> length out"
  shows "\<exists>err'. decode_channel (seek a n) err out (int (length xs)) (int rss) cp =
    Some (err', xs @ drop (length xs) out, seek a (n + length bs)) \<and> length err' = length err"
proof -
  let ?num = "length (predictor_coef_table cp)"
  let ?km = "uint (setinfo_rice_kmodifier a)"
  let ?hm = "cdiv (ricemodifier cp * uint (setinfo_rice_historymult a)) 4"
  let ?mm = "push_bit (unat (setinfo_rice_kmodifier a)) 1 - 1"
  let ?h = "word_of_int (uint (setinfo_rice_initialhistory a))"
  obtain es where ok: "params_ok cp" "list_all (fits (int rss)) xs" "unat (setinfo_rice_kmodifier a) < 32"
      "?num = 0 \<or> ?num = 31 \<or> ?num < length xs"
    and es: "predictor_compress (int rss) (predictor_coef_table cp) ?num
      (prediction_quantitization cp) xs = Some es"
    and bs: "rice_encode rss ?km ?hm ?mm (uint (setinfo_rice_initialhistory a)) 0 (map sint es) = Some bs"
    using enc by (auto simp: encode_channel_def Let_def bind_eq_Some_conv split: if_splits)
  have les: "length es = length xs" by (rule predictor_compress_length [OF es xs(1) ok(4)])
  have h: "uint (setinfo_rice_initialhistory a) = sint (?h :: u32)"
    unfolding sint_of_int_32 using uint_bounded [of "setinfo_rice_initialhistory a"] by (simp add: wrap_def)
  have "rice_loop (seek a n) ([] @ err) (int (length ([] :: u32 list) + length (map sint es)))
      (int rss) ?km ?hm ?mm ?h (of_nat 0) (int (length ([] :: u32 list))) =
    Some ([] @ map word_of_int (map sint es) @ drop (length (map sint es)) err, seek a (n + length bs))"
    using rss xs(2) len(1) les h by (intro rice_loop_encode [OF bs car room]) simp_all
  then have ent: "entropy_rice_decode (seek a n) err (int (length xs)) (int rss)
      (uint (setinfo_rice_initialhistory a)) ?km ?hm ?mm =
    Some (es @ drop (length xs) err, seek a (n + length bs))"
    by (simp add: entropy_rice_decode_def les comp_def)
  have pre: "predictor_decompress_fir_adapt (es @ drop (length xs) err) out (int (length xs)) (int rss)
      (predictor_coef_table cp) (int ?num) (prediction_quantitization cp) =
    Some (xs @ drop (length xs) out)"
    using rss ok xs len by (intro predictor_decompress_compress [OF es]) simp_all
  show ?thesis
    using ent pre ok les len(1)
    by (intro exI [of _ "es @ drop (length xs) err"]) (simp add: decode_channel_def params_ok_def)
qed

section \<open>The output\<close>

lemma unmix_mix:
  assumes "weight = 0 \<or> unat shift < 32"
  shows "unmix_16 shift weight (fst (mix_16 shift weight (l, r))) (snd (mix_16 shift weight (l, r))) =
    Some (l, r)"
proof -
  have sc: "ucast (scast (v :: u16) :: u32) = v" for v by (rule bit_word_eqI) (simp add: bit_simps)
  show ?thesis using assms
    by (auto simp: unmix_16_def mix_16_def weighted_right_def Let_def sc)
qed

lemma store16_next:
  assumes "length pre = 2 * j" "2 \<le> length post" "i = int j"
  shows "store16_at (pre @ post) i v = Some (pre @ store16 v @ drop 2 post)"
proof -
  obtain x y ps where post: "post = x # y # ps"
    using assms(2) by (cases post; cases "tl post") auto
  have "store_at (pre @ post) (2 * i) (ucast v) = Some ((pre @ [ucast v]) @ y # ps)"
    using store_at_nat [of "2 * j" "pre @ post" "ucast v"] assms post by (simp add: list_update_append)
  moreover have "store_at ((pre @ [ucast v]) @ y # ps) (2 * i + 1) (ucast (drop_bit 8 v)) =
      Some (pre @ ucast v # ucast (drop_bit 8 v) # ps)"
    using store_at_nat [of "2 * j + 1" "(pre @ [ucast v]) @ y # ps" "ucast (drop_bit 8 v)"] assms
    by (simp add: list_update_append add.commute)
  ultimately show ?thesis by (simp add: store16_at_def store16_def post)
qed

lemma length_interleaved [simp]: "length (interleaved lrs) = 4 * length lrs"
  by (induction lrs) (auto simp: interleaved_def store16_def)

lemma deinterlace_loop_mix:
  assumes "\<And>j. j < length lrs \<Longrightarrow> i + j < length as \<and> as ! (i + j) = fst (mix_16 shift weight (lrs ! j))"
    "\<And>j. j < length lrs \<Longrightarrow> i + j < length bs \<and> bs ! (i + j) = snd (mix_16 shift weight (lrs ! j))"
    "weight = 0 \<or> unat shift < 32" "length pre = 4 * i" "4 * length lrs \<le> length post"
  shows "deinterlace_16_loop as bs 2 shift weight i (length lrs) (pre @ post) =
    Some (pre @ interleaved lrs @ drop (4 * length lrs) post)"
  using assms
proof (induction lrs arbitrary: i pre post)
  case Nil
  then show ?case by (simp add: interleaved_def)
next
  case (Cons lr lrs)
  obtain l r where lr: "lr = (l, r)" by fastforce
  have ld: "load_at as (int i) = Some (fst (mix_16 shift weight (l, r)))"
    "load_at bs (int i) = Some (snd (mix_16 shift weight (l, r)))"
    using Cons.prems(1) [of 0] Cons.prems(2) [of 0] lr by simp_all
  have s1: "store16_at (pre @ post) (int i * 2) l = Some (pre @ store16 l @ drop 2 post)"
    using Cons.prems(4,5) by (intro store16_next [of _ "2 * i"]) simp_all
  have s2: "store16_at (pre @ store16 l @ drop 2 post) (int i * 2 + 1) r =
      Some ((pre @ store16 l @ store16 r) @ drop 4 post)"
    using store16_next [of "pre @ store16 l" "2 * i + 1" "drop 2 post" "int i * 2 + 1" r] Cons.prems(4,5)
    by (simp add: store16_def)
  have "deinterlace_16_loop as bs 2 shift weight (Suc i) (length lrs)
      ((pre @ store16 l @ store16 r) @ drop 4 post) =
    Some ((pre @ store16 l @ store16 r) @ interleaved lrs @ drop (4 * length lrs) (drop 4 post))"
  proof (rule Cons.IH)
    fix j assume "j < length lrs"
    then show "Suc i + j < length as \<and> as ! (Suc i + j) = fst (mix_16 shift weight (lrs ! j))"
      "Suc i + j < length bs \<and> bs ! (Suc i + j) = snd (mix_16 shift weight (lrs ! j))"
      using Cons.prems(1,2) [of "Suc j"] by simp_all
  qed (use Cons.prems in \<open>simp_all add: store16_def\<close>)
  then show ?case
    using ld s1 s2 unmix_mix [OF Cons.prems(3), of l r]
    by (simp add: lr interleaved_def add.commute)
qed


section \<open>A frame\<close>

text \<open>
  A decoder configured for stereo frames of 16-bit samples, with room for \<open>n\<close> of them in all its
  buffers, and with the parameters \<open>rice\<close> of the entropy coder: the multiplier of the history, its
  first value and the limit of \<open>k\<close>. The size field of a frame may be left out when it has the
  configured number of samples.
\<close>

definition decoder_ok :: "alac_file \<Rightarrow> nat \<Rightarrow> u8 \<times> u8 \<times> u8 \<Rightarrow> bool" where
  "decoder_ok a n rice \<longleftrightarrow>
     setinfo_sample_size a = 16 \<and> numchannels a = 2 \<and> bytespersample a = 4 \<and>
     unat (setinfo_max_samples_per_frame a) = n \<and>
     length (predicterror_buffer_a a) = n \<and> length (predicterror_buffer_b a) = n \<and>
     length (outputsamples_buffer_a a) = n \<and> length (outputsamples_buffer_b a) = n \<and>
     length (uncompressed_bytes_buffer_a a) = n \<and> length (uncompressed_bytes_buffer_b a) = n \<and>
     rice = (setinfo_rice_historymult a, setinfo_rice_initialhistory a, setinfo_rice_kmodifier a)"

definition size_ok :: "nat \<Rightarrow> nat option \<Rightarrow> nat \<Rightarrow> bool" where
  "size_ok cap nsize n \<longleftrightarrow>
     0 < n \<and> n \<le> cap \<and> cap < 2 ^ 16 \<and> (case nsize of None \<Rightarrow> n = cap | Some k \<Rightarrow> k = n)"

lemma sint_of_nat_small: "k < 2 ^ 31 \<Longrightarrow> sint (of_nat k :: u32) = int k"
proof -
  assume k: "k < 2 ^ 31"
  then have "unat (of_nat k :: u32) = k" by (intro unat_of_nat_small) simp
  then show ?thesis using k by (subst sint_small) simp_all
qed

lemma int_wrap_small: "k < 2 ^ 31 \<Longrightarrow> int_wrap (int k) = int k"
  using sint_of_nat_small [of k] by (simp add: int_wrap_def)

lemma read_head_carries:
  assumes "carries (input_buffer a) n (head_bits nsize nc)"
    "n + length (head_bits nsize nc) + 24 \<le> 8 * length (input_buffer a)"
    "case nsize of None \<Rightarrow> True | Some k \<Rightarrow> k < 2 ^ 31"
  shows "read_head (seek a n) outs osize = Some
    (\<lparr>outputsamples = (case nsize of None \<Rightarrow> outs | Some k \<Rightarrow> int k),
      outputsize = (case nsize of None \<Rightarrow> osize | Some k \<Rightarrow> int_wrap (int k * bytespersample a)),
      uncompressed_bytes = 0, isnotcompressed = nc\<rparr>, seek a (n + length (head_bits nsize nc)))"
proof -
  have room: "n + 20 + 24 \<le> 8 * length (input_buffer a)"
    using assms(2) by (simp add: head_bits_def split: option.splits)
  have c: "carries (input_buffer a) n (nat_bits 4 0)"
    "carries (input_buffer a) (n + 4) (nat_bits 12 0)"
    "carries (input_buffer a) (n + 16) (nat_bits 1 (of_bool (nsize \<noteq> None)))"
    "carries (input_buffer a) (n + 17) (nat_bits 2 0)"
    "carries (input_buffer a) (n + 19) (nat_bits 1 (of_bool nc))"
    "carries (input_buffer a) (n + 20) (case nsize of None \<Rightarrow> [] | Some k \<Rightarrow> nat_bits 32 k)"
    using assms(1) by (simp_all add: head_bits_def carries_append ac_simps)
  have r: "readbits (seek a n) 4 = Some (of_nat 0, seek a (n + 4))"
    "readbits (seek a (n + 4)) 12 = Some (of_nat 0, seek a (n + 16))"
    "readbits (seek a (n + 16)) 1 = Some (of_nat (of_bool (nsize \<noteq> None)), seek a (n + 17))"
    "readbits (seek a (n + 17)) 2 = Some (of_nat 0, seek a (n + 19))"
    "readbits (seek a (n + 19)) 1 = Some (of_nat (of_bool nc), seek a (n + 20))"
    using room by (intro readbits_field [OF c(1)] readbits_field [OF c(2)] readbits_field [OF c(3)]
        readbits_field [OF c(4)] readbits_field [OF c(5)]; simp)+
  show ?thesis
  proof (cases nsize)
    case None
    then show ?thesis using r by (simp add: read_head_def head_bits_def)
  next
    case (Some k)
    have "readbits (seek a (n + 20)) 32 = Some (of_nat k, seek a (n + 52))"
      using assms c(6) Some by (intro readbits_field) (simp_all add: head_bits_def)
    then show ?thesis using r Some assms(3) sint_of_nat_small [of k] by (simp add: read_head_def head_bits_def)
  qed
qed

lemma decode_stereo_compressed_encode:
  assumes enc: "encode_channel a 17 cp_a (map (fst \<circ> mix_16 shift weight) lrs) = Some bits_a"
      "encode_channel a 17 cp_b (map (snd \<circ> mix_16 shift weight) lrs) = Some bits_b"
    and ok: "decoder_ok a cap rice" "lrs \<noteq> []" "length lrs \<le> cap" "cap < 2 ^ 16"
    and h: "uncompressed_bytes h = 0" "outputsamples h = int (length lrs)"
    and car: "carries (input_buffer a) n (nat_bits 8 (unat shift) @ nat_bits 8 (unat weight) @
      params_bits cp_a @ params_bits cp_b @ bits_a @ bits_b)"
    and room: "n + 16 + length (params_bits cp_a) + length (params_bits cp_b) + length bits_a +
      length bits_b + 32 \<le> 8 * length (input_buffer a)"
  shows "\<exists>a'. decode_stereo_compressed (seek a n) h 17 = Some (shift, weight, a') \<and>
    decoder_ok a' cap rice \<and>
    take (length lrs) (outputsamples_buffer_a a') = map (fst \<circ> mix_16 shift weight) lrs \<and>
    take (length lrs) (outputsamples_buffer_b a') = map (snd \<circ> mix_16 shift weight) lrs"
proof -
  let ?as = "map (fst \<circ> mix_16 shift weight) lrs" and ?bs = "map (snd \<circ> mix_16 shift weight) lrs"
  let ?n1 = "n + 16 + length (params_bits cp_a)"
  let ?n2 = "?n1 + length (params_bits cp_b)"
  let ?n3 = "?n2 + length bits_a"
  have pok: "params_ok cp_a" "params_ok cp_b"
    using enc by (auto simp: encode_channel_def split: if_splits)
  have c: "carries (input_buffer a) n (nat_bits 8 (unat shift))"
    "carries (input_buffer a) (n + 8) (nat_bits 8 (unat weight))"
    "carries (input_buffer a) (n + 16) (params_bits cp_a)"
    "carries (input_buffer a) ?n1 (params_bits cp_b)"
    "carries (input_buffer a) ?n2 bits_a" "carries (input_buffer a) ?n3 bits_b"
    using car by (simp_all add: carries_append ac_simps)
  have r: "readbits (seek a n) 8 = Some (ucast shift, seek a (n + 8))"
    "readbits (seek a (n + 8)) 8 = Some (ucast weight, seek a (n + 16))"
    using room by (intro readbits_field_unat [OF c(1)] readbits_field_unat [OF c(2)]; simp)+
  have p: "read_channel_params (seek a (n + 16)) = Some (cp_a, seek a ?n1)"
    "read_channel_params (seek a ?n1) = Some (cp_b, seek a ?n2)"
    using room by (intro read_channel_params_carries c pok; simp)+
  obtain err_a where ra: "decode_channel (seek a ?n2) (predicterror_buffer_a a) (outputsamples_buffer_a a)
      (int (length ?as)) (int 17) cp_a =
      Some (err_a, ?as @ drop (length ?as) (outputsamples_buffer_a a), seek a ?n3)"
    and la: "length err_a = cap"
    using decode_channel_encode [OF enc(1) c(5), of "predicterror_buffer_a a" "outputsamples_buffer_a a"]
      room ok by (auto simp: decoder_ok_def)
  let ?a = "a\<lparr>predicterror_buffer_a := err_a,
    outputsamples_buffer_a := ?as @ drop (length ?as) (outputsamples_buffer_a a)\<rparr>"
  have enc_b: "encode_channel ?a 17 cp_b ?bs = Some bits_b"
    using enc(2) by simp
  obtain err_b where rb: "decode_channel (seek ?a ?n3) (predicterror_buffer_b a) (outputsamples_buffer_b a)
      (int (length ?bs)) (int 17) cp_b =
      Some (err_b, ?bs @ drop (length ?bs) (outputsamples_buffer_b a), seek ?a (?n3 + length bits_b))"
    and lb: "length err_b = cap"
    using decode_channel_encode [OF enc_b, of ?n3 "predicterror_buffer_b a" "outputsamples_buffer_b a"]
      room ok c(6) by (auto simp: decoder_ok_def)
  show ?thesis
    using r p ra rb la lb ok h
    by (simp add: decode_stereo_compressed_def Let_def decoder_ok_def)
qed


lemma nth_of_take: "take n xs = ys \<Longrightarrow> n = length ys \<Longrightarrow> j < n \<Longrightarrow> j < length xs \<and> xs ! j = ys ! j"
  by (metis length_take min_less_iff_conj nth_take)

lemma deinterlace_mix:
  assumes "take (length lrs) as = map (fst \<circ> mix_16 shift weight) lrs"
    "take (length lrs) bs = map (snd \<circ> mix_16 shift weight) lrs"
    "weight = 0 \<or> unat shift < 32" "4 * length lrs \<le> length out" "lrs \<noteq> []"
  shows "deinterlace_16 as bs out 2 (int (length lrs)) shift weight =
    Some (interleaved lrs @ drop (4 * length lrs) out)"
proof -
  have "deinterlace_16_loop as bs 2 shift weight 0 (length lrs) ([] @ out) =
      Some ([] @ interleaved lrs @ drop (4 * length lrs) out)"
    using assms nth_of_take [OF assms(1)] nth_of_take [OF assms(2)]
    by (intro deinterlace_loop_mix) simp_all
  then show ?thesis using assms(5) by (simp add: deinterlace_16_def)
qed

lemma decode_frame_stereo:
  assumes enc: "encode_stereo a nsize shift weight cp_a cp_b lrs = Some bits"
    and car: "carries pkt 0 bits" and room: "length bits + 32 \<le> 8 * length pkt"
    and ok: "decoder_ok a cap rice" "size_ok cap nsize (length lrs)" and out: "4 * length lrs \<le> length out"
  shows "\<exists>a'. alac_decode_frame a pkt out =
      Some (a', interleaved lrs @ drop (4 * length lrs) out, 4 * int (length lrs)) \<and> decoder_ok a' cap rice"
proof -
  obtain bits_a bits_b where enc_a: "encode_channel a 17 cp_a (map (fst \<circ> mix_16 shift weight) lrs) = Some bits_a"
    and enc_b: "encode_channel a 17 cp_b (map (snd \<circ> mix_16 shift weight) lrs) = Some bits_b"
    and bits: "bits = nat_bits 3 1 @ head_bits nsize False @ nat_bits 8 (unat shift) @
      nat_bits 8 (unat weight) @ params_bits cp_a @ params_bits cp_b @ bits_a @ bits_b"
    and sw: "weight = 0 \<or> unat shift < 32"
    using enc by (auto simp: encode_stereo_def bind_eq_Some_conv split: if_splits)
  let ?a = "a\<lparr>input_buffer := pkt\<rparr>" and ?hl = "length (head_bits nsize False)"
  have sz: "0 < length lrs" "length lrs \<le> cap" "cap < 2 ^ 16"
    "case nsize of None \<Rightarrow> length lrs = cap | Some k \<Rightarrow> k = length lrs"
    using ok(2) by (auto simp: size_ok_def)
  have c: "carries (input_buffer ?a) 0 (nat_bits 3 1)" "carries (input_buffer ?a) 3 (head_bits nsize False)"
    "carries (input_buffer ?a) (3 + ?hl) (nat_bits 8 (unat shift) @
      nat_bits 8 (unat weight) @ params_bits cp_a @ params_bits cp_b @ bits_a @ bits_b)"
    using car by (simp_all add: bits carries_append ac_simps)
  have r3: "readbits (seek ?a 0) 3 = Some (of_nat 1, seek ?a 3)"
    using room by (intro readbits_field [OF c(1)]) (simp_all add: bits)
  have w: "int_wrap (int (length lrs) * 4) = 4 * int (length lrs)"
    using int_wrap_small [of "4 * length lrs"] sz by (simp add: mult.commute)
  have mx: "sint (setinfo_max_samples_per_frame a) = int cap"
    using ok(1) sz(3) by (subst sint_small) (simp_all add: decoder_ok_def)
  have h: "read_head (seek ?a 3) (int cap) (int_wrap (int cap * 4)) = Some
      (\<lparr>outputsamples = int (length lrs), outputsize = 4 * int (length lrs),
        uncompressed_bytes = 0, isnotcompressed = False\<rparr>, seek ?a (3 + ?hl))"
    using read_head_carries [OF c(2)] room sz w ok(1)
    by (auto simp: bits decoder_ok_def split: option.splits)
  obtain a' where a': "decode_stereo_compressed (seek ?a (3 + ?hl))
      \<lparr>outputsamples = int (length lrs), outputsize = 4 * int (length lrs),
        uncompressed_bytes = 0, isnotcompressed = False\<rparr> 17 = Some (shift, weight, a')"
    "decoder_ok a' cap rice"
    "take (length lrs) (outputsamples_buffer_a a') = map (fst \<circ> mix_16 shift weight) lrs"
    "take (length lrs) (outputsamples_buffer_b a') = map (snd \<circ> mix_16 shift weight) lrs"
    using decode_stereo_compressed_encode [OF _ _ _ _ _ sz(3) _ _ c(3), of lrs rice
        "\<lparr>outputsamples = int (length lrs), outputsize = 4 * int (length lrs),
          uncompressed_bytes = 0, isnotcompressed = False\<rparr>"] enc_a enc_b ok(1) sz room
    by (auto simp: bits decoder_ok_def)
  have d: "deinterlace_16 (outputsamples_buffer_a a') (outputsamples_buffer_b a') out 2
      (int (length lrs)) shift weight = Some (interleaved lrs @ drop (4 * length lrs) out)"
    using a' sw out sz(1) by (intro deinterlace_mix) auto
  have da: "setinfo_sample_size a = 16" "bytespersample a = 4" "numchannels a = 2"
    "setinfo_sample_size a' = 16" "numchannels a' = 2"
    using ok(1) a'(2) by (simp_all add: decoder_ok_def)
  show ?thesis
    using r3 h a'(1,2) d
    by (simp add: alac_decode_frame_def Let_def seek_start mx da decode_stereo_def)
qed


text \<open>What the encoder needs of the decoder is its \<open>rice\<close>.\<close>

lemma encode_stereo_same:
  assumes "decoder_ok a cap rice" "decoder_ok b cap' rice"
  shows "encode_stereo a = encode_stereo b"
proof -
  have "encode_channel a = encode_channel b"
    using assms by (intro ext) (simp add: encode_channel_def decoder_ok_def)
  then show ?thesis by (intro ext) (simp add: encode_stereo_def)
qed

section \<open>A frame that is not compressed\<close>

lemma sign_extend_16: "SIGN_EXTENDED32 (ucast (l :: u16)) 16 = Some (scast l)"
proof -
  have "signed_take_bit 15 (ucast l :: u32) = scast l"
    by (rule bit_word_eqI) (auto simp: bit_simps bit_signed_take_bit_iff min_def)
  then show ?thesis using SIGN_EXTENDED32_take_bit [of 16 "ucast l"] by simp
qed

lemma read_raw_sample_carries:
  assumes "carries (input_buffer a) n (nat_bits 16 (unat (l :: u16)))" "setinfo_sample_size a = 16"
    "n + 16 + 24 \<le> 8 * length (input_buffer a)"
  shows "read_raw_sample (seek a n) = Some (scast l, seek a (n + 16))"
  using readbits_field_unat [OF assms(1), of 16 "n + 16"] assms(2,3)
  by (simp add: read_raw_sample_def sign_extend_16)

definition raw_bits :: "(u16 \<times> u16) list \<Rightarrow> bool list" where
  "raw_bits lrs = concat (map (\<lambda>(l, r). nat_bits 16 (unat l) @ nat_bits 16 (unat r)) lrs)"

lemma length_raw_bits: "length (raw_bits lrs) = 32 * length lrs"
  by (induction lrs) (auto simp: raw_bits_def)

lemma take_extend:
  assumes "take i xs = map f (take i ys)" "i < length xs" "i < length ys"
  shows "take (Suc i) (xs[i := f (ys ! i)]) = map f (take (Suc i) ys)"
  using assms by (simp add: take_Suc_conv_app_nth)

lemma read_raw_stereo_carries:
  assumes "carries (input_buffer a) n (raw_bits (drop i lrs))" "i + k = length lrs"
    "n + 32 * k + 32 \<le> 8 * length (input_buffer a)"
    "decoder_ok a cap rice" "length lrs \<le> cap"
    "take i (outputsamples_buffer_a a) = map (scast \<circ> fst) (take i lrs)"
    "take i (outputsamples_buffer_b a) = map (scast \<circ> snd) (take i lrs)"
  shows "\<exists>a'. read_raw_stereo (seek a n) i k = Some a' \<and> decoder_ok a' cap rice \<and>
    take (length lrs) (outputsamples_buffer_a a') = map (scast \<circ> fst) lrs \<and>
    take (length lrs) (outputsamples_buffer_b a') = map (scast \<circ> snd) lrs"
  using assms
proof (induction k arbitrary: a n i)
  case 0
  then show ?case by (auto simp: decoder_ok_def)
next
  case (Suc k)
  obtain l r where lr: "lrs ! i = (l, r)" by fastforce
  have i: "i < length lrs" using Suc.prems(2) by simp
  have dr: "drop i lrs = (l, r) # drop (Suc i) lrs" using i lr by (simp flip: Cons_nth_drop_Suc)
  have c: "carries (input_buffer a) n (nat_bits 16 (unat l))"
    "carries (input_buffer a) (n + 16) (nat_bits 16 (unat r))"
    "carries (input_buffer a) (n + 32) (raw_bits (drop (Suc i) lrs))"
    using Suc.prems(1) by (simp_all add: dr raw_bits_def carries_append ac_simps)
  have ok: "setinfo_sample_size a = 16" "length (outputsamples_buffer_a a) = cap"
    "length (outputsamples_buffer_b a) = cap"
    using Suc.prems(4) by (simp_all add: decoder_ok_def)
  have r: "read_raw_sample (seek a n) = Some (scast l, seek a (n + 16))"
    "read_raw_sample (seek a (n + 16)) = Some (scast r, seek a (n + 32))"
    using read_raw_sample_carries [OF c(1) ok(1)] read_raw_sample_carries [OF c(2) ok(1)] Suc.prems(3)
    by (simp_all add: add.commute [of 32])
  let ?a = "a\<lparr>outputsamples_buffer_a := (outputsamples_buffer_a a)[i := scast l],
    outputsamples_buffer_b := (outputsamples_buffer_b a)[i := scast r]\<rparr>"
  have "\<exists>a'. read_raw_stereo (seek ?a (n + 32)) (Suc i) k = Some a' \<and> decoder_ok a' cap rice \<and>
    take (length lrs) (outputsamples_buffer_a a') = map (scast \<circ> fst) lrs \<and>
    take (length lrs) (outputsamples_buffer_b a') = map (scast \<circ> snd) lrs"
  proof (rule Suc.IH)
    show "take (Suc i) (outputsamples_buffer_a ?a) = map (scast \<circ> fst) (take (Suc i) lrs)"
      "take (Suc i) (outputsamples_buffer_b ?a) = map (scast \<circ> snd) (take (Suc i) lrs)"
      using take_extend [OF Suc.prems(6)] take_extend [OF Suc.prems(7)] ok i Suc.prems(5)
      by (simp_all add: lr)
  qed (use Suc.prems c(3) in \<open>simp_all add: decoder_ok_def\<close>)
  then show ?case using r ok i Suc.prems(5) by (simp add: comp_def)
qed

lemma decode_frame_stereo_raw:
  assumes car: "carries pkt 0 (encode_stereo_raw nsize lrs)"
    and room: "length (encode_stereo_raw nsize lrs) + 32 \<le> 8 * length pkt"
    and ok: "decoder_ok a cap rice" "size_ok cap nsize (length lrs)" and out: "4 * length lrs \<le> length out"
  shows "\<exists>a'. alac_decode_frame a pkt out =
      Some (a', interleaved lrs @ drop (4 * length lrs) out, 4 * int (length lrs)) \<and> decoder_ok a' cap rice"
proof -
  let ?a = "a\<lparr>input_buffer := pkt\<rparr>" and ?hl = "length (head_bits nsize True)"
  have enc: "encode_stereo_raw nsize lrs = nat_bits 3 1 @ head_bits nsize True @ raw_bits (drop 0 lrs)"
    by (simp add: encode_stereo_raw_def raw_bits_def)
  have sz: "0 < length lrs" "length lrs \<le> cap" "cap < 2 ^ 16"
    "case nsize of None \<Rightarrow> length lrs = cap | Some k \<Rightarrow> k = length lrs"
    using ok(2) by (auto simp: size_ok_def)
  have c: "carries (input_buffer ?a) 0 (nat_bits 3 1)" "carries (input_buffer ?a) 3 (head_bits nsize True)"
    "carries (input_buffer ?a) (3 + ?hl) (raw_bits (drop 0 lrs))"
    using car unfolding enc by (simp_all add: carries_append ac_simps)
  have lr: "3 + ?hl + 32 * length lrs + 32 \<le> 8 * length pkt"
    using room unfolding enc by (simp add: length_raw_bits)
  have r3: "readbits (seek ?a 0) 3 = Some (of_nat 1, seek ?a 3)"
    using lr by (intro readbits_field [OF c(1)]) simp_all
  have w: "int_wrap (int (length lrs) * 4) = 4 * int (length lrs)"
    using int_wrap_small [of "4 * length lrs"] sz by (simp add: mult.commute)
  have mx: "sint (setinfo_max_samples_per_frame a) = int cap"
    using ok(1) sz(3) by (subst sint_small) (simp_all add: decoder_ok_def)
  have h: "read_head (seek ?a 3) (int cap) (int_wrap (int cap * 4)) = Some
      (\<lparr>outputsamples = int (length lrs), outputsize = 4 * int (length lrs),
        uncompressed_bytes = 0, isnotcompressed = True\<rparr>, seek ?a (3 + ?hl))"
    using read_head_carries [OF c(2)] lr sz w ok(1)
    by (auto simp: decoder_ok_def split: option.splits)
  obtain a' where a': "read_raw_stereo (seek ?a (3 + ?hl)) 0 (length lrs) = Some a'" "decoder_ok a' cap rice"
    "take (length lrs) (outputsamples_buffer_a a') = map (scast \<circ> fst) lrs"
    "take (length lrs) (outputsamples_buffer_b a') = map (scast \<circ> snd) lrs"
    using read_raw_stereo_carries [OF c(3), of "length lrs" cap rice] lr ok(1) sz by (auto simp: decoder_ok_def)
  have m: "fst \<circ> mix_16 0 0 = scast \<circ> fst" "snd \<circ> mix_16 0 0 = scast \<circ> snd"
    by (auto simp: mix_16_def split: prod.splits)
  have d: "deinterlace_16 (outputsamples_buffer_a a') (outputsamples_buffer_b a') out 2
      (int (length lrs)) 0 0 = Some (interleaved lrs @ drop (4 * length lrs) out)"
    using a' out sz(1) by (intro deinterlace_mix) (auto simp: m)
  have da: "setinfo_sample_size a = 16" "bytespersample a = 4" "numchannels a = 2"
    "setinfo_sample_size a' = 16" "numchannels a' = 2"
    using ok(1) a'(2) by (simp_all add: decoder_ok_def)
  show ?thesis
    using r3 h a'(1,2) d
    by (simp add: alac_decode_frame_def Let_def seek_start mx da decode_stereo_def)
qed

section \<open>Properties\<close>

text \<open>A decoder for stereo frames of \<open>n\<close> samples, and parameters without prediction.\<close>

definition stereo_decoder :: "nat \<Rightarrow> alac_file" where
  "stereo_decoder n =
     alac_allocate_buffers (\<lambda>_. 0)
       ((alac_create 16 2)\<lparr>setinfo_max_samples_per_frame := of_nat n, setinfo_sample_size := 16,
          setinfo_rice_historymult := 40, setinfo_rice_initialhistory := 10,
          setinfo_rice_kmodifier := 14\<rparr>)"

definition plain_params :: channel_params where
  "plain_params = \<lparr>prediction_type = 0, prediction_quantitization = 0, ricemodifier = 1,
     predictor_coef_table = []\<rparr>"

lemma stereo_decoder_ok: "n < 2 ^ 16 \<Longrightarrow> decoder_ok (stereo_decoder n) n (40, 10, 14)"
  using unat_of_nat_small [of n, where 'a = 32] unat_of_nat_small [of "n * 4", where 'a = 32]
  by (simp add: decoder_ok_def stereo_decoder_def alac_allocate_buffers_def alac_create_def cdiv_def Let_def)

lemma example_channel:
  "encode_channel (stereo_decoder 3) 17 plain_params [3, 0, 0] =
     Some (rice_code 17 1 1 6 @ rice_code 16 2 3 2)"
proof -
  have k: "ref_k 10 14 = Some 1" "ref_run_k 70 = Some 2" "ref_history 10 6 10 = 70"
    "rice_mult 2 0x3fff = 3" "list_all (fits 17) [3, 0, 0]" by code_simp+
  have cfg: "setinfo_rice_kmodifier (stereo_decoder 3) = 14" "setinfo_rice_historymult (stereo_decoder 3) = 40"
    "setinfo_rice_initialhistory (stereo_decoder 3) = 10"
    by (simp_all add: stereo_decoder_def alac_allocate_buffers_def alac_create_def Let_def)
  have km: "unat (14 :: u8) = 14" "uint (14 :: u8) = 14" "uint (40 :: u8) = 40" "uint (10 :: u8) = 10"
    "sint (3 :: u32) = 3" "cdiv 40 4 = 10" "push_bit 14 1 - 1 = (0x3fff :: u32)"
    by code_simp+
  have enc: "rice_encode 17 14 10 0x3fff 10 0 [3, 0, 0] = Some (rice_code 17 1 1 6 @ rice_code 16 2 3 2)"
    by (simp add: k Let_def fold_sign_def code_value_def rice_mult_def [of "Suc 0"] flip: numeral_2_eq_2)
  show ?thesis
    by (simp add: encode_channel_def cfg plain_params_def params_ok_def predictor_compress_def km enc
        k(5) [simplified] del: rice_encode.simps)
qed

lemma example_stereo:
  "encode_stereo (stereo_decoder 3) None 0 0 plain_params plain_params [(3, 3), (0, 0), (0, 0)] =
     Some (nat_bits 3 1 @ head_bits None False @ nat_bits 8 0 @ nat_bits 8 0 @
       params_bits plain_params @ params_bits plain_params @
       (rice_code 17 1 1 6 @ rice_code 16 2 3 2) @ (rice_code 17 1 1 6 @ rice_code 16 2 3 2))"
proof -
  have "scast (3 :: u16) = (3 :: u32)" by code_simp
  then show ?thesis by (simp add: encode_stereo_def mix_16_def example_channel)
qed

text \<open>
  C1: decoding is lossless: a stereo frame that the reference encoder codes, with any mixing,
  prediction and history parameters, decodes to the interleaved little-endian samples of both
  channels; the bytes behind them keep their contents, the size reported is theirs, and the
  decoder stays usable for the next frame.
\<close>

theorem stereo_frame_lossless:
  assumes "encode_stereo a nsize shift weight cp_a cp_b lrs = Some bits"
    and "carries packet 0 bits" "length bits + 32 \<le> 8 * length packet"
    and "decoder_ok a cap rice" "size_ok cap nsize (length lrs)" "4 * length lrs \<le> length out"
  shows "\<exists>a'. alac_decode_frame a packet out =
      Some (a', interleaved lrs @ drop (4 * length lrs) out, 4 * int (length lrs)) \<and> decoder_ok a' cap rice"
  by (rule decode_frame_stereo [OF assms])

theorem stereo_frame_lossless_witness:
  "\<exists>packet a'. alac_decode_frame (stereo_decoder 3) packet (replicate 12 7) =
     Some (a', [3, 0, 3, 0, 0, 0, 0, 0, 0, 0, 0, 0], 12)"
proof -
  let ?bits = "nat_bits 3 1 @ head_bits None False @ nat_bits 8 0 @ nat_bits 8 0 @
    params_bits plain_params @ params_bits plain_params @
    (rice_code 17 1 1 6 @ rice_code 16 2 3 2) @ (rice_code 17 1 1 6 @ rice_code 16 2 3 2)"
  let ?p = "pack ?bits @ replicate 4 0"
  have r: "length ?bits + 32 \<le> 8 * length ?p"
    by (rule pack_room)
  have ok: "decoder_ok (stereo_decoder 3) 3 (40, 10, 14)" by (rule stereo_decoder_ok) simp
  have s: "size_ok 3 None (length [(3 :: u16, 3 :: u16), (0, 0), (0, 0)])" by (simp add: size_ok_def)
  have i: "interleaved [(3, 3), (0, 0), (0, 0)] = [3, 0, 3, 0, 0, 0, 0, 0, 0, 0, 0, 0]" by code_simp
  from stereo_frame_lossless [OF example_stereo carries_pack r ok s, of "replicate 12 7"]
  show ?thesis unfolding i by (auto simp del: pack.simps intro!: exI [of _ ?p])
qed

text \<open>
  A stereo frame that is stored without compression decodes to its samples, in the same
  sense.
\<close>

theorem stereo_raw_frame_lossless:
  assumes "carries packet 0 (encode_stereo_raw nsize lrs)"
    and "length (encode_stereo_raw nsize lrs) + 32 \<le> 8 * length packet"
    and "decoder_ok a cap rice" "size_ok cap nsize (length lrs)" "4 * length lrs \<le> length out"
  shows "\<exists>a'. alac_decode_frame a packet out =
      Some (a', interleaved lrs @ drop (4 * length lrs) out, 4 * int (length lrs)) \<and> decoder_ok a' cap rice"
  by (rule decode_frame_stereo_raw [OF assms])

theorem stereo_raw_frame_lossless_witness:
  "\<exists>packet a'. alac_decode_frame (stereo_decoder 4) packet (replicate 10 7) =
     Some (a', [2, 1, 4, 3, 0xff, 0xff, 0, 0x80, 7, 7], 8)"
proof -
  let ?lrs = "[(0x0102, 0x0304), (0xffff, 0x8000)] :: (u16 \<times> u16) list"
  let ?bits = "encode_stereo_raw (Some 2) ?lrs"
  let ?p = "pack ?bits @ replicate 4 0"
  have r: "length ?bits + 32 \<le> 8 * length ?p"
    by (rule pack_room)
  have ok: "decoder_ok (stereo_decoder 4) 4 (40, 10, 14)" by (rule stereo_decoder_ok) simp
  have s: "size_ok 4 (Some 2) (length ?lrs)" by (simp add: size_ok_def)
  have i: "interleaved ?lrs = [2, 1, 4, 3, 0xff, 0xff, 0, 0x80]" by code_simp
  have o: "replicate 10 (7 :: u8) = [7, 7, 7, 7, 7, 7, 7, 7, 7, 7]" by (simp add: eval_nat_numeral)
  from stereo_raw_frame_lossless [OF carries_pack r ok s, of "replicate 10 7"]
  show ?thesis unfolding i o by (auto intro!: exI [of _ ?p])
qed

end
