(* ===== verification/Seqno.thy ===== *)
theory Seqno
  imports Prelude
begin

text \<open>
  The 16-bit sequence numbers of player.h and player.c: the wrapped difference \<open>seq_diff\<close>, the
  order \<open>seq_order\<close>, and the slot \<open>BUFIDX\<close> of the ring of decoded frames. The lemmas say when
  the wrapped difference is the true distance, that the order is the cyclic one, and that the
  slots of any window of at most 512 consecutive numbers are distinct, across the wrap at 65536.
\<close>

section \<open>Definitions\<close>

definition seq_diff :: "u16 \<Rightarrow> u16 \<Rightarrow> u16" where
  "seq_diff a b = (let diff = b - a in diff)"

definition seq_order :: "u16 \<Rightarrow> u16 \<Rightarrow> bool" where
  "seq_order a b = (let d = b - a in 0 < sint d)"

definition BUFFER_FRAMES :: nat where
  "BUFFER_FRAMES = 512"

definition BUFIDX :: "u16 \<Rightarrow> nat" where
  "BUFIDX seqno = unat seqno mod BUFFER_FRAMES"

section \<open>Distances\<close>

lemma seq_diff_self [seq_simps]: "seq_diff a a = 0"
  by (simp add: seq_diff_def)

lemma seq_diff_add [seq_simps]: "seq_diff a (a + d) = d"
  by (simp add: seq_diff_def)

lemma seq_diff_eq_add: "b = a + seq_diff a b"
  by (simp add: seq_diff_def)

lemma seq_diff_pred [seq_simps]: "seq_diff (a - 1) b = seq_diff a b + 1"
  by (simp add: seq_diff_def)

lemma seq_diff_succ [seq_simps]: "seq_diff (a + 1) b = seq_diff a b - 1"
  by (simp add: seq_diff_def)

lemma seq_diff_cocycle: "seq_diff a b + seq_diff b c = seq_diff a c"
  by (simp add: seq_diff_def)

lemma unat_of_nat16: "n < 2 ^ 16 \<Longrightarrow> unat (of_nat n :: u16) = n"
  using unat_of_nat_small [of n, where 'a = 16] by simp

lemma sint16_of_nat: "n < 2 ^ 15 \<Longrightarrow> sint (of_nat n :: u16) = int n"
  using sint_small [of "of_nat n :: u16"] unat_of_nat16 [of n] by simp

text \<open>
  A number at distance \<open>d\<close> after \<open>a\<close> is \<open>a + of_nat d\<close>; its wrapped difference is \<open>d\<close>, and it
  comes after \<open>a\<close> in the cyclic order exactly when \<open>0 < d < 2 ^ 15\<close>.
\<close>

lemma seq_diff_nat: "b = a + of_nat (unat (seq_diff a b))"
  by (simp add: seq_diff_def)

lemma seq_order_iff: "seq_order a b \<longleftrightarrow> 0 < unat (seq_diff a b) \<and> unat (seq_diff a b) < 2 ^ 15"
proof (cases "unat (b - a) < 2 ^ 15")
  case True
  then have "sint (b - a) = int (unat (b - a))" using sint_small [of "b - a"] by simp
  with True show ?thesis unfolding seq_order_def seq_diff_def Let_def by (simp only: of_nat_0_less_iff simp_thms)
next
  case False
  then have "\<not> 0 \<le> sint (b - a)" using sint_nonneg_iff [of "b - a"] by simp
  with False show ?thesis unfolding seq_order_def seq_diff_def Let_def by simp
qed

lemma seq_order_irrefl: "\<not> seq_order a a"
  by (simp add: seq_order_iff seq_diff_self)

lemma seq_order_asym: "seq_order a b \<Longrightarrow> \<not> seq_order b a"
proof
  assume ab: "seq_order a b" and ba: "seq_order b a"
  have "unat (seq_diff a b) + unat (seq_diff b a) < 2 ^ 16"
    using ab ba by (auto simp: seq_order_iff)
  then have "unat (seq_diff a b + seq_diff b a) = unat (seq_diff a b) + unat (seq_diff b a)"
    using unat_add_lem [of "seq_diff a b" "seq_diff b a"] by simp
  moreover have "seq_diff a b + seq_diff b a = 0" by (simp add: seq_diff_cocycle seq_diff_self)
  ultimately show False using ab by (auto simp: seq_order_iff)
qed

section \<open>Slots of a window\<close>

lemma BUFIDX_less [simp]: "BUFIDX s < BUFFER_FRAMES"
  by (simp add: BUFIDX_def BUFFER_FRAMES_def)

lemma BUFIDX_add: "BUFIDX (r + of_nat i) = (unat r + i) mod BUFFER_FRAMES"
proof -
  have "unat (r + of_nat i) = (unat r + i) mod 2 ^ 16"
    by (simp add: unat_word_ariths unat_of_nat take_bit_eq_mod mod_simps)
  moreover have "(unat r + i) mod 2 ^ 16 mod 512 = (unat r + i) mod 512"
    by (rule mod_mod_cancel) simp
  ultimately show ?thesis by (simp add: BUFIDX_def BUFFER_FRAMES_def)
qed

lemma BUFIDX_inj:
  assumes "i < BUFFER_FRAMES" "j < BUFFER_FRAMES"
  shows "BUFIDX (r + of_nat i) = BUFIDX (r + of_nat j) \<longleftrightarrow> i = j"
  using mod_shift_inj [OF assms, of "unat r"] by (auto simp: BUFIDX_add)

text \<open>Every slot of the ring is the slot of exactly one number of a full window.\<close>

lemma BUFIDX_surj: "k < BUFFER_FRAMES \<Longrightarrow> \<exists>i < BUFFER_FRAMES. BUFIDX (r + of_nat i) = k"
  using mod_shift_surj [of k BUFFER_FRAMES "unat r"]
  by (intro exI [of _ "(k + (BUFFER_FRAMES - unat r mod BUFFER_FRAMES)) mod BUFFER_FRAMES"])
    (simp add: BUFIDX_add)

section \<open>Properties\<close>

text \<open>
  Any 512 consecutive sequence numbers have 512 different slots in the ring, also when the
  numbers wrap at 65536: two numbers of the window share a slot only when they are the same.
\<close>

theorem window_slots_distinct:
  assumes "i < BUFFER_FRAMES" "j < BUFFER_FRAMES"
  shows "BUFIDX (r + of_nat i) = BUFIDX (r + of_nat j) \<longleftrightarrow> i = j"
  by (rule BUFIDX_inj [OF assms])

theorem window_slots_distinct_witness:
  "BUFIDX (65530 + of_nat 511) \<noteq> BUFIDX (65530 + of_nat 0)"
  using window_slots_distinct [of 511 0 65530] by (simp add: BUFFER_FRAMES_def)

text \<open>
  \<open>seq_order a b\<close> holds exactly when \<open>b\<close> is 1 to 32767 steps after \<open>a\<close> counted with
  wrap-around, and it never holds in both directions.
\<close>

theorem seq_order_cyclic:
  "(seq_order a b \<longleftrightarrow> (\<exists>d. 0 < d \<and> d < 2 ^ 15 \<and> b = a + of_nat d)) \<and>
   \<not> (seq_order a b \<and> seq_order b a)"
proof -
  have "seq_order a (a + of_nat d)" if "0 < d" "d < 2 ^ 15" for d
    using that by (simp add: seq_order_iff seq_diff_add unat_of_nat16)
  moreover have "\<exists>d. 0 < d \<and> d < 2 ^ 15 \<and> b = a + of_nat d" if "seq_order a b"
    using that seq_diff_nat [of b a] by (auto simp: seq_order_iff)
  ultimately show ?thesis using seq_order_asym by auto
qed

end
