(* ===== verification/Rtp_Session.thy ===== *)
theory Rtp_Session
  imports Seqno
begin

text \<open>
  The state and the control operations of rtp.c: binding the UDP port, opening and shutting
  down the single RTP session, and the request for lost packets. The sockets are the
  environment: the return codes of getaddrinfo and bind and the address the system chose are
  the record \<open>udp_env\<close>. The receiver thread is in the theory Rtp_Receiver.
\<close>

section \<open>State\<close>

text \<open>
  A socket address of either family. \<open>sa_port\<close> is the field as it is stored, in network order.
\<close>

record sockaddr =
  sa_inet6 :: bool
  sa_port :: u16
  sa_addr :: bytes

type_synonym datagram = "sockaddr \<times> bytes"

record rtp_state =
  rtp_running :: bool
  rtp_please_shutdown :: bool
  rtp_client :: sockaddr
  rtp_sock_open :: bool

text \<open>The static variables when the program starts.\<close>

definition rtp_initial :: rtp_state where
  "rtp_initial = \<lparr>rtp_running = False, rtp_please_shutdown = False,
     rtp_client = \<lparr>sa_inet6 = False, sa_port = 0, sa_addr = []\<rparr>, rtp_sock_open = False\<rparr>"

record udp_env =
  gai_ret :: int
  bind_ret :: int
  bound_addr :: sockaddr

section \<open>Operations\<close>

definition bind_port :: "udp_env \<Rightarrow> rtp_state \<Rightarrow> sockaddr \<Rightarrow> fault + (rtp_state \<times> int)" where
  "bind_port env st remote =
     (if gai_ret env < 0 then Inl (Die ''failed to get usable addrinfo?!'')
      else let st = st\<lparr>rtp_sock_open := True\<rparr> in
        if bind_ret env < 0 then Inl (Die ''could not bind a UDP port!'')
        else let sport = uint (htons (sa_port (bound_addr env))) in Inr (st, sport))"

definition rtp_setup ::
  "udp_env \<Rightarrow> rtp_state \<Rightarrow> sockaddr \<Rightarrow> int \<Rightarrow> int \<Rightarrow> fault + (rtp_state \<times> int)" where
  "rtp_setup env st remote cport tport =
     (if rtp_running st then Inl (Die ''rtp_setup called with active stream!'')
      else
        let st = st\<lparr>rtp_client := remote\<lparr>sa_port := htons (word_of_int cport)\<rparr>\<rparr> in
        case bind_port env st remote of
          Inl e \<Rightarrow> Inl e
        | Inr (st, sport) \<Rightarrow>
            Inr (st\<lparr>rtp_please_shutdown := False, rtp_running := True\<rparr>, sport))"

text \<open>
  The join waits for the receiver, which sees the flag, closes the socket and returns.
\<close>

definition rtp_shutdown :: "rtp_state \<Rightarrow> fault + rtp_state" where
  "rtp_shutdown st =
     (if \<not> rtp_running st then Inl (Die ''rtp_shutdown called without active stream!'')
      else Inr (st\<lparr>rtp_please_shutdown := True, rtp_sock_open := False, rtp_running := False\<rparr>))"

definition rtp_request_resend :: "rtp_state \<Rightarrow> u16 \<Rightarrow> u16 \<Rightarrow> fault + datagram" where
  "rtp_request_resend st first final =
     (if \<not> rtp_running st then Inl (Die ''rtp_request_resend called without active stream!'')
      else
        let req = [0x80, 0x55 OR 0x80] @ store16 (htons 1) @ store16 (htons first) @
                  store16 (htons (final - first + 1))
        in Inr (rtp_client st, req))"

section \<open>The wire format of a request\<close>

text \<open>What the sender of the stream reads out of a request: the first number and the count.\<close>

definition read_resend_request :: "bytes \<Rightarrow> (u16 \<times> u16) option" where
  "read_resend_request req =
     (case req of
        [m, t, s0, s1, f0, f1, c0, c1] \<Rightarrow>
          if m = 0x80 \<and> t = 0xd5 then Some (be16 f0 f1, be16 c0 c1) else None
      | _ \<Rightarrow> None)"

lemma rtp_request_resend_running:
  "rtp_running st \<Longrightarrow> \<exists>req. rtp_request_resend st first final = Inr (rtp_client st, req) \<and>
     length req = 8 \<and> read_resend_request req = Some (first, final - first + 1)"
  by (simp add: rtp_request_resend_def store16_htons be16_bytes_def read_resend_request_def)

lemma rtp_request_resend_dies:
  "\<not> rtp_running st \<Longrightarrow>
   rtp_request_resend st first final = Inl (Die ''rtp_request_resend called without active stream!'')"
  by (simp add: rtp_request_resend_def)

lemma rtp_setup_running:
  "rtp_setup env st remote cport tport = Inr (st', sport) \<Longrightarrow>
   \<not> rtp_running st \<and> rtp_running st' \<and> \<not> rtp_please_shutdown st' \<and> rtp_sock_open st' \<and>
   rtp_client st' = remote\<lparr>sa_port := htons (word_of_int cport)\<rparr> \<and> 0 \<le> sport \<and> sport < 65536"
  using uint_lt2p [of "htons (sa_port (bound_addr env))"]
  by (auto simp: rtp_setup_def bind_port_def Let_def split: if_splits)

lemma rtp_shutdown_setup:
  "rtp_shutdown st = Inr st' \<Longrightarrow> \<not> rtp_running st' \<and> \<not> rtp_sock_open st'"
  by (auto simp: rtp_shutdown_def split: if_splits)

section \<open>Properties\<close>

text \<open>
  The request for the packets \<open>first\<close> to \<open>final\<close>, as its receiver decodes it, names \<open>first\<close>
  and the number of packets, and goes to the control port of the client; without a session the
  program dies.
\<close>

theorem resend_request_wire:
  "(rtp_running st \<longrightarrow>
      (\<exists>req. rtp_request_resend st first final = Inr (rtp_client st, req) \<and> length req = 8 \<and>
        read_resend_request req = Some (first, final - first + 1))) \<and>
   (\<not> rtp_running st \<longrightarrow> \<not> returns (rtp_request_resend st first final))"
  using rtp_request_resend_running [of st first final] rtp_request_resend_dies [of st first final]
  by auto

theorem resend_request_wire_witness:
  "\<exists>st req. rtp_request_resend st 65534 1 = Inr (rtp_client st, req) \<and>
     read_resend_request req = Some (65534, 4)"
proof -
  let ?st = "rtp_initial\<lparr>rtp_running := True\<rparr>"
  have four: "(1 - 65534 + 1 :: u16) = 4" by code_simp
  have "rtp_running ?st" by simp
  then show ?thesis
    using resend_request_wire [of ?st 65534 1, unfolded four] by blast
qed

text \<open>
  There is one session at a time: after a setup a second setup dies, the client is the remote
  address with the control port in network order, the reported server port is a port number, and
  a shutdown returns and leaves no session and no open socket.
\<close>

theorem one_session_at_a_time:
  assumes "rtp_setup env st remote cport tport = Inr (st', sport)"
  shows "\<not> returns (rtp_setup env' st' remote' cport' tport') \<and>
    rtp_client st' = remote\<lparr>sa_port := htons (word_of_int cport)\<rparr> \<and> 0 \<le> sport \<and> sport < 65536 \<and>
    (\<exists>st''. rtp_shutdown st' = Inr st'' \<and> \<not> rtp_running st'' \<and> \<not> rtp_sock_open st'' \<and>
      \<not> returns (rtp_shutdown st''))"
  using rtp_setup_running [OF assms] by (simp add: rtp_setup_def rtp_shutdown_def)

theorem one_session_at_a_time_witness:
  "\<exists>env st remote st' sport. rtp_setup env st remote 6001 6002 = Inr (st', sport) \<and>
     \<not> returns (rtp_setup env st' remote 6001 6002)"
proof -
  let ?a = "\<lparr>sa_inet6 = False, sa_port = 0, sa_addr = []\<rparr>"
  let ?env = "\<lparr>gai_ret = 0, bind_ret = 0, bound_addr = ?a\<rparr>"
  let ?st = rtp_initial
  obtain st' sport where s: "rtp_setup ?env ?st ?a 6001 6002 = Inr (st', sport)"
    by (simp add: rtp_setup_def bind_port_def rtp_initial_def)
  from one_session_at_a_time [OF s, of ?env ?a 6001 6002] s show ?thesis by blast
qed

end
