(* ===== verification/Rate_Estimator.thy ===== *)
theory Rate_Estimator
  imports Complex_Main Prelude
begin

text \<open>
  The clock-drift estimator of player.c: the biquad filters, \<open>bf_est_reset\<close> and \<open>bf_est_update\<close>.
  A C double is modelled by a real number; rounding is not modelled. The lemmas say that the
  fill the estimator steers to is the average of the first thousand fills, that the playback
  rate is 1 until then, and that the low-pass filters have unit gain at rest.
\<close>

section \<open>Biquad filters\<close>

record biquad =
  bq_hist0 :: real
  bq_hist1 :: real
  bq_a0 :: real
  bq_a1 :: real
  bq_b0 :: real
  bq_b1 :: real
  bq_b2 :: real

definition biquad_init :: "biquad \<Rightarrow> real \<times> real \<Rightarrow> real \<times> real \<times> real \<Rightarrow> biquad" where
  "biquad_init bq a b =
     (case (a, b) of ((a0, a1), (b0, b1, b2)) \<Rightarrow>
        bq\<lparr>bq_hist0 := 0, bq_hist1 := 0, bq_a0 := a0, bq_a1 := a1,
           bq_b0 := b0, bq_b1 := b1, bq_b2 := b2\<rparr>)"

definition biquad_lpf :: "int \<Rightarrow> int \<Rightarrow> biquad \<Rightarrow> real \<Rightarrow> real \<Rightarrow> biquad" where
  "biquad_lpf frame_size sampling_rate bq freq Q =
     (let w0 = 2 * pi * freq * of_int frame_size / of_int sampling_rate;
          alpha = sin w0 / (2 * Q);
          a_0 = 1 + alpha;
          b0 = (1 - cos w0) / (2 * a_0);
          b1 = (1 - cos w0) / a_0;
          b2 = b0;
          a0 = - 2 * cos w0 / a_0;
          a1 = (1 - alpha) / a_0
      in biquad_init bq (a0, a1) (b0, b1, b2))"

definition biquad_filt :: "biquad \<Rightarrow> real \<Rightarrow> real \<times> biquad" where
  "biquad_filt bq x =
     (let w = x - bq_a0 bq * bq_hist0 bq - bq_a1 bq * bq_hist1 bq;
          out = bq_b1 bq * bq_hist0 bq + bq_b2 bq * bq_hist1 bq + bq_b0 bq * w
      in (out, bq\<lparr>bq_hist1 := bq_hist0 bq, bq_hist0 := w\<rparr>))"

section \<open>The estimator\<close>

record rate_est =
  bf_playback_rate :: real
  bf_est_drift :: real
  bf_drift_lpf :: biquad
  bf_est_err :: real
  bf_last_err :: real
  bf_err_lpf :: biquad
  bf_err_deriv_lpf :: biquad
  desired_fill :: real
  fill_count :: int

text \<open>The static variables when the program starts.\<close>

definition biquad_zero :: biquad where
  "biquad_zero = \<lparr>bq_hist0 = 0, bq_hist1 = 0, bq_a0 = 0, bq_a1 = 0, bq_b0 = 0, bq_b1 = 0, bq_b2 = 0\<rparr>"

definition est_initial :: rate_est where
  "est_initial =
     \<lparr>bf_playback_rate = 1, bf_est_drift = 0, bf_drift_lpf = biquad_zero, bf_est_err = 0,
      bf_last_err = 0, bf_err_lpf = biquad_zero, bf_err_deriv_lpf = biquad_zero,
      desired_fill = 0, fill_count = 0\<rparr>"

definition bf_est_reset :: "int \<Rightarrow> int \<Rightarrow> int \<Rightarrow> rate_est \<Rightarrow> rate_est" where
  "bf_est_reset frame_size sampling_rate fill e =
     e\<lparr>bf_drift_lpf := biquad_lpf frame_size sampling_rate (bf_drift_lpf e) (1 / 180) (3 / 10),
       bf_err_lpf := biquad_lpf frame_size sampling_rate (bf_err_lpf e) (1 / 10) (25 / 100),
       bf_err_deriv_lpf :=
         biquad_lpf frame_size sampling_rate (bf_err_deriv_lpf e) (1 / 2) (2 / 10),
       fill_count := 0, bf_playback_rate := 1, bf_est_err := 0, bf_last_err := 0,
       desired_fill := 0\<rparr>"

definition CONTROL_A :: real where "CONTROL_A = 1 / 10000"
definition CONTROL_B :: real where "CONTROL_B = 1 / 10"

definition bf_est_update :: "int \<Rightarrow> rate_est \<Rightarrow> rate_est" where
  "bf_est_update fill e =
     (if fill_count e < 1000 then
        e\<lparr>desired_fill := desired_fill e + of_int fill / 1000, fill_count := fill_count e + 1\<rparr>
      else
        let e = (if fill_count e = 1000 then e\<lparr>fill_count := fill_count e + 1\<rparr> else e);
            buf_delta = of_int fill - desired_fill e;
            (est_err, err_lpf) = biquad_filt (bf_err_lpf e) buf_delta;
            e = e\<lparr>bf_est_err := est_err, bf_err_lpf := err_lpf\<rparr>;
            (err_deriv, deriv_lpf) = biquad_filt (bf_err_deriv_lpf e) (bf_est_err e - bf_last_err e);
            e = e\<lparr>bf_err_deriv_lpf := deriv_lpf\<rparr>;
            adj_error = CONTROL_A * bf_est_err e;
            (drift, drift_lpf) =
              biquad_filt (bf_drift_lpf e) (CONTROL_B * (adj_error + err_deriv) + bf_est_drift e);
            e = e\<lparr>bf_est_drift := drift, bf_drift_lpf := drift_lpf\<rparr>
        in e\<lparr>bf_playback_rate := 1 + adj_error + bf_est_drift e, bf_last_err := bf_est_err e\<rparr>)"

section \<open>The averaging phase\<close>

lemma bf_est_update_count: "0 \<le> fill_count e \<Longrightarrow> 0 \<le> fill_count (bf_est_update f e)"
  by (auto simp: bf_est_update_def Let_def split: prod.splits)

lemma bf_est_fold_averaging:
  assumes "fill_count e + int (length fs) \<le> 1000"
  shows "fold bf_est_update fs e =
    e\<lparr>desired_fill := desired_fill e + of_int (sum_list fs) / 1000,
      fill_count := fill_count e + int (length fs)\<rparr>"
  using assms
proof (induction fs arbitrary: e)
  case (Cons f fs)
  then have "fill_count e < 1000" by simp
  then have upd: "bf_est_update f e =
      e\<lparr>desired_fill := desired_fill e + of_int f / 1000, fill_count := fill_count e + 1\<rparr>"
    by (simp add: bf_est_update_def)
  show ?case
    using Cons.prems by (simp add: upd Cons.IH add_divide_distrib algebra_simps)
qed simp

text \<open>
  After a reset, the first thousand fills are only averaged: the playback rate stays
  1 and the target fill is their mean.
\<close>

lemma bf_est_average_rate:
  assumes "length fs \<le> 1000"
  shows "bf_playback_rate (fold bf_est_update fs (bf_est_reset n r f0 e)) = 1"
    and "desired_fill (fold bf_est_update fs (bf_est_reset n r f0 e)) = of_int (sum_list fs) / 1000"
  using assms by (simp_all add: bf_est_fold_averaging bf_est_reset_def)

section \<open>Filters at rest\<close>

lemma lpf_coefficients:
  fixes c s :: real
  assumes "1 + s \<noteq> 0"
  shows "(1 - c) / (2 * (1 + s)) + (1 - c) / (1 + s) + (1 - c) / (2 * (1 + s)) =
    1 + - 2 * c / (1 + s) + (1 - s) / (1 + s)"
proof -
  obtain A where s: "s = A - 1" and A: "A \<noteq> 0" using assms that [of "1 + s"] by simp
  show ?thesis unfolding s using A by (simp add: field_simps)
qed

lemma biquad_lpf_dc:
  fixes bq :: biquad
  assumes "1 + sin (2 * pi * freq * of_int n / of_int r) / (2 * Q) \<noteq> 0"
  defines "q \<equiv> biquad_lpf n r bq freq Q"
  shows "bq_b0 q + bq_b1 q + bq_b2 q = 1 + bq_a0 q + bq_a1 q"
  using lpf_coefficients [OF assms(1), of "cos (2 * pi * freq * of_int n / of_int r)"]
  by (simp add: q_def biquad_lpf_def biquad_init_def Let_def)

text \<open>A filter whose numerator and denominator sum to the same value passes a constant unchanged.\<close>

lemma biquad_filt_fixpoint:
  assumes dc: "bq_b0 q + bq_b1 q + bq_b2 q = 1 + bq_a0 q + bq_a1 q"
    and h: "bq_hist0 q = g" "bq_hist1 q = g"
    and x: "x = (1 + bq_a0 q + bq_a1 q) * g"
  shows "biquad_filt q x = (x, q)"
proof -
  have w: "x - bq_a0 q * g - bq_a1 q * g = g" unfolding x by (simp add: algebra_simps)
  have "bq_b1 q * g + bq_b2 q * g + bq_b0 q * g = (bq_b0 q + bq_b1 q + bq_b2 q) * g"
    by (simp add: algebra_simps)
  also have "\<dots> = x" by (simp only: dc x)
  finally have out: "bq_b1 q * g + bq_b2 q * g + bq_b0 q * g = x" .
  have "q\<lparr>bq_hist1 := g, bq_hist0 := g\<rparr> = q" using h by (cases q) simp
  then show ?thesis by (simp only: biquad_filt_def Let_def h w out)
qed

section \<open>Properties\<close>

text \<open>
  After a reset the estimator only averages for a thousand updates: the playback rate stays 1
  and the target fill is the sum of the fills seen divided by 1000, whatever was in the state.
\<close>

theorem estimator_averages_first:
  assumes "length fs \<le> 1000"
  shows "bf_playback_rate (fold bf_est_update fs (bf_est_reset n r f0 e)) = 1 \<and>
    desired_fill (fold bf_est_update fs (bf_est_reset n r f0 e)) = of_int (sum_list fs) / 1000"
  using bf_est_average_rate [OF assms] by simp

theorem estimator_averages_first_witness:
  "desired_fill (fold bf_est_update [220, 221] (bf_est_reset 352 44100 220 est_initial)) = 441 / 1000"
  using estimator_averages_first [of "[220, 221]" 352 44100 220 est_initial] by simp

text \<open>
  The low-pass filters of the estimator have unit gain at rest: a filter made by \<open>biquad_lpf\<close>
  whose history has settled on a constant input gives that input and stays as it is.
\<close>

theorem low_pass_unit_gain:
  assumes "1 + sin (2 * pi * freq * of_int n / of_int r) / (2 * Q) \<noteq> 0"
    and "q = (biquad_lpf n r bq freq Q)\<lparr>bq_hist0 := g, bq_hist1 := g\<rparr>"
    and "x = (1 + bq_a0 q + bq_a1 q) * g"
  shows "biquad_filt q x = (x, q)"
proof (rule biquad_filt_fixpoint [of q g])
  show "bq_b0 q + bq_b1 q + bq_b2 q = 1 + bq_a0 q + bq_a1 q"
    using biquad_lpf_dc [OF assms(1), of bq] assms(2) by simp
qed (use assms in simp_all)

theorem low_pass_unit_gain_witness:
  "let q = (biquad_lpf 1 4 biquad_zero 1 (1 / 2))\<lparr>bq_hist0 := 3, bq_hist1 := 3\<rparr> in
   bq_b0 q = 1 / 4 \<and> biquad_filt q 3 = (3, q)"
proof -
  let ?q = "(biquad_lpf 1 4 biquad_zero 1 (1 / 2))\<lparr>bq_hist0 := 3, bq_hist1 := 3\<rparr>"
  have c: "bq_b0 ?q = 1 / 4" "bq_a0 ?q = 0" "bq_a1 ?q = 0"
    by (simp_all add: biquad_lpf_def biquad_init_def Let_def)
  then show ?thesis
    using low_pass_unit_gain [where freq = 1 and n = 1 and r = 4 and Q = "1 / 2" and q = ?q
        and bq = biquad_zero and g = 3 and x = 3] by simp
qed

end
