(* ===== verification/Player_Buffer.thy ===== *)
theory Player_Buffer
  imports Seqno Rtp_Session Rate_Estimator
begin

text \<open>
  The jitter buffer of player.c: the ring of decoded frames, the variables guarded by
  \<open>ab_mutex\<close>, and the operations on them. \<open>player_put_packet\<close> is called by the RTP thread with
  the payload of a packet, \<open>buffer_get_frame\<close> by the player thread for the next frame,
  \<open>player_flush\<close> by the RTSP thread. Each critical section is one definition, so that the
  three parts of \<open>player_put_packet\<close> (admit, store, start) can also be interleaved with the
  other threads. The decoder (\<open>alac_decode\<close>) is an argument: it gets its state, the payload
  and the contents of the destination array and returns the new state and contents.
\<close>

section \<open>State\<close>

record abuf =
  ready :: bool
  data :: "u16 list"

record 'd player =
  audio_buffer :: "abuf list"
  ab_read :: u16
  ab_write :: u16
  ab_buffering :: bool
  ab_synced :: bool
  decoder :: 'd
  est :: rate_est
  frame_size :: int
  sampling_rate :: int

type_synonym 'd decode_fun = "'d \<Rightarrow> bytes \<Rightarrow> u16 list \<Rightarrow> fault + ('d \<times> u16 list)"

text \<open>Sizes in shorts: a frame is \<open>FRAME_BYTES\<close>, a slot is \<open>OUTFRAME_BYTES\<close>, divided by two.\<close>

definition frame_shorts :: "int \<Rightarrow> nat" where
  "frame_shorts n = nat (4 * n) div 2"

definition outframe_shorts :: "int \<Rightarrow> nat" where
  "outframe_shorts n = nat (4 * (n + 3)) div 2"

section \<open>Resetting\<close>

definition ab_resync :: "'d player \<Rightarrow> 'd player" where
  "ab_resync p =
     p\<lparr>audio_buffer := map (\<lambda>b. b\<lparr>ready := False\<rparr>) (audio_buffer p),
       ab_synced := False, ab_buffering := True\<rparr>"

text \<open>\<open>init_buffer\<close>: \<open>heap i\<close> is what malloc's memory for slot \<open>i\<close> happens to contain.\<close>

definition init_buffer :: "(nat \<Rightarrow> nat \<Rightarrow> u16) \<Rightarrow> 'd player \<Rightarrow> 'd player" where
  "init_buffer heap p =
     ab_resync
       (p\<lparr>audio_buffer :=
           map (\<lambda>i. (audio_buffer p ! i)
                  \<lparr>data := map (heap i) [0 ..< outframe_shorts (frame_size p)]\<rparr>)
             [0 ..< BUFFER_FRAMES]\<rparr>)"

definition player_flush :: "'d player \<Rightarrow> 'd player" where
  "player_flush p = ab_resync p"

section \<open>A packet arrives\<close>

text \<open>
  The first critical section: synchronise to the first packet, decide what the packet is
  (expected, newer than expected, late, too late), ask for the missing ones, and note the fill.
\<close>

definition put_admit ::
  "rtp_state \<Rightarrow> u16 \<Rightarrow> 'd player \<Rightarrow> fault + ('d player \<times> nat option \<times> int \<times> datagram list)" where
  "put_admit rtp seqno p0 =
     (let p = (if \<not> ab_synced p0
               then p0\<lparr>ab_write := seqno - 1, ab_read := seqno, ab_synced := True\<rparr>
               else p0);
          leave = (\<lambda>p slot sent. Inr (p, slot, sint (seq_diff (ab_read p) (ab_write p)), sent))
      in
        if seq_diff (ab_write p) seqno = 1 then
          leave (p\<lparr>ab_write := seqno\<rparr>) (Some (BUFIDX seqno)) []
        else if seq_order (ab_write p) seqno then
          (case rtp_request_resend rtp (ab_write p + 1) (seqno - 1) of
             Inl e \<Rightarrow> Inl e
           | Inr d \<Rightarrow> leave (p\<lparr>ab_write := seqno\<rparr>) (Some (BUFIDX seqno)) [d])
        else if seq_order (ab_read p) seqno then
          leave p (Some (BUFIDX seqno)) []
        else
          leave p None [])"

text \<open>Outside the lock: decode into the slot, then mark it ready.\<close>

definition put_store ::
  "'d decode_fun \<Rightarrow> nat option \<Rightarrow> bytes \<Rightarrow> 'd player \<Rightarrow> fault + 'd player" where
  "put_store dec slot pkt p =
     (case slot of
        None \<Rightarrow> Inr p
      | Some k \<Rightarrow>
          (case dec (decoder p) pkt (data (audio_buffer p ! k)) of
             Inl e \<Rightarrow> Inl e
           | Inr (d, out) \<Rightarrow>
               Inr (p\<lparr>decoder := d,
                      audio_buffer := (audio_buffer p)[k := \<lparr>ready = True, data = out\<rparr>]\<rparr>)))"

text \<open>The second critical section: playing starts once the buffer is full enough.\<close>

definition put_start :: "int \<Rightarrow> int \<Rightarrow> 'd player \<Rightarrow> 'd player" where
  "put_start buffer_start_fill buf_fill p =
     (if ab_buffering p \<and> buf_fill \<ge> buffer_start_fill
      then p\<lparr>ab_buffering := False,
             est := bf_est_reset (frame_size p) (sampling_rate p) buf_fill (est p)\<rparr>
      else p)"

definition player_put_packet ::
  "'d decode_fun \<Rightarrow> int \<Rightarrow> rtp_state \<Rightarrow> u16 \<Rightarrow> bytes \<Rightarrow> 'd player \<Rightarrow>
     fault + ('d player \<times> datagram list)" where
  "player_put_packet dec buffer_start_fill rtp seqno pkt p =
     (case put_admit rtp seqno p of
        Inl e \<Rightarrow> Inl e
      | Inr (p1, slot, buf_fill, sent) \<Rightarrow>
          (case put_store dec slot pkt p1 of
             Inl e \<Rightarrow> Inl e
           | Inr p2 \<Rightarrow> Inr (put_start buffer_start_fill buf_fill p2, sent)))"

section \<open>A frame is played\<close>

text \<open>
  The last-chance requests at distances 16, 32, 64, ... below half the start fill. The guard
  \<open>0 < i\<close> is for termination only: the loop starts at 16 and doubles.
\<close>

function resend_loop ::
  "rtp_state \<Rightarrow> 'd player \<Rightarrow> int \<Rightarrow> int \<Rightarrow> fault + datagram list" where
  "resend_loop rtp p half i =
     (if 0 < i \<and> i < half then
        let nxt = ab_read p + word_of_int i;
            b = audio_buffer p ! BUFIDX nxt
        in if \<not> ready b then
             (case rtp_request_resend rtp nxt nxt of
                Inl e \<Rightarrow> Inl e
              | Inr d \<Rightarrow>
                  (case resend_loop rtp p half (i * 2) of
                     Inl e \<Rightarrow> Inl e
                   | Inr ds \<Rightarrow> Inr (d # ds)))
           else resend_loop rtp p half (i * 2)
      else Inr [])"
  by pat_completeness auto
termination
  by (relation "measure (\<lambda>(rtp, p, half, i). nat (half - i))") auto

declare resend_loop.simps [simp del]

definition memset_zero :: "nat \<Rightarrow> u16 list \<Rightarrow> u16 list" where
  "memset_zero n xs = replicate n 0 @ drop n xs"

definition buffer_get_frame ::
  "int \<Rightarrow> rtp_state \<Rightarrow> 'd player \<Rightarrow> fault + (u16 list option \<times> 'd player \<times> datagram list)" where
  "buffer_get_frame buffer_start_fill rtp p =
     (if ab_buffering p then Inr (None, p, [])
      else
        let buf_fill = sint (seq_diff (ab_read p) (ab_write p)) in
        if buf_fill < 1 \<or> \<not> ab_synced p then Inr (None, p\<lparr>ab_buffering := True\<rparr>, [])
        else
          let p = (if buf_fill \<ge> int BUFFER_FRAMES
                   then p\<lparr>ab_read := ab_write p - word_of_int buffer_start_fill\<rparr> else p);
              rd = ab_read p;
              p = p\<lparr>ab_read := ab_read p + 1\<rparr>;
              buf_fill = sint (seq_diff (ab_read p) (ab_write p));
              p = p\<lparr>est := bf_est_update buf_fill (est p)\<rparr>
          in
            case (if \<not> ab_buffering p then resend_loop rtp p (cdiv buffer_start_fill 2) 16
                  else Inr []) of
              Inl e \<Rightarrow> Inl e
            | Inr sent \<Rightarrow>
                let curframe = audio_buffer p ! BUFIDX rd;
                    frame = (if \<not> ready curframe
                             then memset_zero (frame_shorts (frame_size p)) (data curframe)
                             else data curframe)
                in Inr (Some frame,
                        p\<lparr>audio_buffer :=
                            (audio_buffer p)[BUFIDX rd := \<lparr>ready = False, data = frame\<rparr>]\<rparr>,
                        sent))"

end
