(* ===== verification/Frame_Queue.thy ===== *)
theory Frame_Queue
  imports Prelude
begin

text \<open>
  What the player needs from its jitter buffer, as an interface: a queue of frame positions,
  each holding a received frame or nothing. A packet that is \<open>d\<close> numbers after the newest one
  appends \<open>d - 1\<close> empty positions and its frame; a late packet fills a position that is not the
  next to be played; the player takes the head, and hears silence where nothing arrived. The
  locale states these laws; the lemmas lift them to whole runs and give the order of playing.
\<close>

datatype 'x queue_op = Put nat 'x | Late nat 'x | Get

section \<open>The abstract queue\<close>

definition render :: "'f \<Rightarrow> 'f option \<Rightarrow> 'f" where
  "render silence x = (case x of None \<Rightarrow> silence | Some f \<Rightarrow> f)"

fun spec_step ::
  "nat \<Rightarrow> 'f \<Rightarrow> ('x \<Rightarrow> 'f) \<Rightarrow> 'x queue_op \<Rightarrow> 'f option list \<Rightarrow> ('f list \<times> 'f option list) option" where
  "spec_step cap silence frame_of (Put d x) q =
     (if 0 < d \<and> length q + d \<le> cap
      then Some ([], q @ replicate (d - 1) None @ [Some (frame_of x)]) else None)"
| "spec_step cap silence frame_of (Late i x) q =
     (if 0 < i \<and> i < length q then Some ([], q[i := Some (frame_of x)]) else None)"
| "spec_step cap silence frame_of Get q =
     (if 2 \<le> length q then Some ([render silence (hd q)], tl q) else None)"

fun spec_run ::
  "nat \<Rightarrow> 'f \<Rightarrow> ('x \<Rightarrow> 'f) \<Rightarrow> 'x queue_op list \<Rightarrow> 'f option list \<Rightarrow>
     ('f list \<times> 'f option list) option" where
  "spec_run cap silence frame_of [] q = Some ([], q)"
| "spec_run cap silence frame_of (a # as) q =
     do {
       (out, q1) \<leftarrow> spec_step cap silence frame_of a q;
       (outs, q2) \<leftarrow> spec_run cap silence frame_of as q1;
       Some (out @ outs, q2)
     }"

text \<open>The frames that an operation adds to what will be played, silence included.\<close>

fun expand :: "'f \<Rightarrow> ('x \<Rightarrow> 'f) \<Rightarrow> 'x queue_op \<Rightarrow> 'f list" where
  "expand silence frame_of (Put d x) = replicate (d - 1) silence @ [frame_of x]"
| "expand silence frame_of (Late i x) = []"
| "expand silence frame_of Get = []"

fun is_late :: "'x queue_op \<Rightarrow> bool" where
  "is_late (Late i x) = True"
| "is_late _ = False"

fun op_arg_ok :: "('x \<Rightarrow> bool) \<Rightarrow> 'x queue_op \<Rightarrow> bool" where
  "op_arg_ok valid (Put d x) = valid x"
| "op_arg_ok valid (Late i x) = valid x"
| "op_arg_ok valid Get = True"

lemma spec_step_order:
  "spec_step cap silence frame_of a q = Some (out, q') \<Longrightarrow> \<not> is_late a \<Longrightarrow>
   out @ map (render silence) q' = map (render silence) q @ expand silence frame_of a"
  by (cases a; cases q) (auto simp: render_def split: if_splits)

lemma spec_run_order:
  "spec_run cap silence frame_of as q = Some (outs, q') \<Longrightarrow> \<forall>a \<in> set as. \<not> is_late a \<Longrightarrow>
   outs @ map (render silence) q' =
   map (render silence) q @ concat (map (expand silence frame_of) as)"
proof (induction as arbitrary: q outs)
  case (Cons a as)
  then obtain out q1 outs1 where
    s: "spec_step cap silence frame_of a q = Some (out, q1)"
    and r: "spec_run cap silence frame_of as q1 = Some (outs1, q')" and o: "outs = out @ outs1"
    by (auto split: bind_splits)
  have "outs @ map (render silence) q' = out @ (outs1 @ map (render silence) q')"
    by (simp add: o)
  also have "\<dots> = out @ map (render silence) q1 @ concat (map (expand silence frame_of) as)"
    using Cons.IH [OF r] Cons.prems(2) by simp
  also have "\<dots> = map (render silence) q @ expand silence frame_of a @
      concat (map (expand silence frame_of) as)"
    using spec_step_order [OF s] Cons.prems(2) by simp
  finally show ?case by simp
qed simp

text \<open>The queue never holds more than its capacity.\<close>

lemma spec_run_length:
  "spec_run cap silence frame_of as q = Some (outs, q') \<Longrightarrow> length q \<le> cap \<Longrightarrow> length q' \<le> cap"
proof (induction as arbitrary: q outs)
  case (Cons a as)
  then obtain out q1 outs1 where
    s: "spec_step cap silence frame_of a q = Some (out, q1)"
    and r: "spec_run cap silence frame_of as q1 = Some (outs1, q')"
    by (auto split: bind_splits)
  have "length q1 \<le> cap" using s Cons.prems(2) by (cases a) (auto split: if_splits)
  with r show ?case by (rule Cons.IH)
qed simp

section \<open>Running an implementation\<close>

fun impl_step ::
  "(nat \<Rightarrow> 'x \<Rightarrow> 's \<Rightarrow> 's) \<Rightarrow> (nat \<Rightarrow> 'x \<Rightarrow> 's \<Rightarrow> 's) \<Rightarrow> ('s \<Rightarrow> 'f \<times> 's) \<Rightarrow>
     'x queue_op \<Rightarrow> 's \<Rightarrow> 'f list \<times> 's" where
  "impl_step put late get (Put d x) s = ([], put d x s)"
| "impl_step put late get (Late i x) s = ([], late i x s)"
| "impl_step put late get Get s = (let (f, s') = get s in ([f], s'))"

fun impl_run ::
  "(nat \<Rightarrow> 'x \<Rightarrow> 's \<Rightarrow> 's) \<Rightarrow> (nat \<Rightarrow> 'x \<Rightarrow> 's \<Rightarrow> 's) \<Rightarrow> ('s \<Rightarrow> 'f \<times> 's) \<Rightarrow>
     'x queue_op list \<Rightarrow> 's \<Rightarrow> 'f list \<times> 's" where
  "impl_run put late get [] s = ([], s)"
| "impl_run put late get (a # as) s =
     (let (out, s1) = impl_step put late get a s;
          (outs, s2) = impl_run put late get as s1
      in (out @ outs, s2))"

section \<open>The interface\<close>

locale jitter_queue =
  fixes inv :: "'s \<Rightarrow> bool"
    and abs :: "'s \<Rightarrow> 'f option list"
    and cap :: nat
    and silence :: 'f
    and frame_of :: "'x \<Rightarrow> 'f"
    and valid :: "'x \<Rightarrow> bool"
    and put :: "nat \<Rightarrow> 'x \<Rightarrow> 's \<Rightarrow> 's"
    and late :: "nat \<Rightarrow> 'x \<Rightarrow> 's \<Rightarrow> 's"
    and get :: "'s \<Rightarrow> 'f \<times> 's"
  assumes put_inv: "inv s \<Longrightarrow> valid x \<Longrightarrow> 0 < d \<Longrightarrow> length (abs s) + d \<le> cap \<Longrightarrow> inv (put d x s)"
    and put_abs: "inv s \<Longrightarrow> valid x \<Longrightarrow> 0 < d \<Longrightarrow> length (abs s) + d \<le> cap \<Longrightarrow>
      abs (put d x s) = abs s @ replicate (d - 1) None @ [Some (frame_of x)]"
    and late_inv: "inv s \<Longrightarrow> valid x \<Longrightarrow> 0 < i \<Longrightarrow> i < length (abs s) \<Longrightarrow> inv (late i x s)"
    and late_abs: "inv s \<Longrightarrow> valid x \<Longrightarrow> 0 < i \<Longrightarrow> i < length (abs s) \<Longrightarrow>
      abs (late i x s) = (abs s)[i := Some (frame_of x)]"
    and get_inv: "inv s \<Longrightarrow> 2 \<le> length (abs s) \<Longrightarrow> inv (snd (get s))"
    and get_abs: "inv s \<Longrightarrow> 2 \<le> length (abs s) \<Longrightarrow> abs (snd (get s)) = tl (abs s)"
    and get_frame: "inv s \<Longrightarrow> 2 \<le> length (abs s) \<Longrightarrow> fst (get s) = render silence (hd (abs s))"
begin

lemma step_refines:
  assumes "inv s" "op_arg_ok valid a" "spec_step cap silence frame_of a (abs s) = Some (out, q)"
  shows "fst (impl_step put late get a s) = out \<and> abs (snd (impl_step put late get a s)) = q \<and>
    inv (snd (impl_step put late get a s))"
  using assms
  by (cases a)
    (auto simp: put_inv put_abs late_inv late_abs get_inv get_abs get_frame split_beta
      split: if_splits)

lemma run_refines:
  assumes "inv s" "\<forall>a \<in> set as. op_arg_ok valid a"
    and "spec_run cap silence frame_of as (abs s) = Some (outs, q)"
  shows "fst (impl_run put late get as s) = outs \<and> abs (snd (impl_run put late get as s)) = q \<and>
    inv (snd (impl_run put late get as s))"
  using assms
proof (induction as arbitrary: s outs)
  case (Cons a as)
  from Cons.prems(3) obtain out q1 outs1 where
    s: "spec_step cap silence frame_of a (abs s) = Some (out, q1)"
    and r: "spec_run cap silence frame_of as q1 = Some (outs1, q)" and o: "outs = out @ outs1"
    by (auto split: bind_splits)
  obtain s1 where s1: "impl_step put late get a s = (out, s1)" and "abs s1 = q1" "inv s1"
    using step_refines [OF Cons.prems(1) _ s] Cons.prems(2)
    by (metis list.set_intros(1) prod.collapse)
  with Cons.IH [of s1 outs1] r Cons.prems(2) show ?case
    by (auto simp: s1 o split: prod.splits)
qed simp

text \<open>
  The order of playing: what was played, followed by what is still queued, is what was queued,
  followed by everything received since, with silence for each number that never arrived.
\<close>

lemma playout_order:
  assumes "inv s" "\<forall>a \<in> set as. op_arg_ok valid a \<and> \<not> is_late a"
    and "spec_run cap silence frame_of as (abs s) = Some (outs, q)"
  shows "fst (impl_run put late get as s) @
      map (render silence) (abs (snd (impl_run put late get as s))) =
    map (render silence) (abs s) @ concat (map (expand silence frame_of) as)"
  using run_refines [OF assms(1) _ assms(3)] spec_run_order [OF assms(3)] assms(2) by simp

end

end
