(* ===== verification/Player_Queue.thy ===== *)
theory Player_Queue
  imports Player_Buffer Frame_Queue
begin

text \<open>
  The jitter buffer of player.c as a queue of frames. \<open>pending p\<close> is the queue that a player
  state stands for: the numbers from \<open>ab_read\<close> to \<open>ab_write\<close>, each with the samples of its
  slot if the slot is ready. In the playing regime (\<open>playing_inv\<close>: synchronised, not buffering,
  at most 512 numbers in the window, nothing ready outside it) admitting a packet appends to the
  queue, a late packet fills its position, and \<open>buffer_get_frame\<close> takes the head.
\<close>

section \<open>The queue a state stands for\<close>

definition fill :: "'d player \<Rightarrow> nat" where
  "fill p = unat (seq_diff (ab_read p) (ab_write p))"

definition slot :: "'d player \<Rightarrow> nat \<Rightarrow> abuf" where
  "slot p i = audio_buffer p ! BUFIDX (ab_read p + of_nat i)"

definition samples_of :: "int \<Rightarrow> abuf \<Rightarrow> u16 list option" where
  "samples_of n b = (if ready b then Some (take (frame_shorts n) (data b)) else None)"

definition pending :: "'d player \<Rightarrow> u16 list option list" where
  "pending p = map (\<lambda>i. samples_of (frame_size p) (slot p i)) [0 ..< Suc (fill p)]"

definition buffer_wf :: "'d player \<Rightarrow> bool" where
  "buffer_wf p \<longleftrightarrow>
     length (audio_buffer p) = BUFFER_FRAMES \<and>
     (\<forall>b \<in> set (audio_buffer p). length (data b) = outframe_shorts (frame_size p))"

definition window_clean :: "'d player \<Rightarrow> bool" where
  "window_clean p \<longleftrightarrow>
     fill p < BUFFER_FRAMES \<and>
     (\<forall>i < BUFFER_FRAMES. fill p < i \<longrightarrow> \<not> ready (slot p i))"

definition queue_inv :: "'d player \<Rightarrow> bool" where
  "queue_inv p \<longleftrightarrow> buffer_wf p \<and> window_clean p \<and> ab_synced p"

definition playing_inv :: "'d player \<Rightarrow> bool" where
  "playing_inv p \<longleftrightarrow> queue_inv p \<and> \<not> ab_buffering p"

lemma length_pending [simp]: "length (pending p) = Suc (fill p)"
  by (simp add: pending_def)

lemma nth_pending: "i \<le> fill p \<Longrightarrow> pending p ! i = samples_of (frame_size p) (slot p i)"
  by (simp add: pending_def less_Suc_eq_le del: upt_Suc)

lemma ab_write_fill: "ab_write p = ab_read p + of_nat (fill p)"
  by (simp add: fill_def seq_diff_def)

lemma fill_eqI: "ab_write p = ab_read p + of_nat n \<Longrightarrow> n < 2 ^ 16 \<Longrightarrow> fill p = n"
  by (simp add: fill_def seq_diff_add unat_of_nat16)

lemma sint_seq_diff_fill:
  "fill p < 2 ^ 15 \<Longrightarrow> sint (seq_diff (ab_read p) (ab_write p)) = int (fill p)"
  using sint_small [of "seq_diff (ab_read p) (ab_write p)"] by (simp add: fill_def)

lemma frame_le_outframe [simp]: "frame_shorts n \<le> outframe_shorts n"
  by (simp add: frame_shorts_def outframe_shorts_def div_le_mono)

section \<open>Slots under an update\<close>

lemma nth_slot_update:
  assumes "length bs = BUFFER_FRAMES" "i < BUFFER_FRAMES" "j < BUFFER_FRAMES"
  shows "bs[BUFIDX (r + of_nat j) := b] ! BUFIDX (r + of_nat i) =
    (if i = j then b else bs ! BUFIDX (r + of_nat i))"
  using assms BUFIDX_inj [of i j r] by (auto simp: nth_list_update)

lemma BUFIDX_full_turn: "BUFIDX (r + of_nat BUFFER_FRAMES) = BUFIDX r"
  using BUFIDX_add [of r BUFFER_FRAMES] BUFIDX_add [of r 0] by simp

lemma samples_of_not_ready [simp]: "\<not> ready b \<Longrightarrow> samples_of n b = None"
  by (simp add: samples_of_def)

section \<open>Admitting packets\<close>

lemma put_admit_ahead:
  assumes "ab_synced p" "rtp_running rtp" "0 < d" "d < 2 ^ 15"
    and s: "seqno = ab_write p + of_nat d"
  obtains sent where
    "put_admit rtp seqno p =
       Inr (p\<lparr>ab_write := seqno\<rparr>, Some (BUFIDX seqno), sint (seq_diff (ab_read p) seqno), sent)"
    "d = 1 \<longrightarrow> sent = []"
    "1 < d \<longrightarrow> (\<exists>req. sent = [(rtp_client rtp, req)] \<and>
       read_resend_request req = Some (ab_write p + 1, of_nat (d - 1)))"
proof (cases "d = 1")
  case True
  then have "put_admit rtp seqno p =
      Inr (p\<lparr>ab_write := seqno\<rparr>, Some (BUFIDX seqno), sint (seq_diff (ab_read p) seqno), [])"
    using assms(1) by (simp add: put_admit_def s seq_diff_add)
  with True show ?thesis by (intro that) auto
next
  case False
  have diff: "seq_diff (ab_write p) seqno = of_nat d" by (simp add: s seq_diff_add)
  have "unat (of_nat d :: u16) = d" using assms(4) by (simp add: unat_of_nat16)
  with False assms(3,4) have ne: "(of_nat d :: u16) \<noteq> 1" and ord: "seq_order (ab_write p) seqno"
    by (auto simp: seq_order_iff diff)
  obtain req where req: "rtp_request_resend rtp (ab_write p + 1) (seqno - 1) = Inr (rtp_client rtp, req)"
    and rd: "read_resend_request req = Some (ab_write p + 1, seqno - 1 - (ab_write p + 1) + 1)"
    using rtp_request_resend_running [OF assms(2)] by blast
  have "seqno - 1 - (ab_write p + 1) + 1 = of_nat (d - 1)"
    using assms(3) by (simp add: s of_nat_diff)
  then have rd': "read_resend_request req = Some (ab_write p + 1, of_nat (d - 1))" using rd by simp
  have "put_admit rtp seqno p = Inr (p\<lparr>ab_write := seqno\<rparr>, Some (BUFIDX seqno),
      sint (seq_diff (ab_read p) seqno), [(rtp_client rtp, req)])"
    using assms(1) by (simp add: put_admit_def diff ne ord req)
  then show ?thesis using rd' False by (intro that) auto
qed

lemma put_admit_first:
  assumes "\<not> ab_synced p"
  shows "put_admit rtp seqno p =
    Inr (p\<lparr>ab_write := seqno, ab_read := seqno, ab_synced := True\<rparr>, Some (BUFIDX seqno), 0, [])"
  using assms by (simp add: put_admit_def seq_diff_def)

lemma put_admit_late:
  assumes "ab_synced p" "fill p < 2 ^ 15" "0 < i" "i \<le> fill p"
    and s: "seqno = ab_read p + of_nat i"
  shows "put_admit rtp seqno p = Inr (p, Some (BUFIDX seqno), int (fill p), [])"
proof -
  have i: "unat (of_nat i :: u16) = i" using assms(2,4) by (simp add: unat_of_nat16)
  have "seq_diff (ab_write p) seqno = of_nat i - of_nat (fill p)"
    by (simp add: s seq_diff_def ab_write_fill [of p])
  then have bwd: "seq_diff (ab_write p) seqno = - of_nat (fill p - i)"
    using assms(4) by (simp add: of_nat_diff)
  have k: "fill p - i < 2 ^ 15" using assms(2) by simp
  have u: "unat (- (of_nat (fill p - i) :: u16)) = (if fill p - i = 0 then 0 else 2 ^ 16 - (fill p - i))"
    using k unat_uminus_of_nat [of "fill p - i", where 'a = 16] by auto
  have ne: "seq_diff (ab_write p) seqno \<noteq> 1"
  proof
    assume "seq_diff (ab_write p) seqno = 1"
    then have "unat (- (of_nat (fill p - i) :: u16)) = 1" by (simp add: bwd)
    with u k show False by (auto split: if_splits)
  qed
  have ord: "\<not> seq_order (ab_write p) seqno"
    using u k by (auto simp: seq_order_iff bwd)
  have "seq_order (ab_read p) seqno"
    using assms(2-4) i by (simp add: seq_order_iff s seq_diff_add)
  with ne ord assms(1) show ?thesis
    by (simp add: put_admit_def sint_seq_diff_fill [OF assms(2)])
qed


lemma put_admit_behind:
  assumes "ab_synced p" "fill p + j < 2 ^ 15" and s: "seqno = ab_read p - of_nat j"
  shows "put_admit rtp seqno p = Inr (p, None, int (fill p), [])"
proof -
  let ?m = "fill p + j"
  have w: "seq_diff (ab_write p) seqno = - of_nat ?m"
    by (simp add: s seq_diff_def ab_write_fill [of p])
  have r: "seq_diff (ab_read p) seqno = - of_nat j" by (simp add: s seq_diff_def)
  have u: "unat (- (of_nat k :: u16)) = (if k = 0 then 0 else 2 ^ 16 - k)" if "k < 2 ^ 15" for k
    using that unat_uminus_of_nat [of k, where 'a = 16] by auto
  have "seq_diff (ab_write p) seqno \<noteq> 1"
  proof
    assume "seq_diff (ab_write p) seqno = 1"
    then have "unat (- (of_nat ?m :: u16)) = 1" unfolding w by simp
    with u [OF assms(2)] assms(2) show False by (auto split: if_splits)
  qed
  moreover have "\<not> seq_order (ab_write p) seqno"
    unfolding seq_order_iff w u [OF assms(2)] using assms(2) by auto
  moreover have "j < 2 ^ 15" using assms(2) by simp
  then have "\<not> seq_order (ab_read p) seqno"
    unfolding seq_order_iff r using u [of j] by auto
  moreover have "fill p < 2 ^ 15" using assms(2) by simp
  ultimately show ?thesis
    using assms(1) by (simp add: put_admit_def sint_seq_diff_fill)
qed

section \<open>Storing a frame\<close>

lemma put_start_frame [simp]:
  "audio_buffer (put_start bsf n p) = audio_buffer p" "ab_read (put_start bsf n p) = ab_read p"
  "ab_write (put_start bsf n p) = ab_write p" "ab_synced (put_start bsf n p) = ab_synced p"
  "decoder (put_start bsf n p) = decoder p" "frame_size (put_start bsf n p) = frame_size p"
  "sampling_rate (put_start bsf n p) = sampling_rate p"
  by (simp_all add: put_start_def)

lemma put_start_playing [simp]: "\<not> ab_buffering p \<Longrightarrow> put_start bsf n p = p"
  by (simp add: put_start_def)

lemma fill_cong: "ab_read p = ab_read q \<Longrightarrow> ab_write p = ab_write q \<Longrightarrow> fill p = fill q"
  by (simp add: fill_def)

lemma put_start_queue [simp]:
  "fill (put_start bsf n p) = fill p" "slot (put_start bsf n p) i = slot p i"
  "pending (put_start bsf n p) = pending p" "queue_inv (put_start bsf n p) = queue_inv p"
proof -
  show f: "fill (put_start bsf n p) = fill p" by (rule fill_cong) simp_all
  show sl: "slot (put_start bsf n p) i = slot p i" for i by (simp add: slot_def)
  show "pending (put_start bsf n p) = pending p" by (simp add: pending_def f sl)
  show "queue_inv (put_start bsf n p) = queue_inv p"
    by (simp add: queue_inv_def buffer_wf_def window_clean_def f sl)
qed

text \<open>Storing a frame for the number \<open>i\<close> after \<open>ab_read\<close>, in a window of \<open>n\<close>.\<close>

lemma stored_queue:
  assumes p: "queue_inv p" and n: "fill p \<le> n" "n < BUFFER_FRAMES" and i: "i \<le> n"
    and ahead: "fill p < i \<longrightarrow> i = n" "i \<le> fill p \<longrightarrow> n = fill p"
    and len: "length out = outframe_shorts (frame_size p)"
    and q: "q = p\<lparr>ab_write := ab_read p + of_nat n, decoder := d,
      audio_buffer := (audio_buffer p)[BUFIDX (ab_read p + of_nat i) := \<lparr>ready = True, data = out\<rparr>]\<rparr>"
  shows "queue_inv q" "fill q = n"
    "pending q = (pending p @ replicate (n - fill p) None)
       [i := Some (take (frame_shorts (frame_size p)) out)]"
proof -
  have L: "length (audio_buffer p) = BUFFER_FRAMES" using p by (simp add: queue_inv_def buffer_wf_def)
  show f: "fill q = n" using n by (intro fill_eqI) (simp_all add: q BUFFER_FRAMES_def)
  have sl: "slot q j = (if j = i then \<lparr>ready = True, data = out\<rparr> else slot p j)"
    if "j < BUFFER_FRAMES" for j
    using nth_slot_update [OF L that, of i] i n by (auto simp: slot_def q)
  have nr: "\<not> ready (slot p j)" if "fill p < j" "j < BUFFER_FRAMES" for j
    using p that by (simp add: queue_inv_def window_clean_def)
  show "queue_inv q"
    using p n i sl nr len f
    by (auto simp: queue_inv_def buffer_wf_def window_clean_def q dest!: set_update_subset_insert [THEN subsetD])
  show "pending q = (pending p @ replicate (n - fill p) None)
       [i := Some (take (frame_shorts (frame_size p)) out)]"
  proof (rule nth_equalityI)
    show len': "length (pending q) = length ((pending p @ replicate (n - fill p) None)
       [i := Some (take (frame_shorts (frame_size p)) out)])" using f n by simp
    fix j assume "j < length (pending q)"
    then have j: "j \<le> n" by (simp add: f)
    then have jB: "j < BUFFER_FRAMES" using n by simp
    have "pending q ! j = samples_of (frame_size p) (slot q j)"
      using j f by (simp add: nth_pending q)
    moreover have "(pending p @ replicate (n - fill p) None) ! j = samples_of (frame_size p) (slot p j)"
      using j jB nr [of j] by (auto simp: nth_append nth_pending)
    ultimately show "pending q ! j = (pending p @ replicate (n - fill p) None)
       [i := Some (take (frame_shorts (frame_size p)) out)] ! j"
      using sl [OF jB] i j n by (auto simp: nth_list_update samples_of_def)
  qed
qed

section \<open>Packets refine queue operations\<close>

text \<open>
  \<open>decodes\<close>: the decoder accepts the payload in the slot of \<open>seqno\<close> and fills the slot's array.
\<close>

definition decodes ::
  "'d decode_fun \<Rightarrow> bytes \<Rightarrow> u16 \<Rightarrow> 'd player \<Rightarrow> 'd \<Rightarrow> u16 list \<Rightarrow> bool" where
  "decodes dec pkt seqno p d out \<longleftrightarrow>
     dec (decoder p) pkt (data (audio_buffer p ! BUFIDX seqno)) = Inr (d, out) \<and>
     length out = outframe_shorts (frame_size p)"

lemma put_ahead_refines:
  assumes p: "queue_inv p" and rtp: "rtp_running rtp"
    and d: "0 < k" "Suc (fill p) + k \<le> BUFFER_FRAMES"
    and s: "seqno = ab_write p + of_nat k"
    and dec: "decodes dec pkt seqno p d out"
  obtains q sent where
    "player_put_packet dec bsf rtp seqno pkt p = Inr (put_start bsf (int (fill q)) q, sent)"
    "queue_inv q" "fill q = fill p + k" "ab_buffering q = ab_buffering p"
    "frame_size q = frame_size p" "decoder q = d" "ab_write q = seqno" "ab_read q = ab_read p"
    "pending q = pending p @ replicate (k - 1) None @ [Some (take (frame_shorts (frame_size p)) out)]"
    "k = 1 \<longrightarrow> sent = []"
    "1 < k \<longrightarrow> (\<exists>req. sent = [(rtp_client rtp, req)] \<and>
       read_resend_request req = Some (ab_write p + 1, of_nat (k - 1)))"
proof -
  let ?n = "fill p + k"
  let ?q = "p\<lparr>ab_write := ab_read p + of_nat ?n, decoder := d,
      audio_buffer := (audio_buffer p)[BUFIDX (ab_read p + of_nat ?n) := \<lparr>ready = True, data = out\<rparr>]\<rparr>"
  have kb: "k < 2 ^ 15" "?n < BUFFER_FRAMES" "?n < 2 ^ 15" using d by (simp_all add: BUFFER_FRAMES_def)
  have s': "seqno = ab_read p + of_nat ?n" by (simp add: s ab_write_fill [of p])
  have syn: "ab_synced p" using p by (simp add: queue_inv_def)
  obtain sent where adm: "put_admit rtp seqno p =
       Inr (p\<lparr>ab_write := seqno\<rparr>, Some (BUFIDX seqno), sint (seq_diff (ab_read p) seqno), sent)"
    and sent: "k = 1 \<longrightarrow> sent = []"
    "1 < k \<longrightarrow> (\<exists>req. sent = [(rtp_client rtp, req)] \<and>
       read_resend_request req = Some (ab_write p + 1, of_nat (k - 1)))"
    using put_admit_ahead [OF syn rtp d(1) kb(1) s] by metis
  note st = stored_queue [where p = p and n = ?n and i = ?n and out = out and d = d,
    OF p _ _ _ _ _ _ refl]
  have q: "queue_inv ?q" "fill ?q = ?n" "pending ?q = (pending p @ replicate (?n - fill p) None)
       [?n := Some (take (frame_shorts (frame_size p)) out)]"
    using st d(1) dec kb(2) by (simp_all add: decodes_def)
  have sint: "sint (seq_diff (ab_read p) seqno) = int ?n"
    using kb(3) by (simp only: s' seq_diff_add sint16_of_nat)
  have run: "player_put_packet dec bsf rtp seqno pkt p = Inr (put_start bsf (int (fill ?q)) ?q, sent)"
    using dec unfolding player_put_packet_def adm q(2) sint
    by (simp add: put_store_def decodes_def s')
  have pend: "pending ?q = pending p @ replicate (k - 1) None @
      [Some (take (frame_shorts (frame_size p)) out)]"
  proof -
    obtain j where j: "k = Suc j" using d(1) by (cases k) auto
    have "replicate k None = replicate j None @ [None :: u16 list option]"
      by (simp add: j replicate_append_same)
    then show ?thesis unfolding q(3) by (simp add: j list_update_append)
  qed
  show ?thesis
    by (rule that [OF run q(1) q(2) _ _ _ _ _ pend sent]) (simp_all add: s')
qed

lemma put_late_refines:
  assumes p: "queue_inv p" and i: "0 < i" "i \<le> fill p"
    and s: "seqno = ab_read p + of_nat i"
    and dec: "decodes dec pkt seqno p d out"
  obtains q where
    "player_put_packet dec bsf rtp seqno pkt p = Inr (put_start bsf (int (fill q)) q, [])"
    "queue_inv q" "fill q = fill p" "ab_buffering q = ab_buffering p"
    "frame_size q = frame_size p" "decoder q = d" "ab_read q = ab_read p"
    "pending q = (pending p)[i := Some (take (frame_shorts (frame_size p)) out)]"
proof -
  let ?q = "p\<lparr>ab_write := ab_read p + of_nat (fill p), decoder := d,
      audio_buffer := (audio_buffer p)[BUFIDX (ab_read p + of_nat i) := \<lparr>ready = True, data = out\<rparr>]\<rparr>"
  have fb: "fill p < BUFFER_FRAMES" using p by (simp add: queue_inv_def window_clean_def)
  have syn: "ab_synced p" using p by (simp add: queue_inv_def)
  have adm: "put_admit rtp seqno p = Inr (p, Some (BUFIDX seqno), int (fill p), [])"
    using put_admit_late [OF syn _ i s] fb by (simp add: BUFFER_FRAMES_def)
  note st = stored_queue [where p = p and n = "fill p" and i = i and out = out and d = d,
    OF p _ _ _ _ _ _ refl]
  have q: "queue_inv ?q" "fill ?q = fill p"
    "pending ?q = (pending p)[i := Some (take (frame_shorts (frame_size p)) out)]"
    using st i dec fb by (simp_all add: decodes_def)
  have "p\<lparr>ab_write := ab_read p + of_nat (fill p)\<rparr> = p" by (simp flip: ab_write_fill)
  then have q': "?q = p\<lparr>decoder := d,
      audio_buffer := (audio_buffer p)[BUFIDX seqno := \<lparr>ready = True, data = out\<rparr>]\<rparr>"
    by (metis player.surjective player.update_convs(1,6) s player.fold_congs(3))
  have "player_put_packet dec bsf rtp seqno pkt p = Inr (put_start bsf (int (fill ?q)) ?q, [])"
    using dec unfolding player_put_packet_def adm q(2) unfolding q'
    by (simp add: put_store_def decodes_def)
  then show ?thesis using q by (intro that [of ?q]) simp_all
qed

text \<open>A number that is not after \<open>ab_read\<close> is dropped; in particular \<open>ab_read\<close> itself.\<close>

lemma put_behind_dropped:
  assumes "ab_synced p" "\<not> ab_buffering p" "fill p + j < 2 ^ 15"
  shows "player_put_packet dec bsf rtp (ab_read p - of_nat j) pkt p = Inr (p, [])"
  using assms by (simp add: player_put_packet_def put_admit_behind [OF assms(1,3) refl] put_store_def)

section \<open>Playing refines taking the head\<close>

lemma resend_loop_returns:
  "rtp_running rtp \<Longrightarrow> \<exists>ds. resend_loop rtp p half i = Inr ds"
proof (induction rtp p half i rule: resend_loop.induct)
  case (1 rtp p half i)
  show ?case
  proof (cases "0 < i \<and> i < half")
    case True
    let ?nxt = "ab_read p + word_of_int i"
    obtain d where d: "rtp_request_resend rtp ?nxt ?nxt = Inr d"
      using rtp_request_resend_running [OF "1.prems"] by blast
    have "\<exists>ds. resend_loop rtp p half (i * 2) = Inr ds"
      using "1.IH" True d "1.prems" by (cases "ready (audio_buffer p ! BUFIDX ?nxt)") fastforce+
    then obtain ds where ds: "resend_loop rtp p half (i * 2) = Inr ds" ..
    show ?thesis
      by (subst resend_loop.simps) (simp add: True d ds Let_def)
  next
    case False
    then show ?thesis by (subst resend_loop.simps) auto
  qed
qed

text \<open>
  What the player hears of a frame: its first \<open>frame_size\<close> sample pairs. For a number that did
  not arrive these are zero.
\<close>

definition silence_of :: "int \<Rightarrow> u16 list" where
  "silence_of n = replicate (frame_shorts n) 0"

definition heard :: "int \<Rightarrow> u16 list \<Rightarrow> u16 list" where
  "heard n f = take (frame_shorts n) f"

lemma slot_in_range: "buffer_wf p \<Longrightarrow> slot p i \<in> set (audio_buffer p)"
  using BUFIDX_less by (auto simp: buffer_wf_def slot_def intro!: nth_mem)

lemma length_memset_zero: "n \<le> length xs \<Longrightarrow> length (memset_zero n xs) = length xs"
  by (simp add: memset_zero_def)

lemma heard_memset: "heard n (memset_zero (frame_shorts n) xs) = silence_of n"
  by (simp add: heard_def memset_zero_def silence_of_def)

lemma get_refines:
  assumes p: "playing_inv p" and rtp: "rtp_running rtp" and two: "0 < fill p"
  obtains f q sent where
    "buffer_get_frame bsf rtp p = Inr (Some f, q, sent)"
    "heard (frame_size p) f = render (silence_of (frame_size p)) (hd (pending p))"
    "length f = outframe_shorts (frame_size p)"
    "playing_inv q" "fill q = fill p - 1" "pending q = tl (pending p)"
    "frame_size q = frame_size p" "decoder q = decoder p" "ab_write q = ab_write p"
    "ab_read q = ab_read p + 1"
proof -
  have wf: "buffer_wf p" and cl: "window_clean p" and syn: "ab_synced p"
    and nb: "\<not> ab_buffering p" and fb: "fill p < BUFFER_FRAMES"
    using p by (auto simp: playing_inv_def queue_inv_def window_clean_def)
  have sint: "sint (seq_diff (ab_read p) (ab_write p)) = int (fill p)"
    using fb by (intro sint_seq_diff_fill) (simp add: BUFFER_FRAMES_def)
  let ?b = "audio_buffer p ! BUFIDX (ab_read p)"
  let ?f = "if \<not> ready ?b then memset_zero (frame_shorts (frame_size p)) (data ?b) else data ?b"
  have b0: "?b = slot p 0" by (simp add: slot_def)
  let ?e = "bf_est_update (sint (seq_diff (ab_read p + 1) (ab_write p))) (est p)"
  let ?p1 = "p\<lparr>ab_read := ab_read p + 1, est := ?e\<rparr>"
  let ?q = "?p1\<lparr>audio_buffer := (audio_buffer p)[BUFIDX (ab_read p) := \<lparr>ready = False, data = ?f\<rparr>]\<rparr>"
  obtain sent where sent: "resend_loop rtp ?p1 (cdiv bsf 2) 16 = Inr sent"
    using resend_loop_returns [OF rtp] by blast
  have run: "buffer_get_frame bsf rtp p = Inr (Some ?f, ?q, sent)"
    using nb syn two fb sent by (simp add: buffer_get_frame_def sint Let_def)
  have len: "length (data ?b) = outframe_shorts (frame_size p)"
    using wf slot_in_range [OF wf, of 0] by (simp add: buffer_wf_def b0)
  then have lf: "length ?f = outframe_shorts (frame_size p)" by (simp add: length_memset_zero)
  have hd: "hd (pending p) = samples_of (frame_size p) (slot p 0)"
    by (simp add: pending_def upt_rec del: upt_Suc)
  have heard: "heard (frame_size p) ?f = render (silence_of (frame_size p)) (hd (pending p))"
    by (auto simp: hd samples_of_def render_def heard_memset b0) (simp add: heard_def)
  have L: "length (audio_buffer p) = BUFFER_FRAMES" using wf by (simp add: buffer_wf_def)
  have wr: "ab_write p = ab_read ?q + of_nat (fill p - 1)"
    using two by (simp add: ab_write_fill [of p] of_nat_diff)
  have fq: "fill ?q = fill p - 1"
    using wr fb by (intro fill_eqI) (simp_all add: BUFFER_FRAMES_def)
  have sl: "slot ?q i = (if Suc i = BUFFER_FRAMES then \<lparr>ready = False, data = ?f\<rparr> else slot p (Suc i))"
    if "i < BUFFER_FRAMES" for i
  proof -
    have ix: "BUFIDX (ab_read p + 1 + of_nat i) = BUFIDX (ab_read p + of_nat (Suc i))"
      by (simp add: algebra_simps)
    have "slot ?q i = (audio_buffer p)[BUFIDX (ab_read p + of_nat 0) := \<lparr>ready = False, data = ?f\<rparr>] !
        BUFIDX (ab_read p + of_nat (Suc i))"
      by (simp add: slot_def ix del: of_nat_Suc)
    also have "\<dots> = (if Suc i = BUFFER_FRAMES then \<lparr>ready = False, data = ?f\<rparr> else slot p (Suc i))"
    proof (cases "Suc i = BUFFER_FRAMES")
      case True
      then show ?thesis using L by (simp only: BUFIDX_full_turn) (simp add: BUFIDX_less)
    next
      case False
      with that have "Suc i < BUFFER_FRAMES" by simp
      then show ?thesis
        using nth_slot_update [OF L, of "Suc i" 0] by (simp add: slot_def BUFFER_FRAMES_def del: of_nat_Suc)
    qed
    finally show ?thesis .
  qed
  have "playing_inv ?q"
    using wf cl syn nb fb fq sl lf
    by (auto simp: playing_inv_def queue_inv_def buffer_wf_def window_clean_def
        dest!: set_update_subset_insert [THEN subsetD])
  moreover have "pending ?q = tl (pending p)"
  proof (rule nth_equalityI)
    show "length (pending ?q) = length (tl (pending p))" using two by (simp add: fq)
    fix j assume "j < length (pending ?q)"
    then have j: "j < fill p" using two by (simp add: fq)
    then show "pending ?q ! j = tl (pending p) ! j"
      using sl [of j] fb by (simp add: nth_pending fq nth_tl)
  qed
  ultimately show ?thesis
    using that [OF run heard lf _ fq] by simp
qed

section \<open>The interface, discharged for the code\<close>

text \<open>
  A packet \<open>k\<close> numbers after the newest, or \<open>i\<close> numbers after the next one to play, whose
  decoded slot contents are \<open>x\<close>; and the next frame the player thread hears.
\<close>

definition deliver_ahead :: "int \<Rightarrow> rtp_state \<Rightarrow> nat \<Rightarrow> u16 list \<Rightarrow> 'd player \<Rightarrow> 'd player" where
  "deliver_ahead bsf rtp k x p =
     (case player_put_packet (\<lambda>d pkt dest. Inr (d, x)) bsf rtp (ab_write p + of_nat k) [] p of
        Inl e \<Rightarrow> p
      | Inr (q, sent) \<Rightarrow> q)"

definition deliver_late :: "int \<Rightarrow> rtp_state \<Rightarrow> nat \<Rightarrow> u16 list \<Rightarrow> 'd player \<Rightarrow> 'd player" where
  "deliver_late bsf rtp i x p =
     (case player_put_packet (\<lambda>d pkt dest. Inr (d, x)) bsf rtp (ab_read p + of_nat i) [] p of
        Inl e \<Rightarrow> p
      | Inr (q, sent) \<Rightarrow> q)"

definition hear_next :: "int \<Rightarrow> rtp_state \<Rightarrow> 'd player \<Rightarrow> u16 list \<times> 'd player" where
  "hear_next bsf rtp p =
     (case buffer_get_frame bsf rtp p of
        Inl e \<Rightarrow> ([], p)
      | Inr (None, q, sent) \<Rightarrow> ([], q)
      | Inr (Some f, q, sent) \<Rightarrow> (heard (frame_size p) f, q))"

definition playing_size :: "int \<Rightarrow> 'd player \<Rightarrow> bool" where
  "playing_size n p \<longleftrightarrow> playing_inv p \<and> frame_size p = n"

definition slot_sized :: "int \<Rightarrow> u16 list \<Rightarrow> bool" where
  "slot_sized n x \<longleftrightarrow> length x = outframe_shorts n"

definition live :: "rtp_state \<Rightarrow> rtp_state" where
  "live rtp = rtp\<lparr>rtp_running := True\<rparr>"

lemma live_running [simp]: "rtp_client (live rtp) = rtp_client rtp" "rtp_running (live rtp)" "rtp_running rtp \<Longrightarrow> live rtp = rtp"
  by (simp_all add: live_def)

lemma deliver_ahead_queue:
  assumes "playing_size n p" "slot_sized n x" "0 < k" "length (pending p) + k \<le> BUFFER_FRAMES"
  shows "playing_size n (deliver_ahead bsf (live rtp) k x p) \<and>
    pending (deliver_ahead bsf (live rtp) k x p) =
      pending p @ replicate (k - 1) None @ [Some (heard n x)]"
proof -
  have q: "queue_inv p" "frame_size p = n" "\<not> ab_buffering p"
    using assms(1) by (auto simp: playing_size_def playing_inv_def)
  have dec: "decodes (\<lambda>d pkt dest. Inr (d, x)) [] (ab_write p + of_nat k) p (decoder p) x"
    using assms(2) q by (simp add: decodes_def slot_sized_def)
  have "Suc (fill p) + k \<le> BUFFER_FRAMES" using assms(4) by simp
  then show ?thesis
    by (rule put_ahead_refines [OF q(1) live_running(2) [of rtp] assms(3) _ refl dec, where bsf = bsf])
      (use q in \<open>simp_all add: deliver_ahead_def heard_def playing_size_def playing_inv_def\<close>)
qed

lemma deliver_late_queue:
  assumes "playing_size n p" "slot_sized n x" "0 < i" "i < length (pending p)"
  shows "playing_size n (deliver_late bsf rtp i x p) \<and>
    pending (deliver_late bsf rtp i x p) = (pending p)[i := Some (heard n x)]"
proof -
  have q: "queue_inv p" "frame_size p = n" "\<not> ab_buffering p"
    using assms(1) by (auto simp: playing_size_def playing_inv_def)
  have dec: "decodes (\<lambda>d pkt dest. Inr (d, x)) [] (ab_read p + of_nat i) p (decoder p) x"
    using assms(2) q by (simp add: decodes_def slot_sized_def)
  have "i \<le> fill p" using assms(4) by simp
  then show ?thesis
    by (rule put_late_refines [OF q(1) assms(3) _ refl dec, where bsf = bsf and rtp = rtp])
      (use q in \<open>simp_all add: deliver_late_def heard_def playing_size_def playing_inv_def\<close>)
qed

lemma hear_next_queue:
  assumes "playing_size n p" "2 \<le> length (pending p)"
  shows "playing_size n (snd (hear_next bsf (live rtp) p)) \<and>
    pending (snd (hear_next bsf (live rtp) p)) = tl (pending p) \<and>
    fst (hear_next bsf (live rtp) p) = render (silence_of n) (hd (pending p))"
proof -
  have q: "playing_inv p" "frame_size p = n" using assms(1) by (auto simp: playing_size_def)
  have "0 < fill p" using assms(2) by simp
  from get_refines [OF q(1) live_running(2) this, where bsf = bsf]
  obtain f r sent where "buffer_get_frame bsf (live rtp) p = Inr (Some f, r, sent)"
    "heard (frame_size p) f = render (silence_of (frame_size p)) (hd (pending p))"
    "playing_inv r" "pending r = tl (pending p)" "frame_size r = frame_size p" by metis
  with q show ?thesis by (simp add: hear_next_def playing_size_def)
qed

interpretation jq: jitter_queue "playing_size n" pending BUFFER_FRAMES "silence_of n" "heard n"
  "slot_sized n" "deliver_ahead bsf (live rtp)" "deliver_late bsf (live rtp)"
  "hear_next bsf (live rtp)"
  by unfold_locales (simp_all add: deliver_ahead_queue deliver_late_queue hear_next_queue)

section \<open>Starting, flushing, running dry, overrunning\<close>

lemma ab_resync_slots: "b \<in> set (audio_buffer (ab_resync p)) \<Longrightarrow> \<not> ready b"
  by (auto simp: ab_resync_def)

lemma buffer_wf_resync [layout_simps]: "buffer_wf p \<Longrightarrow> buffer_wf (ab_resync p)"
  by (auto simp: buffer_wf_def ab_resync_def)

lemma buffer_wf_init [layout_simps]: "buffer_wf (init_buffer heap p)"
  unfolding init_buffer_def by (rule buffer_wf_resync) (auto simp: buffer_wf_def)

text \<open>After a resync the first packet, whatever its number, starts a window of one.\<close>

lemma put_first:
  assumes wf: "buffer_wf p" and start: "0 < bsf"
    and dec: "decodes dec pkt seqno (ab_resync p) d out"
  obtains q where
    "player_put_packet dec bsf rtp seqno pkt (ab_resync p) = Inr (q, [])"
    "queue_inv q" "ab_buffering q" "frame_size q = frame_size p" "decoder q = d"
    "ab_read q = seqno" "ab_write q = seqno" "fill q = 0"
    "pending q = [Some (heard (frame_size p) out)]"
proof -
  let ?r = "ab_resync p"
  let ?p = "?r\<lparr>ab_write := seqno, ab_read := seqno, ab_synced := True\<rparr>"
  let ?q = "?p\<lparr>decoder := d,
      audio_buffer := (audio_buffer ?r)[BUFIDX seqno := \<lparr>ready = True, data = out\<rparr>]\<rparr>"
  have fs: "frame_size ?r = frame_size p" by (simp add: ab_resync_def)
  have L: "length (audio_buffer ?r) = BUFFER_FRAMES"
    using buffer_wf_resync [OF wf] by (simp add: buffer_wf_def)
  have adm: "put_admit rtp seqno ?r = Inr (?p, Some (BUFIDX seqno), 0, [])"
    by (rule put_admit_first) (simp add: ab_resync_def)
  have run: "player_put_packet dec bsf rtp seqno pkt ?r = Inr (?q, [])"
    using dec start by (simp add: player_put_packet_def adm put_store_def decodes_def put_start_def)
  have f: "fill ?q = 0" by (intro fill_eqI) simp_all
  have sl: "slot ?q i = (if i = 0 then \<lparr>ready = True, data = out\<rparr> else audio_buffer ?r ! BUFIDX (seqno + of_nat i))"
    if "i < BUFFER_FRAMES" for i
    using nth_slot_update [OF L that, of 0 seqno] by (auto simp: slot_def BUFFER_FRAMES_def)
  have nr: "\<not> ready (audio_buffer ?r ! BUFIDX x)" for x
    by (rule ab_resync_slots [of _ p], rule nth_mem) (simp add: L)
  have "queue_inv ?q"
    using buffer_wf_resync [OF wf] dec f sl nr
    by (auto simp: queue_inv_def buffer_wf_def window_clean_def decodes_def BUFFER_FRAMES_def
        dest!: set_update_subset_insert [THEN subsetD])
  moreover have "pending ?q = [Some (heard (frame_size p) out)]"
    using sl [of 0] by (simp add: pending_def f samples_of_def heard_def fs BUFFER_FRAMES_def)
  ultimately show ?thesis
  proof (intro that [OF run])
    show "fill ?q = 0" by (rule f)
    show "frame_size ?q = frame_size p" by (simp add: fs)
  qed (simp_all add: ab_resync_def)
qed

lemma get_while_buffering:
  "ab_buffering p \<Longrightarrow> buffer_get_frame bsf rtp p = Inr (None, p, [])"
  by (simp add: buffer_get_frame_def)

lemma get_underrun:
  assumes "\<not> ab_buffering p" "fill p = 0"
  shows "buffer_get_frame bsf rtp p = Inr (None, p\<lparr>ab_buffering := True\<rparr>, [])"
proof -
  have "sint (seq_diff (ab_read p) (ab_write p)) = 0"
    using sint_seq_diff_fill [of p] assms(2) by simp
  then show ?thesis using assms(1) by (simp add: buffer_get_frame_def)
qed

text \<open>
  An overrun moves \<open>ab_read\<close> to \<open>buffer_start_fill\<close> numbers before the newest and plays on
  from there.
\<close>

lemma get_overrun:
  assumes "\<not> ab_buffering p" "ab_synced p" "rtp_running rtp"
    and f: "BUFFER_FRAMES \<le> fill p" "fill p < 2 ^ 15"
    and b: "0 < bsf" "bsf \<le> 512"
  obtains f q sent where "buffer_get_frame bsf rtp p = Inr (Some f, q, sent)"
    "ab_read q = ab_write p - word_of_int bsf + 1" "ab_write q = ab_write p"
    "fill q = nat bsf - 1" "\<not> ab_buffering q" "ab_synced q"
proof -
  have sint: "sint (seq_diff (ab_read p) (ab_write p)) = int (fill p)"
    by (rule sint_seq_diff_fill) (rule f(2))
  let ?r = "ab_write p - word_of_int bsf"
  let ?p1 = "p\<lparr>ab_read := ?r + 1, est := bf_est_update (sint (seq_diff (?r + 1) (ab_write p))) (est p)\<rparr>"
  obtain sent where sent: "resend_loop rtp ?p1 (cdiv bsf 2) 16 = Inr sent"
    using resend_loop_returns [OF assms(3)] by blast
  let ?b = "audio_buffer p ! BUFIDX ?r"
  let ?f = "if \<not> ready ?b then memset_zero (frame_shorts (frame_size p)) (data ?b) else data ?b"
  let ?q = "?p1\<lparr>audio_buffer := (audio_buffer p)[BUFIDX ?r := \<lparr>ready = False, data = ?f\<rparr>]\<rparr>"
  have run: "buffer_get_frame bsf rtp p = Inr (Some ?f, ?q, sent)"
    using assms(1,2) f sent by (simp add: buffer_get_frame_def sint Let_def BUFFER_FRAMES_def)
  obtain m where m: "bsf = int (Suc m)" "m < 512"
    using b that [of "nat bsf - 1"] by auto
  have "ab_write ?q = ab_read ?q + of_nat m" by (simp add: m)
  then have "fill ?q = nat bsf - 1" using m by (intro fill_eqI) simp_all
  with run show ?thesis
  proof (intro that)
    show "\<not> ab_buffering ?q" "ab_synced ?q" using assms(1,2) by simp_all
  qed simp_all
qed

section \<open>Properties\<close>

text \<open>
  A player that has just been given an empty window: \<open>k\<close> numbers after \<open>r\<close> are expected to be
  there and none is.
\<close>

definition waiting_player :: "int \<Rightarrow> u16 \<Rightarrow> nat \<Rightarrow> 'd \<Rightarrow> 'd player" where
  "waiting_player n r k d =
     \<lparr>audio_buffer = replicate BUFFER_FRAMES \<lparr>ready = False, data = replicate (outframe_shorts n) 0\<rparr>,
      ab_read = r, ab_write = r + of_nat k, ab_buffering = False, ab_synced = True,
      decoder = d, est = est_initial, frame_size = n, sampling_rate = 44100\<rparr>"

lemma waiting_player_size:
  assumes "k < BUFFER_FRAMES"
  shows "playing_size n (waiting_player n r k d)" "fill (waiting_player n r k d) = k"
    "pending (waiting_player n r k d) = replicate (Suc k) None"
proof -
  show f: "fill (waiting_player n r k d) = k"
    using assms by (intro fill_eqI) (simp_all add: waiting_player_def BUFFER_FRAMES_def)
  have s: "\<not> ready (slot (waiting_player n r k d) i)" for i
    using BUFIDX_less by (simp add: slot_def waiting_player_def)
  show "playing_size n (waiting_player n r k d)"
    using assms s f
    by (auto simp: playing_size_def playing_inv_def queue_inv_def buffer_wf_def window_clean_def)
      (simp_all add: waiting_player_def)
  show "pending (waiting_player n r k d) = replicate (Suc k) None"
    using s by (simp add: pending_def f map_replicate_const del: upt_Suc replicate_Suc)
qed

text \<open>
  C6: a packet \<open>k\<close> numbers after the newest one is appended to the queue behind \<open>k - 1\<close> empty
  places, the invariant of the buffer is kept, and the packets that were skipped, no others, are
  asked for again; nothing is asked for when none was skipped.
\<close>

theorem packet_ahead_is_appended:
  assumes "queue_inv p" "rtp_running rtp" "0 < k" "Suc (fill p) + k \<le> BUFFER_FRAMES"
    and "decodes dec pkt (ab_write p + of_nat k) p d out"
  shows "\<exists>q sent. player_put_packet dec bsf rtp (ab_write p + of_nat k) pkt p = Inr (q, sent) \<and>
    queue_inv q \<and> ab_write q = ab_write p + of_nat k \<and> ab_read q = ab_read p \<and>
    pending q = pending p @ replicate (k - 1) None @ [Some (take (frame_shorts (frame_size p)) out)] \<and>
    (if k = 1 then sent = []
     else \<exists>req. sent = [(rtp_client rtp, req)] \<and>
       read_resend_request req = Some (ab_write p + 1, of_nat (k - 1)))"
  by (rule put_ahead_refines [OF assms(1-4) refl assms(5), where bsf = bsf])
    (use assms(3) in \<open>auto split: if_splits\<close>)

theorem packet_ahead_is_appended_witness:
  "\<exists>q req. player_put_packet (\<lambda>d pkt dest. Inr (d, [1, 2, 3, 4, 5, 6, 7, 8])) 220
      (live rtp_initial)
      1 [] (waiting_player 1 65533 1 ()) = Inr (q, [(rtp_client rtp_initial, req)]) \<and>
    pending q = [None, None, None, None, Some [1, 2]] \<and>
    read_resend_request req = Some (65535, 2)"
proof -
  let ?p = "waiting_player 1 65533 1 ()" and ?dec = "\<lambda>d pkt dest. Inr (d, [1, 2, 3, 4, 5, 6, 7, 8])"
  have p: "queue_inv ?p" "fill ?p = 1" "pending ?p = [None, None]"
    using waiting_player_size [of 1 1 65533 "()"]
    by (simp_all add: playing_size_def playing_inv_def BUFFER_FRAMES_def)
  have f: "frame_size ?p = 1" "ab_write ?p = 65534" by (simp_all add: waiting_player_def)
  have w: "(65534 + of_nat 3 :: u16) = 1" "(65534 + 1 :: u16) = 65535" by code_simp+
  have c: "replicate (3 - 1) (None :: u16 list option) = [None, None]" "frame_shorts 1 = 2"
    "take 2 [1, 2, 3, 4, 5, 6, 7, 8 :: u16] = [1, 2]" "(of_nat (3 - 1) :: u16) = 2"
    "((3 :: nat) = 1) = False"
    by (simp_all add: numeral_3_eq_3 frame_shorts_def)
  have d: "decodes ?dec [] (ab_write ?p + of_nat 3) ?p () [1, 2, 3, 4, 5, 6, 7, 8]"
    by (simp add: decodes_def waiting_player_def outframe_shorts_def)
  show ?thesis
    using packet_ahead_is_appended [OF p(1) _ _ _ d, where bsf = 220 and
        rtp = "live rtp_initial"]
    unfolding f w p(2,3) c by (auto simp: BUFFER_FRAMES_def)
qed

text \<open>
  A late packet whose number is still in the window after the next one to play fills its
  place and changes no other; the window does not move and nothing is sent.
\<close>

theorem late_packet_fills_its_place:
  assumes "queue_inv p" "0 < i" "i \<le> fill p"
    and "decodes dec pkt (ab_read p + of_nat i) p d out"
  shows "\<exists>q. player_put_packet dec bsf rtp (ab_read p + of_nat i) pkt p = Inr (q, []) \<and>
    queue_inv q \<and> fill q = fill p \<and> ab_read q = ab_read p \<and>
    pending q = (pending p)[i := Some (take (frame_shorts (frame_size p)) out)]"
  by (rule put_late_refines [OF assms(1-3) refl assms(4), where bsf = bsf and rtp = rtp]) auto

theorem late_packet_fills_its_place_witness:
  "\<exists>q. player_put_packet (\<lambda>d pkt dest. Inr (d, [1, 2, 3, 4, 5, 6, 7, 8])) 220 rtp_initial
      (65535 + 1) [] (waiting_player 1 65535 2 ()) = Inr (q, []) \<and>
    pending q = [None, Some [1, 2], None]"
proof -
  let ?p = "waiting_player 1 65535 2 ()" and ?dec = "\<lambda>d pkt dest. Inr (d, [1, 2, 3, 4, 5, 6, 7, 8])"
  have p: "queue_inv ?p" "fill ?p = 2" "pending ?p = [None, None, None]"
    using waiting_player_size [of 2 1 65535 "()"]
    by (simp_all add: playing_size_def playing_inv_def BUFFER_FRAMES_def numeral_2_eq_2)
  have f: "frame_size ?p = 1" "ab_read ?p = 65535" by (simp_all add: waiting_player_def)
  have d: "decodes ?dec [] (ab_read ?p + of_nat 1) ?p () [1, 2, 3, 4, 5, 6, 7, 8]"
    by (simp add: decodes_def f outframe_shorts_def)
  show ?thesis
    using late_packet_fills_its_place [OF p(1) _ _ d, where bsf = 220 and rtp = rtp_initial]
    unfolding f p(3) by (auto simp: p frame_shorts_def)
qed

text \<open>
  A packet whose number is not after \<open>ab_read\<close> changes nothing. This includes \<open>ab_read\<close>
  itself, the number that would be played next.
\<close>

theorem packet_behind_is_dropped:
  assumes "ab_synced p" "\<not> ab_buffering p" "fill p + j < 2 ^ 15"
  shows "player_put_packet dec bsf rtp (ab_read p - of_nat j) pkt p = Inr (p, [])"
  by (rule put_behind_dropped [OF assms])

theorem packet_behind_is_dropped_witness:
  "player_put_packet (\<lambda>d pkt dest. Inl Out_of_bounds) 220 rtp_initial 7 [] (waiting_player 352 7 3 ()) = Inr (waiting_player 352 7 3 (), [])"
  using packet_behind_is_dropped [of "waiting_player 352 7 3 ()" 0 "\<lambda>d pkt dest. Inl Out_of_bounds" 220 rtp_initial "[]"]
    waiting_player_size(2) [of 3 352 7 "()"]
  by (simp add: BUFFER_FRAMES_def) (simp add: waiting_player_def)

text \<open>
  \<open>buffer_get_frame\<close> plays the head of the queue: the samples of the number \<open>ab_read\<close>, or
  zeros when they did not arrive, and the queue loses its head; the invariant is kept.
\<close>

theorem get_frame_plays_head:
  assumes "playing_inv p" "rtp_running rtp" "0 < fill p"
  shows "\<exists>f q sent. buffer_get_frame bsf rtp p = Inr (Some f, q, sent) \<and> playing_inv q \<and>
    take (frame_shorts (frame_size p)) f =
      (case hd (pending p) of None \<Rightarrow> replicate (frame_shorts (frame_size p)) 0 | Some s \<Rightarrow> s) \<and>
    length f = outframe_shorts (frame_size p) \<and>
    pending q = tl (pending p) \<and> ab_read q = ab_read p + 1 \<and> ab_write q = ab_write p"
  by (rule get_refines [OF assms, where bsf = bsf])
    (auto simp: heard_def render_def silence_of_def split: option.splits)

theorem get_frame_plays_head_witness:
  "\<exists>f q sent. buffer_get_frame 220
      (live rtp_initial)
      (waiting_player 1 65535 2 ()) = Inr (Some f, q, sent) \<and>
    take 2 f = [0, 0] \<and> pending q = [None, None] \<and> ab_read q = 0"
proof -
  let ?p = "waiting_player 1 65535 2 ()"
  have p: "playing_inv ?p" "fill ?p = 2" "pending ?p = [None, None, None]"
    using waiting_player_size [of 2 1 65535 "()"]
    by (simp_all add: playing_size_def BUFFER_FRAMES_def numeral_2_eq_2)
  have f: "frame_size ?p = 1" "ab_read ?p = 65535" by (simp_all add: waiting_player_def)
  have fs: "frame_shorts 1 = 2" by (simp add: frame_shorts_def)
  have w: "(65535 + 1 :: u16) = 0" and z: "replicate 2 (0 :: u16) = [0, 0]"
    by code_simp (simp add: numeral_2_eq_2)
  show ?thesis
    using get_frame_plays_head [OF p(1), where bsf = 220 and
        rtp = "live rtp_initial"]
    unfolding f p(3) fs w z by (fastforce simp: p(2))
qed



text \<open>
  After a flush or at the start the buffer takes the first packet as it comes: whatever its
  number, the window starts there with that one frame, playing is held back, and nothing is
  asked for.
\<close>

theorem first_packet_starts_window:
  assumes "buffer_wf p" "0 < bsf" "decodes dec pkt seqno (player_flush p) d out"
  shows "\<exists>q. player_put_packet dec bsf rtp seqno pkt (player_flush p) = Inr (q, []) \<and>
    queue_inv q \<and> ab_buffering q \<and> ab_read q = seqno \<and> ab_write q = seqno \<and>
    pending q = [Some (take (frame_shorts (frame_size p)) out)] \<and>
    buffer_get_frame bsf rtp q = Inr (None, q, [])"
  using assms unfolding player_flush_def
  by (rule put_first [where rtp = rtp]) (auto simp: heard_def get_while_buffering)

theorem first_packet_starts_window_witness:
  "\<exists>q. player_put_packet (\<lambda>d pkt dest. Inr (d, [1, 2, 3, 4, 5, 6, 7, 8])) 220 rtp_initial 40000 []
      (player_flush (waiting_player 1 7 3 ())) = Inr (q, []) \<and>
    ab_read q = 40000 \<and> pending q = [Some [1, 2]]"
proof -
  let ?p = "waiting_player 1 7 3 ()" and ?dec = "\<lambda>d pkt dest. Inr (d, [1, 2, 3, 4, 5, 6, 7, 8])"
  have p: "buffer_wf ?p"
    using waiting_player_size [of 3 1 7 "()"]
    by (simp add: playing_size_def playing_inv_def queue_inv_def BUFFER_FRAMES_def)
  have f: "frame_size ?p = 1" by (simp add: waiting_player_def)
  have d: "decodes ?dec [] 40000 (player_flush ?p) () [1, 2, 3, 4, 5, 6, 7, 8]"
    by (simp add: decodes_def player_flush_def ab_resync_def f outframe_shorts_def)
  show ?thesis
    using first_packet_starts_window [OF p _ d, of 220 rtp_initial] unfolding f by (auto simp: frame_shorts_def)
qed

text \<open>
  Running dry and running over. An empty window makes \<open>buffer_get_frame\<close> return no frame and
  hold playing back; a window of 512 numbers or more is cut to the start fill before the newest
  number, and playing goes on from there.
\<close>

theorem underrun_and_overrun:
  assumes "\<not> ab_buffering p" "ab_synced p" "rtp_running rtp" "fill p < 2 ^ 15" "0 < bsf" "bsf \<le> 512"
  shows "(fill p = 0 \<longrightarrow> buffer_get_frame bsf rtp p = Inr (None, p\<lparr>ab_buffering := True\<rparr>, [])) \<and>
    (BUFFER_FRAMES \<le> fill p \<longrightarrow>
      (\<exists>f q sent. buffer_get_frame bsf rtp p = Inr (Some f, q, sent) \<and>
        ab_read q = ab_write p - word_of_int bsf + 1 \<and> ab_write q = ab_write p \<and>
        fill q = nat bsf - 1 \<and> \<not> ab_buffering q))"
proof (intro conjI impI)
  assume "fill p = 0"
  then show "buffer_get_frame bsf rtp p = Inr (None, p\<lparr>ab_buffering := True\<rparr>, [])"
    by (rule get_underrun [OF assms(1)])
next
  assume over: "BUFFER_FRAMES \<le> fill p"
  show "\<exists>f q sent. buffer_get_frame bsf rtp p = Inr (Some f, q, sent) \<and>
        ab_read q = ab_write p - word_of_int bsf + 1 \<and> ab_write q = ab_write p \<and>
        fill q = nat bsf - 1 \<and> \<not> ab_buffering q"
    by (rule get_overrun [OF assms(1-3) over assms(4-6)]) blast
qed

theorem underrun_and_overrun_witness:
  "\<exists>f q sent. buffer_get_frame 220
      (live rtp_initial)
      ((waiting_player 1 0 0 ())\<lparr>ab_write := 600\<rparr>) = Inr (Some f, q, sent) \<and> ab_read q = 381"
proof -
  let ?p = "(waiting_player 1 0 0 ())\<lparr>ab_write := 600\<rparr>"
  have f: "fill ?p = 600" by (rule fill_eqI) (simp_all add: waiting_player_def)
  have p: "\<not> ab_buffering ?p" "ab_synced ?p" "ab_write ?p = 600" by (simp_all add: waiting_player_def)
  show ?thesis
    using underrun_and_overrun [OF p(1,2), of
        "live rtp_initial" 220]
    unfolding f p(3) by (fastforce simp: BUFFER_FRAMES_def)
qed

end
