(* ===== verification/Player_Output.thy ===== *)
theory Player_Output
  imports Complex_Main Prelude Player_Buffer
begin

text \<open>
  The output side of player.c: the random generator and the dithered volume of a sample, the
  stuffing of a frame with one sample more or less, and the conversion of an AirPlay volume to
  the fixed-point factor. Samples are 16-bit words, arrays are lists of shorts with two shorts
  per stereo sample; a read outside the input or a write outside the output array is a fault.
  The values \<open>rand()\<close> returns are arguments.
\<close>

section \<open>Dithered volume\<close>

definition lcg_rand :: "u64 \<Rightarrow> u16 \<times> u64" where
  "lcg_rand lcg_prev = (let n = lcg_prev * 69069 + 3 in (ucast (n AND 0xffff), n))"

record dither =
  rand_a :: u16
  rand_b :: u16
  lcg_state :: u64

definition dither_init :: dither where
  "dither_init = \<lparr>rand_a = 0, rand_b = 0, lcg_state = 12345\<rparr>"

definition dithered_vol :: "int \<Rightarrow> u16 \<Rightarrow> dither \<Rightarrow> u16 \<times> dither" where
  "dithered_vol fix_volume sample d =
     (let out = sint sample * fix_volume in
      if fix_volume < 0x10000 then
        let d = d\<lparr>rand_b := rand_a d\<rparr>;
            (r, s) = lcg_rand (lcg_state d);
            d = d\<lparr>rand_a := r, lcg_state := s\<rparr>;
            out = out + sint (rand_a d);
            out = out - sint (rand_b d)
        in (word_of_int (drop_bit 16 out), d)
      else (word_of_int (drop_bit 16 out), d))"

lemma dithered_vol_unity: "dithered_vol 0x10000 x d = (x, d)"
proof -
  have "drop_bit 16 (sint x * 65536) = sint x" by (simp add: drop_bit_eq_div)
  then show ?thesis by (simp add: dithered_vol_def)
qed

lemma sint16_bounds: "- 32768 \<le> sint (x :: u16)" "sint (x :: u16) < 32768"
  using sint_ge [of x] sint_lt [of x] by simp_all

lemma sint_word_of_int16:
  "- 32768 \<le> k \<Longrightarrow> k < 32768 \<Longrightarrow> sint (word_of_int k :: u16) = k"
  by (simp add: sint_sbintrunc' signed_take_bit_int_eq_self)

text \<open>
  Below unity gain the dithered sample is the scaled sample plus the difference of two random
  shorts, rounded down; up to the factor 65534 the result always fits in a short.
\<close>

lemma dithered_vol_exact:
  assumes v: "0 \<le> v" "v \<le> 65534"
  shows "sint (fst (dithered_vol v x d)) =
    (sint x * v + sint (rand_a (snd (dithered_vol v x d))) - sint (rand_a d)) div 65536"
proof -
  obtain r s where rs: "lcg_rand (lcg_state d) = (r, s)" by fastforce
  let ?out = "sint x * v + sint r - sint (rand_a d)"
  have lo: "- 32768 * v \<le> sint x * v" and hi: "sint x * v \<le> 32767 * v"
    using v(1) sint16_bounds [of x] by (intro mult_right_mono; simp)+
  have "- 32768 * 65536 \<le> ?out" "?out < 32768 * 65536"
    using lo hi v sint16_bounds [of r] sint16_bounds [of "rand_a d"] by linarith+
  then have "- 32768 \<le> ?out div 65536" "?out div 65536 < 32768" by linarith+
  then show ?thesis
    using v by (simp add: dithered_vol_def rs Let_def drop_bit_eq_div sint_word_of_int16)
qed

section \<open>Copying and stuffing a frame\<close>

definition read_short :: "u16 list \<Rightarrow> int \<Rightarrow> fault + u16" where
  "read_short buf i = (if 0 \<le> i \<and> i < int (length buf) then Inr (buf ! nat i) else Inl Out_of_bounds)"

text \<open>\<open>n\<close> turns of \<open>*outptr++ = dithered_vol(*inptr++)\<close>, twice: output, next input index.\<close>

fun copy_loop ::
  "int \<Rightarrow> u16 list \<Rightarrow> nat \<Rightarrow> int \<Rightarrow> dither \<Rightarrow> fault + (u16 list \<times> int \<times> dither)" where
  "copy_loop fv inbuf 0 ip d = Inr ([], ip, d)"
| "copy_loop fv inbuf (Suc n) ip d =
     (case (read_short inbuf ip, read_short inbuf (ip + 1)) of
        (Inr l, Inr r) \<Rightarrow>
          (let (ol, d1) = dithered_vol fv l d;
               (orr, d2) = dithered_vol fv r d1
           in case copy_loop fv inbuf n (ip + 2) d2 of
                Inl e \<Rightarrow> Inl e
              | Inr (out, ip', d') \<Rightarrow> Inr (ol # orr # out, ip', d'))
      | _ \<Rightarrow> Inl Out_of_bounds)"

definition midpoint :: "u16 \<Rightarrow> u16 \<Rightarrow> u16" where
  "midpoint a b = word_of_int (drop_bit 1 (sint a + sint b))"

definition stuff_copy ::
  "int \<Rightarrow> int \<Rightarrow> int \<Rightarrow> int \<Rightarrow> u16 list \<Rightarrow> dither \<Rightarrow> fault + (u16 list \<times> dither)" where
  "stuff_copy fv fsize stuff stuffsamp inbuf d =
     (case copy_loop fv inbuf (nat stuffsamp) 0 d of
        Inl e \<Rightarrow> Inl e
      | Inr (out1, ip, d) \<Rightarrow>
          if stuff = 0 then Inr (out1, d)
          else
            (case (if stuff = 1 then
                     (case (read_short inbuf (ip - 2), read_short inbuf ip,
                            read_short inbuf (ip - 1), read_short inbuf (ip + 1)) of
                        (Inr a, Inr b, Inr a', Inr b') \<Rightarrow>
                          (let (ol, d1) = dithered_vol fv (midpoint a b) d;
                               (orr, d2) = dithered_vol fv (midpoint a' b') d1
                           in Inr ([ol, orr], ip, d2))
                      | _ \<Rightarrow> Inl Out_of_bounds)
                   else if stuff = -1 then Inr ([], ip + 2, d)
                   else Inr ([], ip, d)) of
               Inl e \<Rightarrow> Inl e
             | Inr (out2, ip, d) \<Rightarrow>
                 (case copy_loop fv inbuf (nat (fsize + stuff - stuffsamp)) ip d of
                    Inl e \<Rightarrow> Inl e
                  | Inr (out3, ip, d) \<Rightarrow> Inr (out1 @ out2 @ out3, d))))"

definition stuff_buffer ::
  "int \<Rightarrow> real \<Rightarrow> int \<Rightarrow> int \<Rightarrow> int \<Rightarrow> int \<Rightarrow> u16 list \<Rightarrow> dither \<Rightarrow>
     fault + (int \<times> u16 list \<times> dither)" where
  "stuff_buffer fsize playback_rate rand_max rand1 rand2 fv inbuf d =
     (let p_stuff = 1 - (1 - \<bar>playback_rate - 1\<bar>) ^ nat fsize;
          finish = (\<lambda>stuff stuffsamp.
            case stuff_copy fv fsize stuff stuffsamp inbuf d of
              Inl e \<Rightarrow> Inl e
            | Inr (out, d) \<Rightarrow>
                if length out \<le> outframe_shorts fsize
                then Inr (fsize + stuff, out, d) else Inl Out_of_bounds)
      in
        if of_int rand1 < p_stuff * of_int rand_max then
          (if fsize = 1 then Inl Div_by_zero
           else finish (if playback_rate > 1 then -1 else 1) (rand2 mod \<bar>fsize - 1\<bar>))
        else finish 0 fsize)"

section \<open>What the copies produce\<close>

lemma copy_loop_unity:
  assumes "i + 2 * n \<le> length inbuf"
  shows "copy_loop 0x10000 inbuf n (int i) d =
    Inr (take (2 * n) (drop i inbuf), int (i + 2 * n), d)"
  using assms
proof (induction n arbitrary: i)
  case (Suc n)
  have nat1: "nat (int i + 1) = Suc i" by simp
  have r: "read_short inbuf (int i) = Inr (inbuf ! i)"
    "read_short inbuf (int i + 1) = Inr (inbuf ! Suc i)"
    using Suc.prems nat1 by (simp_all add: read_short_def)
  have d2: "drop i inbuf = inbuf ! i # inbuf ! Suc i # drop (i + 2) inbuf"
    using Suc.prems by (simp add: Cons_nth_drop_Suc)
  have "copy_loop 0x10000 inbuf n (int i + 2) d =
      Inr (take (2 * n) (drop (i + 2) inbuf), int (i + 2 + 2 * n), d)"
    using Suc.IH [of "i + 2"] Suc.prems by (simp add: add.commute)
  then show ?case by (simp add: r dithered_vol_unity d2)
qed simp

lemma copy_loop_length:
  "copy_loop fv inbuf n ip d = Inr (out, ip', d') \<Longrightarrow> length out = 2 * n \<and> ip' = ip + 2 * int n"
proof (induction n arbitrary: ip d out)
  case (Suc n)
  then show ?case by (fastforce simp: Let_def split: sum.splits prod.splits)
qed simp

lemma copy_loop_unity_int:
  assumes "0 \<le> ip" "ip + 2 * int n \<le> int (length inbuf)"
  shows "copy_loop 0x10000 inbuf n ip d =
    Inr (take (2 * n) (drop (nat ip) inbuf), ip + 2 * int n, d)"
  using copy_loop_unity [of "nat ip" n inbuf d] assms by simp

text \<open>At unity volume and without stuffing, the frame is copied.\<close>

lemma stuff_copy_plain:
  assumes "0 \<le> n" "2 * nat n \<le> length inbuf"
  shows "stuff_copy 0x10000 n 0 n inbuf d = Inr (take (2 * nat n) inbuf, d)"
  using copy_loop_unity [of 0 "nat n" inbuf d] assms by (simp add: stuff_copy_def)

text \<open>Dropping: one sample pair is left out.\<close>

lemma stuff_copy_drop:
  assumes "0 \<le> s" "s < n" "2 * nat n \<le> length inbuf"
  shows "stuff_copy 0x10000 n (-1) s inbuf d =
    Inr (take (2 * nat s) inbuf @ take (2 * nat (n - 1 - s)) (drop (2 * nat s + 2) inbuf), d)"
proof -
  have c1: "copy_loop 0x10000 inbuf (nat s) 0 d = Inr (take (2 * nat s) inbuf, 2 * s, d)"
    using copy_loop_unity_int [of 0 "nat s" inbuf d] assms by simp
  have ip: "nat (2 * s + 2) = 2 * nat s + 2" using assms by linarith
  have c2: "copy_loop 0x10000 inbuf (nat (n - 1 - s)) (2 * s + 2) d =
      Inr (take (2 * nat (n - 1 - s)) (drop (2 * nat s + 2) inbuf), 2 * s + 2 + 2 * (n - 1 - s), d)"
    using copy_loop_unity_int [of "2 * s + 2" "nat (n - 1 - s)" inbuf d] assms
    unfolding ip by simp
  have m: "n + - 1 - s = n - 1 - s" by simp
  show ?thesis unfolding stuff_copy_def c1 by (simp add: c2 [simplified])
qed

text \<open>
  Inserting after the first sample: the midpoint of the neighbours goes in between; one pair
  more than the announced \<open>n + 1\<close> is written, taken from beyond the frame.
\<close>

lemma stuff_copy_insert:
  assumes "0 < s" "s < n" "2 * nat n + 2 \<le> length inbuf"
  defines "k \<equiv> 2 * nat s"
  shows "stuff_copy 0x10000 n 1 s inbuf d =
    Inr (take k inbuf @ [midpoint (inbuf ! (k - 2)) (inbuf ! k), midpoint (inbuf ! (k - 1)) (inbuf ! (k + 1))]
         @ take (2 * nat (n + 1 - s)) (drop k inbuf), d)"
proof -
  have k: "2 \<le> k" "k + 1 < length inbuf" "2 * s = int k" "nat s + nat (n + 1 - s) = nat n + 1"
    using assms(1-3) by (auto simp: k_def)
  have c1: "copy_loop 0x10000 inbuf (nat s) 0 d = Inr (take k inbuf, int k, d)"
    using copy_loop_unity_int [of 0 "nat s" inbuf d] assms(1-3) by (simp add: k_def)
  have c2: "copy_loop 0x10000 inbuf (nat (n + 1 - s)) (int k) d =
      Inr (take (2 * nat (n + 1 - s)) (drop k inbuf), int k + 2 * (n + 1 - s), d)"
    using copy_loop_unity_int [of "int k" "nat (n + 1 - s)" inbuf d] assms(1-3)
    by (simp add: k_def nat_mult_distrib)
  have nats: "nat (int k - 2) = k - 2" "nat (int k - 1) = k - 1" "nat (int k + 1) = k + 1"
    using k by auto
  have rs: "read_short inbuf (int k - 2) = Inr (inbuf ! (k - 2))"
    "read_short inbuf (int k) = Inr (inbuf ! k)"
    "read_short inbuf (int k - 1) = Inr (inbuf ! (k - 1))"
    "read_short inbuf (int k + 1) = Inr (inbuf ! (k + 1))"
    using k nats by (auto simp: read_short_def)
  show ?thesis
    unfolding stuff_copy_def c1 using c2
    by (simp only: sum.case prod.case rs dithered_vol_unity Let_def if_True if_False
        one_neq_zero simp_thms append_Cons append_Nil)
qed

text \<open>Inserting before the first sample reads in front of the array.\<close>

lemma stuff_copy_insert_first:
  "stuff_copy fv n 1 0 inbuf d = Inl Out_of_bounds"
  by (simp add: stuff_copy_def read_short_def)

text \<open>The number of shorts written, at any volume.\<close>

lemma stuff_copy_length:
  assumes "stuff_copy fv n stuff s inbuf d = Inr (out, d')" "0 \<le> s" "s \<le> n" "stuff \<in> {-1, 0, 1}"
    "stuff = 0 \<longrightarrow> s = n" "stuff = -1 \<longrightarrow> s < n"
  shows "int (length out) = 2 * (n + stuff) + (if stuff = 1 then 2 else 0)"
proof -
  obtain o1 ip1 d1 where c1: "copy_loop fv inbuf (nat s) 0 d = Inr (o1, ip1, d1)"
    using assms(1) by (auto simp: stuff_copy_def split: sum.splits)
  note l1 = copy_loop_length [OF c1]
  consider "stuff = 0" | "stuff = 1" | "stuff = -1" using assms(4) by auto
  then show ?thesis
  proof cases
    case 1
    then have sn: "s = n" using assms(5) by simp
    show ?thesis using assms(1,2) l1 c1 unfolding 1 sn by (simp add: stuff_copy_def)
  next
    case 2
    then obtain a b o3 ip2 ip3 d2 d3 where o: "out = o1 @ a # b # o3"
      "copy_loop fv inbuf (nat (n + 1 - s)) ip2 d2 = Inr (o3, ip3, d3)"
      using assms(1) by (auto simp: stuff_copy_def c1 Let_def split: sum.splits prod.splits)
    then show ?thesis using copy_loop_length [OF o(2)] l1 assms(2,3) 2 by simp
  next
    case 3
    then obtain o3 ip3 d3 where o: "out = o1 @ o3"
      "copy_loop fv inbuf (nat (n + - 1 - s)) (ip1 + 2) d1 = Inr (o3, ip3, d3)"
      using assms(1) by (auto simp: stuff_copy_def c1 split: sum.splits)
    have "s < n" using assms(6) 3 by simp
    then show ?thesis using copy_loop_length [OF o(2)] o(1) l1 assms(2) 3 by simp
  qed
qed

text \<open>
  With both buffers allocated by the player, \<open>stuff_buffer\<close> only faults in the two cases above:
  a frame of one sample, and an insertion before the first sample.
\<close>

lemma copy_loop_returns:
  assumes "0 \<le> ip" "ip + 2 * int n \<le> int (length inbuf)"
  shows "\<exists>out d'. copy_loop fv inbuf n ip d = Inr (out, ip + 2 * int n, d')"
  using assms
proof (induction n arbitrary: ip d)
  case (Suc n)
  obtain l r where rd: "read_short inbuf ip = Inr l" "read_short inbuf (ip + 1) = Inr r"
    using Suc.prems by (simp add: read_short_def)
  obtain ol d1 where v1: "dithered_vol fv l d = (ol, d1)" by fastforce
  obtain orr d2 where v2: "dithered_vol fv r d1 = (orr, d2)" by fastforce
  obtain out d' where "copy_loop fv inbuf n (ip + 2) d2 = Inr (out, ip + 2 + 2 * int n, d')"
    using Suc.IH [of "ip + 2" d2] Suc.prems by auto
  then show ?case by (simp add: rd v1 v2)
qed simp

lemma stuff_copy_returns:
  assumes "0 \<le> s" "s \<le> n" "2 * n + 2 \<le> int (length inbuf)" "stuff \<in> {-1, 0, 1}"
    "stuff = 0 \<longrightarrow> s = n" "stuff = -1 \<longrightarrow> s < n" "stuff = 1 \<longrightarrow> 0 < s \<and> s < n"
  shows "\<exists>out d'. stuff_copy fv n stuff s inbuf d = Inr (out, d')"
proof -
  obtain o1 d1 where c1: "copy_loop fv inbuf (nat s) 0 d = Inr (o1, 2 * s, d1)"
    using copy_loop_returns [of 0 "nat s" inbuf fv d] assms by auto
  consider "stuff = 0" | "stuff = 1" | "stuff = -1" using assms(4) by auto
  then show ?thesis
  proof cases
    case 1
    then show ?thesis by (simp add: stuff_copy_def c1)
  next
    case 2
    have s: "0 < s" "s < n" using assms(7) 2 by auto
    obtain a b a' b' where rd: "read_short inbuf (2 * s - 2) = Inr a" "read_short inbuf (2 * s) = Inr b"
      "read_short inbuf (2 * s - 1) = Inr a'" "read_short inbuf (2 * s + 1) = Inr b'"
      using s assms(3) by (simp add: read_short_def)
    obtain ol d2 where v1: "dithered_vol fv (midpoint a b) d1 = (ol, d2)" by fastforce
    obtain orr d3 where v2: "dithered_vol fv (midpoint a' b') d2 = (orr, d3)" by fastforce
    obtain o3 ip3 d4 where c3: "copy_loop fv inbuf (nat (n + 1 - s)) (2 * s) d3 = Inr (o3, ip3, d4)"
      using copy_loop_returns [of "2 * s" "nat (n + 1 - s)" inbuf fv d3] s assms(3) by auto
    show ?thesis using 2 by (simp add: stuff_copy_def c1 rd v1 v2 c3)
  next
    case 3
    obtain o3 ip3 d4 where c3: "copy_loop fv inbuf (nat (n + - 1 - s)) (2 * s + 2) d1 = Inr (o3, ip3, d4)"
      using copy_loop_returns [of "2 * s + 2" "nat (n + - 1 - s)" inbuf fv d1] 3 assms by auto
    show ?thesis using 3 c3 by (simp add: stuff_copy_def c1)
  qed
qed

section \<open>Volume\<close>

record volume_state =
  volume :: real
  fix_volume :: int

text \<open>
  \<open>player_volume\<close>: \<open>hw\<close> is whether the output driver has a volume callback; the value it is
  called with is returned. Converting a double outside the range of int is undefined.
\<close>

definition player_volume :: "bool \<Rightarrow> real \<Rightarrow> volume_state \<Rightarrow> fault + (real option \<times> volume_state)" where
  "player_volume hw f st =
     (let linear_volume = 10 powr (5 / 100 * f) in
      if hw then Inr (Some linear_volume, st)
      else
        let v = 65536 * linear_volume in
        if v < 2147483648
        then Inr (None, st\<lparr>volume := linear_volume, fix_volume := \<lfloor>v\<rfloor>\<rparr>)
        else Inl Out_of_bounds)"

lemma player_volume_range:
  assumes "f \<le> 0"
  obtains st' where "player_volume False f st = Inr (None, st')"
    "0 \<le> fix_volume st'" "fix_volume st' \<le> 65536" "fix_volume st' = 65536 \<longleftrightarrow> f = 0"
proof -
  let ?v = "65536 * 10 powr (5 / 100 * f) :: real"
  have le1: "10 powr (5 / 100 * f) \<le> (1 :: real)" using assms powr_mono [of "5 / 100 * f" 0 "10 :: real"] by simp
  have less: "10 powr (5 / 100 * f) < (1 :: real)" if "f \<noteq> 0"
    using assms that powr_less_cancel_iff [of 10 "5 / 100 * f" 0] by simp
  have nn: "0 \<le> \<lfloor>?v\<rfloor>" by simp
  have ub: "\<lfloor>?v\<rfloor> \<le> 65536" using le1 by (simp add: floor_le_iff)
  have iff: "\<lfloor>?v\<rfloor> = 65536 \<longleftrightarrow> f = 0"
  proof (cases "f = 0")
    case False
    then have "?v < 65536" using less by simp
    then have "\<lfloor>?v\<rfloor> < 65536" by (simp add: floor_less_iff)
    then have "\<lfloor>?v\<rfloor> \<noteq> 65536" by (rule less_imp_neq)
    with False show ?thesis by (simp only: simp_thms)
  qed simp
  have run: "player_volume False f st =
      Inr (None, st\<lparr>volume := 10 powr (5 / 100 * f), fix_volume := \<lfloor>?v\<rfloor>\<rparr>)"
    using le1 by (simp add: player_volume_def Let_def)
  show ?thesis by (rule that [OF run]) (use nn ub iff in simp_all)
qed

section \<open>Properties\<close>

text \<open>
  Below unity gain the output sample is the input scaled by the 16.16 factor plus the
  difference of two successive random shorts, rounded down, and it always fits a short, for every
  factor up to 65534; at unity gain it is the input.
\<close>

theorem dither_scales_sample:
  "(0 \<le> v \<and> v \<le> 65534 \<longrightarrow>
     sint (fst (dithered_vol v x d)) =
     (sint x * v + sint (rand_a (snd (dithered_vol v x d))) - sint (rand_a d)) div 65536) \<and>
   dithered_vol 65536 x d = (x, d)"
  using dithered_vol_exact [of v x d] dithered_vol_unity [of x d] by simp

theorem dither_scales_sample_witness:
  "sint (fst (dithered_vol 0 100 dither_init)) =
     (sint (rand_a (snd (dithered_vol 0 100 dither_init)))) div 65536"
  using dither_scales_sample [of 0 100 dither_init] by (simp add: dither_init_def)

text \<open>
  Dropping a sample: at unity gain the output is the frame without the pair after the first
  \<open>s\<close> pairs, one pair shorter.
\<close>

theorem stuff_drops_one_pair:
  assumes "0 \<le> s" "s < n" "2 * nat n \<le> length inbuf"
  shows "stuff_copy 65536 n (-1) s inbuf d =
    Inr (take (2 * nat s) inbuf @ take (2 * nat (n - 1 - s)) (drop (2 * nat s + 2) inbuf), d)"
  using stuff_copy_drop [OF assms] by simp

theorem stuff_drops_one_pair_witness:
  "stuff_copy 65536 3 (-1) 1 [1, 2, 3, 4, 5, 6] dither_init = Inr ([1, 2, 5, 6], dither_init)"
  using stuff_drops_one_pair [of 1 3 "[1, 2, 3, 4, 5, 6]" dither_init] by (simp add: numeral_2_eq_2)

text \<open>
  Inserting a sample: at unity gain the midpoint of its neighbours is put after the first
  \<open>s\<close> pairs. The loop then copies the rest of the frame and one pair more, from behind the frame.
\<close>

theorem stuff_inserts_midpoint:
  assumes "0 < s" "s < n" "2 * nat n + 2 \<le> length inbuf" "k = 2 * nat s"
  shows "stuff_copy 65536 n 1 s inbuf d =
    Inr (take k inbuf @ [midpoint (inbuf ! (k - 2)) (inbuf ! k), midpoint (inbuf ! (k - 1)) (inbuf ! (k + 1))]
         @ take (2 * nat n - k + 2) (drop k inbuf), d)"
proof -
  have "2 * nat (n + 1 - s) = 2 * nat n - k + 2" using assms by auto
  then show ?thesis using stuff_copy_insert [OF assms(1-3)] assms(4) by simp
qed

theorem stuff_inserts_midpoint_witness:
  "stuff_copy 65536 2 1 1 [1, 2, 3, 8, 0, 0] dither_init =
     Inr ([1, 2, 2, 5, 3, 8, 0, 0], dither_init)"
proof -
  have m: "midpoint 1 3 = 2" "midpoint 2 8 = 5" by code_simp+
  show ?thesis
    using stuff_inserts_midpoint [of 1 2 "[1, 2, 3, 8, 0, 0]" 2 dither_init] by (simp add: m)
qed

text \<open>
  C7: with the arrays the player allocates, \<open>stuff_buffer\<close> returns, announces the frame size or
  one more or less, and stays inside the output array, unless it has to insert before the first
  sample: then it reads in front of the input.
\<close>

theorem stuff_buffer_safe:
  assumes "1 < n" "length inbuf = outframe_shorts n" "0 \<le> rand2"
    and "rate \<le> 1 \<longrightarrow> rand2 mod (n - 1) \<noteq> 0"
  shows "\<exists>k out d'. stuff_buffer n rate rand_max rand1 rand2 fv inbuf d = Inr (k, out, d') \<and>
    n - 1 \<le> k \<and> k \<le> n + 1 \<and> length out \<le> outframe_shorts n \<and> 2 * k \<le> int (length out)"
proof -
  have os: "int (outframe_shorts n) = 2 * n + 6" using assms(1) by (simp add: outframe_shorts_def)
  let ?s = "rand2 mod (n - 1)"
  have s: "0 \<le> ?s" "?s < n - 1" using assms(1) by simp_all
  have abs: "\<bar>n - 1\<bar> = n - 1" using assms(1) by simp
  have go: "\<exists>out d'. stuff_copy fv n st sm inbuf d = Inr (out, d') \<and>
      int (length out) = 2 * (n + st) + (if st = 1 then 2 else 0)"
    if "st \<in> {-1, 0, 1}" "0 \<le> sm" "sm \<le> n" "st = 0 \<longrightarrow> sm = n" "st = -1 \<longrightarrow> sm < n" "st = 1 \<longrightarrow> 0 < sm \<and> sm < n"
    for st sm
  proof -
    have "2 * n + 2 \<le> int (length inbuf)" using assms(2) os by simp
    from stuff_copy_returns [OF that(2,3) this that(1,4-6)]
    obtain out d' where o: "stuff_copy fv n st sm inbuf d = Inr (out, d')" by blast
    show ?thesis using stuff_copy_length [OF o that(2,3,1,4,5)] o by blast
  qed
  obtain o0 d0 where 0: "stuff_copy fv n 0 n inbuf d = Inr (o0, d0)" "int (length o0) = 2 * n"
    using go [of 0 n] assms(1) by auto
  obtain o1 d1 where 1: "stuff_copy fv n (-1) ?s inbuf d = Inr (o1, d1)" "int (length o1) = 2 * (n - 1)"
    using go [of "-1" ?s] s by auto
  show ?thesis
  proof (cases "rate > 1")
    case True
    then show ?thesis using 0 1 os assms(1) by (simp add: stuff_buffer_def abs Let_def)
  next
    case False
    then obtain o2 d2 where 2: "stuff_copy fv n 1 ?s inbuf d = Inr (o2, d2)"
      "int (length o2) = 2 * (n + 1) + 2"
      using go [of 1 ?s] s assms(4) by auto
    show ?thesis using False 0 2 os assms(1) by (simp add: stuff_buffer_def abs Let_def)
  qed
qed

theorem stuff_buffer_safe_witness:
  "\<exists>k out d'. stuff_buffer 352 (101 / 100) 2147483647 5 7 65536 (replicate 710 3) dither_init = Inr (k, out, d') \<and>
     351 \<le> k \<and> k \<le> 353"
  using stuff_buffer_safe [of 352 "replicate 710 3" 7 "101 / 100" 2147483647 5 65536 dither_init]
  by (simp add: outframe_shorts_def) blast

text \<open>
  An AirPlay volume of at most 0 dB gives a fixed-point factor between 0 and 65536, and unity
  exactly at 0 dB; with a hardware volume the driver is called instead and the factor is kept.
\<close>

theorem volume_factor_range:
  assumes "f \<le> 0"
  shows "(\<exists>st'. player_volume False f st = Inr (None, st') \<and> 0 \<le> fix_volume st' \<and>
      fix_volume st' \<le> 65536 \<and> (fix_volume st' = 65536 \<longleftrightarrow> f = 0)) \<and>
    player_volume True f st = Inr (Some (10 powr (5 / 100 * f)), st)"
  by (rule player_volume_range [OF assms, of st]) (auto simp: player_volume_def)

theorem volume_factor_range_witness:
  "\<exists>st'. player_volume False (-30) \<lparr>volume = 1, fix_volume = 65536\<rparr> = Inr (None, st') \<and>
     0 \<le> fix_volume st' \<and> fix_volume st' < 65536"
  using volume_factor_range [of "-30" "\<lparr>volume = 1, fix_volume = 65536\<rparr>"]
  by (auto simp: less_le)

end
