(* ===== verification/Player_Control.thy ===== *)
theory Player_Control
  imports Alac_Lossless Player_Queue Player_Output
begin

text \<open>
  The life of the player: \<open>alac_decode\<close> and \<open>init_decoder\<close> of player.c, \<open>player_play\<close>,
  \<open>player_stop\<close>, \<open>player_volume\<close> and one turn of the player thread. OpenSSL's AES is an argument:
  \<open>aes_cbc key iv data\<close> is the decryption of a whole number of blocks. What the program does to
  the outside (the output backend, the start and stop commands, the thread) is the list of
  events an operation returns.
\<close>

section \<open>Decoding a packet\<close>

definition MAX_PACKET :: nat where
  "MAX_PACKET = 2048"

type_synonym aes_fun = "bytes \<Rightarrow> bytes \<Rightarrow> bytes \<Rightarrow> bytes"

fun bytes_to_shorts :: "bytes \<Rightarrow> u16 list" where
  "bytes_to_shorts (lo # hi # bs) = load16 lo hi # bytes_to_shorts bs"
| "bytes_to_shorts _ = []"

definition shorts_to_bytes :: "u16 list \<Rightarrow> bytes" where
  "shorts_to_bytes xs = concat (map store16 xs)"

text \<open>\<open>stack\<close> is what the array \<open>packet\<close> on the stack contains before it is filled.\<close>

definition decrypt_packet :: "aes_fun \<Rightarrow> bytes \<Rightarrow> bytes \<Rightarrow> bytes \<Rightarrow> bytes \<Rightarrow> bytes" where
  "decrypt_packet aes_cbc key iv stack buf =
     (let aeslen = length buf div 16 * 16 in
      aes_cbc key iv (take aeslen buf) @ drop aeslen buf @ drop (length buf) stack)"

lemma decrypt_plain: "decrypt_packet (\<lambda>key iv d. d) key iv stack buf = buf @ drop (length buf) stack"
  unfolding decrypt_packet_def Let_def append_assoc [symmetric] append_take_drop_id ..

definition alac_decode ::
    "aes_fun \<Rightarrow> bytes \<Rightarrow> bytes \<Rightarrow> bytes \<Rightarrow> int \<Rightarrow> alac_file decode_fun" where
  "alac_decode aes_cbc key iv stack fsize alac buf dest =
     (if \<not> length buf \<le> MAX_PACKET then Inl Assert_failed
      else
        case alac_decode_frame alac (decrypt_packet aes_cbc key iv stack buf) (shorts_to_bytes dest) of
          None \<Rightarrow> Inl Out_of_bounds
        | Some (alac, out, outsize) \<Rightarrow>
            if outsize = 4 * fsize then Inr (alac, bytes_to_shorts out) else Inl Assert_failed)"

section \<open>Starting and stopping\<close>

datatype event =
    Command_start
  | Command_stop
  | Output_start int
  | Output_stop
  | Output_play "u16 list" int
  | Thread_create
  | Thread_join

record stream_cfg =
  sc_aesiv :: bytes
  sc_aeskey :: bytes
  sc_fmtp :: "int list"

record player_ctl =
  pl :: "alac_file player"
  aes_key :: bytes
  aes_iv :: bytes
  please_stop :: bool
  vol :: volume_state
  dith :: dither

definition init_decoder ::
    "(nat \<Rightarrow> u32) \<Rightarrow> int list \<Rightarrow> alac_file player \<Rightarrow> fault + alac_file player" where
  "init_decoder heap fmtp p =
     (let p = p\<lparr>frame_size := fmtp ! 1, sampling_rate := fmtp ! 11\<rparr>;
          sample_size = fmtp ! 3
      in if sample_size \<noteq> 16 then Inl (Die ''only 16-bit samples supported!'')
         else
           let alac = alac_create sample_size 2;
               alac = alac\<lparr>setinfo_max_samples_per_frame := word_of_int (frame_size p),
                 setinfo_7a := word_of_int (fmtp ! 2),
                 setinfo_sample_size := word_of_int sample_size,
                 setinfo_rice_historymult := word_of_int (fmtp ! 4),
                 setinfo_rice_initialhistory := word_of_int (fmtp ! 5),
                 setinfo_rice_kmodifier := word_of_int (fmtp ! 6),
                 setinfo_7f := word_of_int (fmtp ! 7),
                 setinfo_80 := word_of_int (fmtp ! 8),
                 setinfo_82 := word_of_int (fmtp ! 9),
                 setinfo_86 := word_of_int (fmtp ! 10),
                 setinfo_8a_rate := word_of_int (fmtp ! 11)\<rparr>
           in Inr (p\<lparr>decoder := alac_allocate_buffers heap alac\<rparr>))"

definition player_play ::
    "int \<Rightarrow> (nat \<Rightarrow> u32) \<Rightarrow> (nat \<Rightarrow> nat \<Rightarrow> u16) \<Rightarrow> stream_cfg \<Rightarrow> player_ctl
       \<Rightarrow> fault + (player_ctl \<times> event list)" where
  "player_play buffer_start_fill heap heap16 stream c =
     (if buffer_start_fill > int BUFFER_FRAMES
      then Inl (Die ''specified buffer starting fill > buffer size'')
      else
        let c = c\<lparr>aes_key := sc_aeskey stream, aes_iv := sc_aesiv stream\<rparr> in
        case init_decoder heap (sc_fmtp stream) (pl c) of
          Inl e \<Rightarrow> Inl e
        | Inr p \<Rightarrow>
            Inr (c\<lparr>pl := init_buffer heap16 p, please_stop := False\<rparr>,
                 [Command_start, Output_start (sampling_rate p), Thread_create]))"

text \<open>The buffers and the decoder are freed; what is left of them is not looked at again.\<close>

definition player_stop :: "player_ctl \<Rightarrow> player_ctl \<times> event list" where
  "player_stop c =
     (c\<lparr>please_stop := True,
        pl := (pl c)\<lparr>audio_buffer := map (\<lambda>b. b\<lparr>data := []\<rparr>) (audio_buffer (pl c))\<rparr>\<rparr>,
      [Thread_join, Output_stop, Command_stop])"

section \<open>The player thread\<close>

text \<open>
  One turn of the loop: the next frame, or silence, is stuffed or copied and played.
  \<open>rand1\<close> and \<open>rand2\<close> are the values the two calls of \<open>rand\<close> would return.
\<close>

definition player_thread_turn ::
    "int \<Rightarrow> rtp_state \<Rightarrow> int \<Rightarrow> int \<Rightarrow> int \<Rightarrow> player_ctl
       \<Rightarrow> fault + (player_ctl \<times> event list \<times> datagram list)" where
  "player_thread_turn buffer_start_fill rtp rand_max rand1 rand2 c =
     (case buffer_get_frame buffer_start_fill rtp (pl c) of
        Inl e \<Rightarrow> Inl e
      | Inr (frame, p, sent) \<Rightarrow>
          let inbuf = (case frame of None \<Rightarrow> replicate (outframe_shorts (frame_size p)) 0 | Some f \<Rightarrow> f) in
          case stuff_buffer (frame_size p) (bf_playback_rate (est p)) rand_max rand1 rand2
                 (fix_volume (vol c)) inbuf (dith c) of
            Inl e \<Rightarrow> Inl e
          | Inr (n, out, d) \<Rightarrow> Inr (c\<lparr>pl := p, dith := d\<rparr>, [Output_play out n], sent))"


section \<open>A packet of a lossless frame\<close>

definition samples :: "(u16 \<times> u16) list \<Rightarrow> u16 list" where
  "samples lrs = concat (map (\<lambda>(l, r). [l, r]) lrs)"

lemma bytes_to_shorts_store16 [simp]: "bytes_to_shorts (store16 v @ bs) = v # bytes_to_shorts bs"
proof -
  have "load16 (ucast v) (ucast (drop_bit 8 v)) = v"
    by (rule bit_word_eqI) (auto simp: load16_def bit_simps)
  then show ?thesis by (simp add: store16_def)
qed

lemma bytes_to_shorts_to_bytes [simp]: "bytes_to_shorts (shorts_to_bytes xs) = xs"
  by (induction xs) (simp_all add: shorts_to_bytes_def)

lemma length_shorts_to_bytes [simp]: "length (shorts_to_bytes xs) = 2 * length xs"
  by (induction xs) (simp_all add: shorts_to_bytes_def store16_def)

lemma drop_shorts_to_bytes: "drop (2 * n) (shorts_to_bytes xs) = shorts_to_bytes (drop n xs)"
proof (induction n arbitrary: xs)
  case (Suc n)
  then show ?case by (cases xs) (simp_all add: shorts_to_bytes_def store16_def)
qed simp

lemma length_samples [simp]: "length (samples lrs) = 2 * length lrs"
  by (induction lrs) (auto simp: samples_def)

lemma bytes_to_shorts_interleaved:
  "bytes_to_shorts (interleaved lrs @ bs) = samples lrs @ bytes_to_shorts bs"
  by (induction lrs) (auto simp: interleaved_def samples_def)

text \<open>What a packet must be for its frame to be \<open>lrs\<close>: short enough, and its plain text coded.\<close>

definition frame_packet ::
    "aes_fun \<Rightarrow> bytes \<Rightarrow> bytes \<Rightarrow> bytes \<Rightarrow> bytes \<Rightarrow> bool list \<Rightarrow> bool" where
  "frame_packet aes_cbc key iv stack buf bits \<longleftrightarrow>
     length buf \<le> MAX_PACKET \<and>
     carries (decrypt_packet aes_cbc key iv stack buf) 0 bits \<and>
     length bits + 32 \<le> 8 * length (decrypt_packet aes_cbc key iv stack buf)"

lemma alac_decode_frame_result:
  assumes "length buf \<le> MAX_PACKET"
    and "\<exists>a'. alac_decode_frame a (decrypt_packet aes_cbc key iv stack buf) (shorts_to_bytes dest) =
      Some (a', interleaved lrs @ drop (4 * length lrs) (shorts_to_bytes dest), 4 * int (length lrs)) \<and>
      decoder_ok a' cap rice"
  shows "\<exists>a'. alac_decode aes_cbc key iv stack (int (length lrs)) a buf dest =
    Inr (a', samples lrs @ drop (2 * length lrs) dest) \<and> decoder_ok a' cap rice"
proof -
  have "drop (4 * length lrs) (shorts_to_bytes dest) = shorts_to_bytes (drop (2 * length lrs) dest)"
    using drop_shorts_to_bytes [of "2 * length lrs" dest] by simp
  then show ?thesis using assms by (auto simp: alac_decode_def bytes_to_shorts_interleaved)
qed

lemma alac_decode_stereo:
  assumes enc: "encode_stereo a nsize shift weight cp_a cp_b lrs = Some bits"
    and pkt: "frame_packet aes_cbc key iv stack buf bits"
    and ok: "decoder_ok a (length lrs) rice" "size_ok (length lrs) nsize (length lrs)"
    and out: "2 * length lrs \<le> length dest"
  shows "\<exists>a'. alac_decode aes_cbc key iv stack (int (length lrs)) a buf dest =
    Inr (a', samples lrs @ drop (2 * length lrs) dest) \<and> decoder_ok a' (length lrs) rice"
  using pkt out
  by (intro alac_decode_frame_result decode_frame_stereo [OF enc _ _ ok]) (simp_all add: frame_packet_def)

lemma alac_decode_stereo_raw:
  assumes pkt: "frame_packet aes_cbc key iv stack buf (encode_stereo_raw nsize lrs)"
    and ok: "decoder_ok a (length lrs) rice" "size_ok (length lrs) nsize (length lrs)"
    and out: "2 * length lrs \<le> length dest"
  shows "\<exists>a'. alac_decode aes_cbc key iv stack (int (length lrs)) a buf dest =
    Inr (a', samples lrs @ drop (2 * length lrs) dest) \<and> decoder_ok a' (length lrs) rice"
  using pkt out
  by (intro alac_decode_frame_result decode_frame_stereo_raw [OF _ _ ok]) (simp_all add: frame_packet_def)

text \<open>The decoder that \<open>init_decoder\<close> leaves.\<close>

lemma init_decoder_ok:
  assumes "fmtp ! 3 = 16" "fmtp ! 1 = int n" "n < 2 ^ 16"
  obtains q where "init_decoder heap fmtp p = Inr q" 
    "decoder_ok (decoder q) n (word_of_int (fmtp ! 4), word_of_int (fmtp ! 5), word_of_int (fmtp ! 6))"
    "frame_size q = int n" "sampling_rate q = fmtp ! 11"
    "length (audio_buffer q) = length (audio_buffer p)"
proof -
  have u: "unat (of_nat n :: u32) = n" "unat (of_nat n * 4 :: u32) = 4 * n"
    using assms(3) unat_of_nat_small [of n, where 'a = 32] unat_of_nat_small [of "4 * n", where 'a = 32]
    by (simp_all add: mult.commute)
  have "returns (init_decoder heap fmtp p)" using assms by (simp add: init_decoder_def)
  then obtain q where q: "init_decoder heap fmtp p = Inr q" by (auto simp: returns_iff)
  show ?thesis
    by (rule that [OF q]) (use q assms u in
        \<open>auto simp: init_decoder_def decoder_ok_def alac_create_def alac_allocate_buffers_def Let_def cdiv_def\<close>)
qed

lemma init_decoder_dies:
  "fmtp ! 3 \<noteq> 16 \<Longrightarrow> init_decoder heap fmtp p = Inl (Die ''only 16-bit samples supported!'')"
  by (simp add: init_decoder_def)

section \<open>Properties\<close>

lemma outframe_room: "0 < n \<Longrightarrow> 2 * n \<le> outframe_shorts (int n)" "frame_shorts (int n) = 2 * n"
  by (simp_all add: outframe_shorts_def frame_shorts_def nat_mult_distrib)

text \<open>
  C3: from the network to the speaker's queue: a packet whose decrypted payload carries a lossless
  frame of the session's frame size, \<open>k\<close> numbers after the newest, ends up in the queue as exactly
  those samples, behind \<open>k - 1\<close> empty places; no assertion of the decoder fails, the buffer's
  invariant is kept and the decoder can take the next frame.
\<close>

theorem packet_reaches_queue:
  assumes "queue_inv p" "rtp_running rtp" "0 < k" "Suc (fill p) + k \<le> BUFFER_FRAMES"
    and "frame_size p = int (length lrs)" "decoder_ok (decoder p) (length lrs) rice"
    and "size_ok (length lrs) nsize (length lrs)"
    and "encode_stereo (decoder p) nsize shift weight cp_a cp_b lrs = Some bits"
    and "frame_packet aes_cbc key iv stack buf bits"
  shows "\<exists>q sent. player_put_packet (alac_decode aes_cbc key iv stack (frame_size p)) bsf rtp
      (ab_write p + of_nat k) buf p = Inr (q, sent) \<and>
    queue_inv q \<and> decoder_ok (decoder q) (length lrs) rice \<and>
    pending q = pending p @ replicate (k - 1) None @ [Some (samples lrs)]"
proof -
  let ?s = "ab_write p + of_nat k" let ?dest = "data (audio_buffer p ! BUFIDX ?s)"
  have "audio_buffer p ! BUFIDX ?s \<in> set (audio_buffer p)"
    using assms(1) by (intro nth_mem) (simp add: queue_inv_def buffer_wf_def)
  then have len: "length ?dest = outframe_shorts (frame_size p)"
    using assms(1) by (simp add: queue_inv_def buffer_wf_def)
  have n: "0 < length lrs" using assms(7) by (simp add: size_ok_def)
  have room: "2 * length lrs \<le> length ?dest" using len outframe_room(1) [OF n] assms(5) by simp
  obtain a' where a': "alac_decode aes_cbc key iv stack (frame_size p) (decoder p) buf ?dest =
      Inr (a', samples lrs @ drop (2 * length lrs) ?dest)" "decoder_ok a' (length lrs) rice"
    using alac_decode_stereo [OF assms(8,9,6,7) room] assms(5) by auto
  have dec: "decodes (alac_decode aes_cbc key iv stack (frame_size p)) buf ?s p a'
      (samples lrs @ drop (2 * length lrs) ?dest)"
    using a' len room by (simp add: decodes_def)
  have tk: "take (frame_shorts (frame_size p)) (samples lrs @ drop (2 * length lrs) ?dest) = samples lrs"
    using assms(5) outframe_room(2) [of "length lrs"] by simp
  show ?thesis
    by (rule put_ahead_refines [OF assms(1-4) refl dec, where bsf = bsf])
      (use a'(2) tk in auto)
qed

theorem packet_reaches_queue_witness:
  "\<exists>buf q sent. player_put_packet (alac_decode (\<lambda>key iv d. d) [] [] (replicate 2048 0) 3) 220
      (live rtp_initial) (7 + of_nat 1) buf (waiting_player 3 7 0 (stereo_decoder 3)) = Inr (q, sent) \<and>
    pending q = [None, Some [3, 3, 0, 0, 0, 0]]"
proof -
  let ?bits = "nat_bits 3 1 @ head_bits None False @ nat_bits 8 0 @ nat_bits 8 0 @
    params_bits plain_params @ params_bits plain_params @
    (rice_code 17 1 1 6 @ rice_code 16 2 3 2) @ (rice_code 17 1 1 6 @ rice_code 16 2 3 2)"
  let ?buf = "pack ?bits @ replicate 4 0" let ?lrs = "[(3, 3), (0, 0), (0, 0)] :: (u16 \<times> u16) list"
  let ?p = "waiting_player 3 7 0 (stereo_decoder 3)"
  have p: "queue_inv ?p" "fill ?p = 0" "pending ?p = [None]"
    using waiting_player_size [of 0 3 7 "stereo_decoder 3"]
    by (simp_all add: playing_size_def playing_inv_def BUFFER_FRAMES_def)
  have f: "frame_size ?p = int (length ?lrs)" "ab_write ?p = 7" "decoder ?p = stereo_decoder 3" "frame_size ?p = 3"
    by (simp_all add: waiting_player_def)
  have l: "length ?lrs = 3" by simp
  have ok: "decoder_ok (decoder ?p) (length ?lrs) (40, 10, 14)"
    unfolding l f by (rule stereo_decoder_ok) simp
  have s: "size_ok (length ?lrs) None (length ?lrs)" by (simp add: size_ok_def)
  have enc: "encode_stereo (decoder ?p) None 0 0 plain_params plain_params ?lrs = Some ?bits"
    using example_stereo by (simp only: f)
  have d: "decrypt_packet (\<lambda>key iv d. d) [] [] (replicate 2048 0) ?buf = pack ?bits @ replicate 4 0 @ replicate (2048 - length ?buf) 0"
    using decrypt_plain [of "[]" "[]" "replicate 2048 0" ?buf] by (simp only: drop_replicate append_assoc)
  have short: "length ?buf \<le> MAX_PACKET"
  proof -
    have "length (pack bs) \<le> length bs" for bs
      by (induction bs rule: pack.induct) (auto intro: le_trans)
    moreover have "length ?bits \<le> 400" by (simp add: head_bits_def params_bits_def plain_params_def rice_code_def)
    ultimately have "length (pack ?bits) \<le> 400" using le_trans by blast
    then show ?thesis by (simp add: MAX_PACKET_def del: pack.simps)
  qed
  have pkt: "frame_packet (\<lambda>key iv d. d) [] [] (replicate 2048 0) ?buf ?bits"
    unfolding frame_packet_def d using short pack_room [of ?bits 0] carries_pack [of ?bits]
    by (simp del: pack.simps)
  have sm: "samples ?lrs = [3, 3, 0, 0, 0, 0]" by (simp add: samples_def)
  show ?thesis
    using packet_reaches_queue [OF p(1) _ _ _ f(1) ok s enc pkt, of "live rtp_initial" 1 220]
    unfolding f(2,4) p(3) sm by (auto simp: p(2) BUFFER_FRAMES_def simp del: pack.simps intro!: exI [of _ ?buf])
qed

text \<open>
  C9: a session starts with what was announced: for a frame size below 2 ^ 16 and 16-bit samples the
  decoder is configured for stereo frames of that size, with the announced parameters of the entropy
  coder and all six buffers in that size, the key and the vector are those of the stream, the jitter
  buffer has its 512 slots in that size, none with a frame in it, not in step with any number and
  filling, and the start command, the output at the announced rate and the player thread are
  started, in this order. A start fill above 512 or another sample size makes the program die
  before anything is started.
\<close>

theorem session_decoder_ready:
  assumes "fmtp ! 1 = int n" "n < 2 ^ 16" "sc_fmtp stream = fmtp"
  shows "if 512 < buffer_start_fill
    then player_play buffer_start_fill heap heap16 stream c =
      Inl (Die ''specified buffer starting fill > buffer size'')
    else if fmtp ! 3 \<noteq> 16
    then player_play buffer_start_fill heap heap16 stream c =
      Inl (Die ''only 16-bit samples supported!'')
    else \<exists>c'. player_play buffer_start_fill heap heap16 stream c =
        Inr (c', [Command_start, Output_start (fmtp ! 11), Thread_create]) \<and>
      decoder_ok (decoder (pl c')) n (word_of_int (fmtp ! 4), word_of_int (fmtp ! 5), word_of_int (fmtp ! 6)) \<and>
      aes_key c' = sc_aeskey stream \<and> aes_iv c' = sc_aesiv stream \<and> \<not> please_stop c' \<and>
      frame_size (pl c') = int n \<and> sampling_rate (pl c') = fmtp ! 11 \<and>
      length (audio_buffer (pl c')) = 512 \<and>
      (\<forall>b \<in> set (audio_buffer (pl c')). \<not> ready b \<and> length (data b) = 2 * (n + 3)) \<and>
      \<not> ab_synced (pl c') \<and> ab_buffering (pl c')"
proof -
  consider "512 < buffer_start_fill" | "\<not> 512 < buffer_start_fill" "fmtp ! 3 \<noteq> 16"
    | "\<not> 512 < buffer_start_fill" "fmtp ! 3 = 16" by blast
  then show ?thesis
  proof cases
    case 1
    then show ?thesis by (simp add: player_play_def BUFFER_FRAMES_def)
  next
    case 2
    then show ?thesis using assms(3) init_decoder_dies [OF 2(2), of heap "pl c"]
      by (simp add: player_play_def BUFFER_FRAMES_def Let_def)
  next
    case 3
    obtain q where q: "init_decoder heap fmtp (pl c) = Inr q"
      "decoder_ok (decoder q) n (word_of_int (fmtp ! 4), word_of_int (fmtp ! 5), word_of_int (fmtp ! 6))"
      "frame_size q = int n" "sampling_rate q = fmtp ! 11"
      by (rule init_decoder_ok [OF 3(2) assms(1,2), of heap "pl c"])
    then show ?thesis using 3 assms(3)
      by (auto simp: player_play_def BUFFER_FRAMES_def init_buffer_def ab_resync_def outframe_shorts_def)
  qed
qed

theorem session_decoder_ready_witness:
  "\<exists>c'. player_play 220 (\<lambda>_. 0) (\<lambda>_ _. 0)
      \<lparr>sc_aesiv = [], sc_aeskey = [], sc_fmtp = [96, 352, 0, 16, 40, 10, 14, 2, 255, 0, 0, 44100]\<rparr>
      \<lparr>pl = waiting_player 0 0 0 (stereo_decoder 0), aes_key = [], aes_iv = [], please_stop = True,
       vol = \<lparr>volume = 1, fix_volume = 65536\<rparr>, dith = dither_init\<rparr> =
      Inr (c', [Command_start, Output_start 44100, Thread_create]) \<and>
    decoder_ok (decoder (pl c')) 352 (40, 10, 14) \<and> length (audio_buffer (pl c')) = 512"
  using session_decoder_ready [of "[96, 352, 0, 16, 40, 10, 14, 2, 255, 0, 0, 44100]" 352
      "\<lparr>sc_aesiv = [], sc_aeskey = [], sc_fmtp = [96, 352, 0, 16, 40, 10, 14, 2, 255, 0, 0, 44100]\<rparr>"
      220 "\<lambda>_. 0" "\<lambda>_ _. 0"] by simp blast

end
