(* ===== verification/Alac_Clz.thy ===== *)
theory Alac_Clz
  imports Alac_Entropy
begin

text \<open>
  alac.c has four bodies for \<open>count_leading_zeros\<close> and the preprocessor keeps one. Alac_Entropy
  models the one gcc builds, \<open>__builtin_clz\<close>, with its undefined value at 0. This theory models
  the two bodies written in C: the bit loop that the \<open>#if 0\<close> keeps as the reference, and the
  binary search by bytes for other compilers. The three agree on every input but 0, where the
  bodies in C answer 32.
\<close>

unbundle bit_operations_syntax

section \<open>The bodies\<close>

text \<open>The loop under \<open>#if 0\<close>: \<open>while (!(0x80000000 & input) && i < 32) ...\<close>.\<close>

function clz_loop :: "u32 \<Rightarrow> nat \<Rightarrow> nat" where
  "clz_loop input i =
     (if input AND 0x80000000 = 0 \<and> i < 32
      then clz_loop (push_bit 1 input) (i + 1)
      else i)"
  by pat_completeness auto
termination by (relation "measure (\<lambda>(input, i). 32 - i)") auto

declare clz_loop.simps [simp del]

text \<open>The code from the label \<open>found\<close> on; \<open>curbyte\<close> is an int, so its shift is arithmetic.\<close>

definition clz_found :: "u32 \<Rightarrow> nat \<Rightarrow> nat" where
  "clz_found curbyte output =
     (let (curbyte, output) =
            (if curbyte AND 0xf0 = 0 then (curbyte, output + 4)
             else (signed_drop_bit 4 curbyte, output))
      in if curbyte AND 0x8 \<noteq> 0 then output
         else if curbyte AND 0x4 \<noteq> 0 then output + 1
         else if curbyte AND 0x2 \<noteq> 0 then output + 2
         else if curbyte AND 0x1 \<noteq> 0 then output + 3
         else output + 4)"

definition clz_generic :: "u32 \<Rightarrow> nat" where
  "clz_generic input =
     (if signed_drop_bit 24 input \<noteq> 0 then clz_found (signed_drop_bit 24 input) 0
      else if signed_drop_bit 16 input AND 0xff \<noteq> 0 then clz_found (signed_drop_bit 16 input) 8
      else if signed_drop_bit 8 input AND 0xff \<noteq> 0 then clz_found (signed_drop_bit 8 input) 16
      else if input AND 0xff \<noteq> 0 then clz_found input 24
      else 32)"

section \<open>What they count\<close>

text \<open>\<open>n\<close> is the number of zero bits of \<open>x\<close> above its highest bit.\<close>

definition leading_zeros :: "u32 \<Rightarrow> nat \<Rightarrow> bool" where
  "leading_zeros x n \<longleftrightarrow>
     n \<le> 32 \<and> (\<forall>j < n. \<not> bit x (31 - j)) \<and> (n < 32 \<longrightarrow> bit x (31 - n))"

lemma leading_zeros_unique:
  assumes "leading_zeros x m" and "leading_zeros x n"
  shows "m = n"
proof (rule ccontr)
  assume "m \<noteq> n"
  then consider "m < n" | "n < m" by linarith
  then show False
  proof cases
    case 1
    with assms show False by (auto simp: leading_zeros_def)
  next
    case 2
    with assms show False by (auto simp: leading_zeros_def)
  qed
qed

lemma u32_eq_iff: "x = (y :: u32) \<longleftrightarrow> (\<forall>n < 32. bit x n = bit y n)"
proof
  show "\<forall>n < 32. bit x n = bit y n \<Longrightarrow> x = y" by (rule bit_word_eqI) simp
qed simp

lemma and_bit_test: "k < 32 \<Longrightarrow> (x :: u32) AND push_bit k 1 = 0 \<longleftrightarrow> \<not> bit x k"
  by (auto simp: u32_eq_iff bit_simps)

lemma top_bit_test: "x AND (0x80000000 :: u32) = 0 \<longleftrightarrow> \<not> bit x 31"
  using and_bit_test [of 31 x] by simp

lemma clz_loop_counts:
  assumes "i \<le> 32" and "\<forall>j < i. \<not> bit x (31 - j)"
  shows "leading_zeros x (clz_loop (push_bit i x) i)"
  using assms
proof (induction "32 - i" arbitrary: i)
  case 0
  then show ?case
    by (subst clz_loop.simps) (simp add: leading_zeros_def)
next
  case (Suc d)
  then have i: "i < 32" by simp
  show ?case
  proof (cases "bit x (31 - i)")
    case True
    then have "clz_loop (push_bit i x) i = i"
      using i by (subst clz_loop.simps) (simp add: top_bit_test bit_simps)
    with True Suc.prems show ?thesis by (simp add: leading_zeros_def)
  next
    case False
    then have "clz_loop (push_bit i x) i = clz_loop (push_bit (i + 1) x) (i + 1)"
      using i by (subst clz_loop.simps) (simp add: top_bit_test bit_simps)
    moreover have "\<forall>j < i + 1. \<not> bit x (31 - j)"
      using False Suc.prems by (auto simp: less_Suc_eq)
    ultimately show ?thesis using Suc.hyps(1) [of "i + 1"] Suc.hyps(2) i by simp
  qed
qed

text \<open>The tests of the generic body, read bit by bit.\<close>

lemma all_less_8: "(\<forall>i < (8 :: nat). P i) \<longleftrightarrow> P 0 \<and> P 1 \<and> P 2 \<and> P 3 \<and> P 4 \<and> P 5 \<and> P 6 \<and> P 7"
  by (simp add: numeral_eq_Suc All_less_Suc conj_ac)

lemma and_ff_test: "x AND (0xff :: u32) = 0 \<longleftrightarrow> (\<forall>i < 8. \<not> bit x i)"
proof -
  have m: "(0xff :: u32) = mask 8" by (simp add: mask_eq_exp_minus_1)
  have "x AND mask 8 = 0 \<longleftrightarrow> (\<forall>n < 32. n < 8 \<longrightarrow> \<not> bit x n)"
    by (auto simp: u32_eq_iff bit_simps)
  also have "\<dots> \<longleftrightarrow> (\<forall>i < 8. \<not> bit x i)"
    by (meson less_le_trans numeral_le_iff semiring_norm(69,72,70,68,71))
  finally show ?thesis by (simp only: m)
qed

lemma and_f0_test: "x AND (0xf0 :: u32) = 0 \<longleftrightarrow> (\<forall>i < 4. \<not> bit x (4 + i))"
proof -
  have m: "(0xf0 :: u32) = push_bit 4 (mask 4)" by (simp add: mask_eq_exp_minus_1)
  have "x AND push_bit 4 (mask 4) = 0 \<longleftrightarrow> (\<forall>n < 32. 4 \<le> n \<and> n < 8 \<longrightarrow> \<not> bit x n)"
    by (auto simp: u32_eq_iff bit_simps)
  also have "\<dots> \<longleftrightarrow> (\<forall>i < 4. \<not> bit x (4 + i))"
  proof (intro iffI allI impI)
    fix n :: nat
    assume "\<forall>i < 4. \<not> bit x (4 + i)" and "n < 32" and "4 \<le> n \<and> n < 8"
    then show "\<not> bit x n" by (metis add_diff_inverse_nat add_less_cancel_left leD numeral_Bit0)
  qed auto
  finally show ?thesis by (simp only: m)
qed

lemma and_one_bit_test:
  "x AND (0x8 :: u32) = 0 \<longleftrightarrow> \<not> bit x 3"
  "x AND (0x4 :: u32) = 0 \<longleftrightarrow> \<not> bit x 2"
  "x AND (0x2 :: u32) = 0 \<longleftrightarrow> \<not> bit x 1"
  "x AND (0x1 :: u32) = 0 \<longleftrightarrow> \<not> bit x 0"
  using and_bit_test [of 3 x] and_bit_test [of 2 x] and_bit_test [of 1 x] and_bit_test [of 0 x]
  by simp_all

text \<open>From \<open>found\<close> on, the lowest byte of \<open>curbyte\<close> has its highest bit found.\<close>

lemma clz_found_counts:
  assumes "\<exists>i < 8. bit curbyte i"
  shows "\<exists>k < 8. clz_found curbyte output = output + k \<and> bit curbyte (7 - k)
           \<and> (\<forall>j < k. \<not> bit curbyte (7 - j))"
proof -
  have four: "(\<forall>i < (4 :: nat). P i) \<longleftrightarrow> P 0 \<and> P 1 \<and> P 2 \<and> P 3" for P
    by (simp add: numeral_eq_Suc All_less_Suc conj_ac)
  have upto: "(\<exists>k < (8 :: nat). P k) \<longleftrightarrow> P 0 \<or> P 1 \<or> P 2 \<or> P 3 \<or> P 4 \<or> P 5 \<or> P 6 \<or> P 7" for P
    by (simp add: numeral_eq_Suc Ex_less_Suc disj_ac)
  have js: "(\<forall>j < 0. Q j) \<longleftrightarrow> True" "(\<forall>j < Suc k. Q j) \<longleftrightarrow> Q k \<and> (\<forall>j < k. Q j)"
    for Q :: "nat \<Rightarrow> bool" and k
    by (auto simp: less_Suc_eq)
  show ?thesis
    using assms
    unfolding upto clz_found_def and_f0_test four Let_def
    by (cases "bit curbyte 7"; cases "bit curbyte 6"; cases "bit curbyte 5"; cases "bit curbyte 4";
        simp add: and_one_bit_test bit_simps; (simp add: js numeral_eq_Suc; blast)?)
qed

lemma bit_shifted_byte:
  "s \<le> 24 \<Longrightarrow> i < 8 \<Longrightarrow> bit (signed_drop_bit s (x :: u32)) i \<longleftrightarrow> bit x (s + i)"
  by (auto simp: bit_simps)

text \<open>The byte shifted to the bottom holds the highest bit; \<open>output\<close> counts the bytes above it.\<close>

lemma clz_byte_counts:
  assumes s: "s \<le> 24" and z: "\<forall>n. s + 8 \<le> n \<and> n < 32 \<longrightarrow> \<not> bit input n"
    and b: "\<exists>i < 8. bit (signed_drop_bit s input) i"
  shows "leading_zeros input (clz_found (signed_drop_bit s input) (24 - s))"
proof -
  obtain k where k: "k < 8" "clz_found (signed_drop_bit s input) (24 - s) = 24 - s + k"
      "bit (signed_drop_bit s input) (7 - k)"
      "\<forall>j < k. \<not> bit (signed_drop_bit s input) (7 - j)"
    using clz_found_counts [of "signed_drop_bit s input" "24 - s"] b by blast
  have hit: "bit input (31 - (24 - s + k))"
  proof -
    have "31 - (24 - s + k) = s + (7 - k)" using s k(1) by simp
    moreover have "7 - k < 8" by simp
    ultimately show ?thesis using k(3) bit_shifted_byte [OF s, of "7 - k" input] by metis
  qed
  have miss: "\<not> bit input (31 - j)" if j: "j < 24 - s + k" for j
  proof (cases "j < 24 - s")
    case True
    then have "s + 8 \<le> 31 - j \<and> 31 - j < 32" using s by linarith
    then show ?thesis using z by blast
  next
    case False
    then have "31 - j = s + (7 - (j - (24 - s)))" and "j - (24 - s) < k" and "7 - (j - (24 - s)) < 8"
      using s j k(1) by simp_all
    then show ?thesis using k(4) bit_shifted_byte [OF s, of "7 - (j - (24 - s))" input] by metis
  qed
  show ?thesis using hit miss s k(1,2) by (simp add: leading_zeros_def)
qed

lemma shifted_byte_clear:
  assumes "s \<le> 24" and "\<not> (\<exists>i < 8. bit (signed_drop_bit s (x :: u32)) i)"
  shows "\<forall>n. s \<le> n \<and> n < s + 8 \<longrightarrow> \<not> bit x n"
proof (intro allI impI)
  fix n
  assume n: "s \<le> n \<and> n < s + 8"
  then have i: "n - s < 8" and eq: "s + (n - s) = n" by linarith+
  then have "\<not> bit (signed_drop_bit s x) (n - s)" using assms(2) by blast
  then show "\<not> bit x n" using bit_shifted_byte [OF assms(1) i, of x] eq by simp
qed

lemma clz_generic_counts: "leading_zeros input (clz_generic input)"
proof -
  have masked: "x AND 0xff \<noteq> 0 \<longleftrightarrow> (\<exists>i < 8. bit x i)" for x :: u32
    by (simp add: and_ff_test)
  have top: "signed_drop_bit 24 input \<noteq> 0 \<longleftrightarrow> (\<exists>i < 8. bit (signed_drop_bit 24 input) i)"
  proof -
    have low: "bit (signed_drop_bit 24 input) n \<longleftrightarrow> bit (signed_drop_bit 24 input) (min n 7)"
      if "n < 32" for n
      using that by (simp add: bit_simps min_def)
    have seven: "min n 7 < 8" for n :: nat by simp
    show ?thesis
    proof
      assume "signed_drop_bit 24 input \<noteq> 0"
      then obtain n where "n < 32" "bit (signed_drop_bit 24 input) n"
        unfolding u32_eq_iff [of "signed_drop_bit 24 input"] by auto
      then show "\<exists>i < 8. bit (signed_drop_bit 24 input) i" using low [of n] seven [of n] by blast
    next
      assume "\<exists>i < 8. bit (signed_drop_bit 24 input) i"
      then show "signed_drop_bit 24 input \<noteq> 0" by auto
    qed
  qed
  note clear = shifted_byte_clear [of _ input]
  consider
      (b3) "\<exists>i < 8. bit (signed_drop_bit 24 input) i"
    | (b2) "\<not> (\<exists>i < 8. bit (signed_drop_bit 24 input) i)" "\<exists>i < 8. bit (signed_drop_bit 16 input) i"
    | (b1) "\<not> (\<exists>i < 8. bit (signed_drop_bit 24 input) i)" "\<not> (\<exists>i < 8. bit (signed_drop_bit 16 input) i)"
        "\<exists>i < 8. bit (signed_drop_bit 8 input) i"
    | (b0) "\<not> (\<exists>i < 8. bit (signed_drop_bit 24 input) i)" "\<not> (\<exists>i < 8. bit (signed_drop_bit 16 input) i)"
        "\<not> (\<exists>i < 8. bit (signed_drop_bit 8 input) i)"
    by blast
  then show ?thesis
  proof cases
    case b3
    then have "clz_generic input = clz_found (signed_drop_bit 24 input) (24 - 24)"
      unfolding clz_generic_def top by simp
    moreover have "leading_zeros input (clz_found (signed_drop_bit 24 input) (24 - 24))"
      by (rule clz_byte_counts [OF _ _ b3]) auto
    ultimately show ?thesis by simp
  next
    case b2
    have "clz_generic input = clz_found (signed_drop_bit 16 input) 8"
      using b2 unfolding clz_generic_def top masked by (simp only: if_True if_False simp_thms)
    moreover have "\<forall>n. 16 + 8 \<le> n \<and> n < 32 \<longrightarrow> \<not> bit input n" using clear [of 24] b2 by simp
    ultimately show ?thesis using b2 clz_byte_counts [of 16 input] by simp
  next
    case b1
    have "clz_generic input = clz_found (signed_drop_bit 8 input) 16"
      using b1 unfolding clz_generic_def top masked by (simp only: if_True if_False simp_thms)
    moreover have "\<not> bit input n" if "8 + 8 \<le> n \<and> n < 32" for n
      using clear [OF _ b1(1)] clear [OF _ b1(2)] that by (cases "n < 24") auto
    ultimately show ?thesis using b1 clz_byte_counts [of 8 input] by simp
  next
    case b0
    have "\<not> bit input n" if "0 + 8 \<le> n \<and> n < 32" for n
      using clear [OF _ b0(1)] clear [OF _ b0(2)] clear [OF _ b0(3)] that
      by (cases "n < 16"; cases "n < 24") auto
    then have hi: "\<forall>n. 0 + 8 \<le> n \<and> n < 32 \<longrightarrow> \<not> bit input n" by blast
    show ?thesis
    proof (cases "\<exists>i < 8. bit input i")
      case True
      then have "clz_generic input = clz_found input 24"
        using b0 unfolding clz_generic_def top masked by (simp only: if_True if_False simp_thms)
      then show ?thesis using True hi clz_byte_counts [of 0 input] by simp
    next
      case False
      then have "clz_generic input = 32"
        using b0 unfolding clz_generic_def top masked by (simp only: if_False simp_thms)
      moreover have "\<not> bit input n" if "n < 32" for n using False hi that by (cases "n < 8") auto
      ultimately show ?thesis by (simp add: leading_zeros_def)
    qed
  qed
qed

section \<open>The property\<close>

lemma builtin_clz_counts:
  assumes "input \<noteq> 0"
  shows "leading_zeros input (length (takeWhile (\<lambda>i. \<not> bit input i) (rev [0..<32])))"
proof -
  let ?xs = "rev [0..<32 :: nat]" and ?P = "\<lambda>i. \<not> bit input i"
  let ?n = "length (takeWhile ?P ?xs)"
  have len: "length ?xs = 32" by simp
  have nth: "?xs ! j = 31 - j" if "j < 32" for j using that by (simp add: rev_nth del: upt.simps upt_rec_numeral)
  have le: "?n \<le> 32" using length_takeWhile_le [of ?P ?xs] len by linarith
  have "\<not> bit input (31 - j)" if "j < ?n" for j
  proof -
    have "?P (takeWhile ?P ?xs ! j)" by (rule conjunct2 [OF set_takeWhileD [OF nth_mem [OF that]]])
    then show ?thesis unfolding takeWhile_nth [OF that] nth [OF less_le_trans [OF that le]] .
  qed
  moreover have "bit input (31 - ?n)" if "?n < 32"
  proof -
    have "\<not> ?P (?xs ! ?n)" by (rule nth_length_takeWhile) (simp only: len that)
    then show ?thesis unfolding nth [OF that] by simp
  qed
  ultimately show ?thesis using le unfolding leading_zeros_def by blast
qed

text \<open>
  C22: the three bodies of \<open>count_leading_zeros\<close> agree: the binary search by bytes is the bit loop
  on every input, and gcc's \<open>__builtin_clz\<close>, the one the decoder is built with, is the loop on
  every input but 0, where it is undefined and the bodies in C answer 32.
\<close>

theorem count_leading_zeros_bodies:
  "clz_generic input = clz_loop input 0 \<and>
   count_leading_zeros input = (if input = 0 then None else Some (int (clz_loop input 0)))"
proof -
  have loop: "leading_zeros input (clz_loop input 0)"
    using clz_loop_counts [of 0 input] by simp
  then have "clz_generic input = clz_loop input 0"
    by (rule leading_zeros_unique [OF clz_generic_counts])
  moreover have "length (takeWhile (\<lambda>i. \<not> bit input i) (rev [0..<32])) = clz_loop input 0"
    if "input \<noteq> 0"
    by (rule leading_zeros_unique [OF builtin_clz_counts [OF that] loop])
  ultimately show ?thesis by (simp add: count_leading_zeros_def)
qed

end
