(* ===== verification/Rtsp_Message.thy ===== *)
theory Rtsp_Message
  imports Prelude
begin

text \<open>
  The messages of rtsp.c: the line splitter \<open>nextline\<close>, which works in place on a buffer, the
  message record with its headers, the parser of one line, and the writer of a response. A
  buffer is the whole allocated object; an index outside it is a fault.
\<close>

abbreviation CR :: char where "CR \<equiv> CHR 0x0D"
abbreviation LF :: char where "LF \<equiv> CHR 0x0A"
abbreviation SP :: char where "SP \<equiv> CHR '' ''"

section \<open>Splitting lines\<close>

text \<open>
  \<open>nextline buf i inbuf\<close> starts at index \<open>i\<close> of the buffer. It parks a NUL at the line ending and
  returns the index behind it. After a carriage return the next byte is looked at even when it
  is not one of the \<open>inbuf\<close> bytes.
\<close>

function nextline :: "string \<Rightarrow> nat \<Rightarrow> int \<Rightarrow> fault + (string \<times> nat option)" where
  "nextline buf i inbuf =
     (if inbuf = 0 then Inr (buf, None)
      else if length buf \<le> i then Inl Out_of_bounds
      else
        let (buf', i', out) =
              (if buf ! i = CR then (buf[i := NUL], Suc i, Some (Suc i)) else (buf, i, None))
        in
          if length buf' \<le> i' then Inl Out_of_bounds
          else
            let (buf'', i'', out) =
                  (if buf' ! i' = LF then (buf'[i' := NUL], Suc i', Some (Suc i')) else (buf', i', out))
            in
              case out of
                Some nxt \<Rightarrow> Inr (buf'', Some nxt)
              | None \<Rightarrow> nextline buf'' (Suc i'') (inbuf - 1))"
  by pat_completeness auto
termination
  by (relation "measure (\<lambda>(buf, i, inbuf). length buf - i)") (auto split: if_splits)

declare nextline.simps [simp del]

section \<open>Messages\<close>

text \<open>
  The arrays \<open>name\<close> and \<open>value\<close> with their counter are the list \<open>headers\<close>. \<open>content\<close> is the
  buffer, of which the first \<open>contentlength\<close> bytes are the content.
\<close>

record rtsp_message =
  headers :: "(string \<times> string) list"
  contentlength :: int
  content :: "string option"
  msg_method :: string
  respcode :: int

definition msg_init :: rtsp_message where
  "msg_init = \<lparr>headers = [], contentlength = 0, content = None, msg_method = '''', respcode = 0\<rparr>"

definition msg_add_header :: "rtsp_message \<Rightarrow> string \<Rightarrow> string \<Rightarrow> rtsp_message \<times> int" where
  "msg_add_header msg name value =
     (if length (headers msg) \<ge> 16 then (msg, 1)
      else (msg\<lparr>headers := headers msg @ [(name, value)]\<rparr>, 0))"

fun find_header :: "(string \<times> string) list \<Rightarrow> string \<Rightarrow> string option" where
  "find_header [] name = None"
| "find_header ((n, v) # hs) name = (if strcasecmp_eq n name then Some v else find_header hs name)"

definition msg_get_header :: "rtsp_message \<Rightarrow> string \<Rightarrow> string option" where
  "msg_get_header msg name = find_header (headers msg) name"

section \<open>One line\<close>

text \<open>
  \<open>strtok_r\<close> with a blank as the only separator: the token, the string with the blank behind the
  token overwritten, and the string behind that.
\<close>

definition strtok_space :: "string \<Rightarrow> (string \<times> string \<times> string) option" where
  "strtok_space s =
     (let lead = takeWhile (\<lambda>c. c = SP) s;
          t = dropWhile (\<lambda>c. c = SP) s;
          tok = takeWhile (\<lambda>c. c \<noteq> SP) t;
          rest = dropWhile (\<lambda>c. c \<noteq> SP) t
      in if t = [] then None
         else if rest = [] then Some (tok, lead @ tok, [])
         else Some (tok, lead @ tok @ [NUL], tl rest))"

text \<open>
  The result of \<open>msg_handle_line\<close>: the message, \<open>None\<close> when it was freed, the returned number, and
  the line as the parser leaves it in the buffer.
\<close>

definition handle_request_line :: "string \<Rightarrow> rtsp_message option \<times> int \<times> string" where
  "handle_request_line line =
     (case strtok_space line of
        None \<Rightarrow> (None, 0, line)
      | Some (meth, l1, r1) \<Rightarrow>
          case strtok_space r1 of
            None \<Rightarrow> (None, 0, l1 @ r1)
          | Some (uri, l2, r2) \<Rightarrow>
              case strtok_space r2 of
                None \<Rightarrow> (None, 0, l1 @ l2 @ r2)
              | Some (proto, l3, r3) \<Rightarrow>
                  if proto \<noteq> ''RTSP/1.0'' then (None, 0, l1 @ l2 @ l3 @ r3)
                  else (Some (msg_init\<lparr>msg_method := take 15 meth\<rparr>), -1, l1 @ l2 @ l3 @ r3))"

definition handle_header_line :: "rtsp_message \<Rightarrow> string \<Rightarrow> rtsp_message option \<times> int \<times> string" where
  "handle_header_line msg line =
     (case strstr line '': '' of
        None \<Rightarrow> (None, 0, line)
      | Some p \<Rightarrow>
          let name = take (length line - length p) line;
              value = drop 2 p
          in (Some (fst (msg_add_header msg name value)), -1, name @ [NUL] @ tl p))"

definition msg_handle_line ::
    "rtsp_message option \<Rightarrow> string \<Rightarrow> rtsp_message option \<times> int \<times> string" where
  "msg_handle_line pmsg line =
     (case pmsg of
        None \<Rightarrow> handle_request_line line
      | Some msg \<Rightarrow>
          if line \<noteq> '''' then handle_header_line msg line
          else
            case msg_get_header msg ''Content-Length'' of
              Some cl \<Rightarrow> (Some msg, atoi cl, line)
            | None \<Rightarrow> (Some msg, 0, line))"

section \<open>Writing a response\<close>

text \<open>Decimal digits as \<open>%d\<close> prints them.\<close>

fun nat_digits :: "nat \<Rightarrow> string" where
  "nat_digits n = (if n < 10 then [char_of (48 + n)] else nat_digits (n div 10) @ [char_of (48 + n mod 10)])"

declare nat_digits.simps [simp del]

lemma nat_digits_cases:
  "n < 10 \<Longrightarrow> nat_digits n = [char_of (48 + n)]"
  "\<not> n < 10 \<Longrightarrow> nat_digits n = nat_digits (n div 10) @ [char_of (48 + n mod 10)]"
  by (simp_all add: nat_digits.simps [of n])

lemma length_nat_digits: "0 < k \<Longrightarrow> length (nat_digits n) \<le> k \<longleftrightarrow> n < 10 ^ k"
proof (induction k arbitrary: n)
  case (Suc k)
  show ?case
  proof (cases "n < 10")
    case True
    then have "n < 10 ^ 1" by simp
    also have "(10 :: nat) ^ 1 \<le> 10 ^ Suc k" by (rule power_increasing) simp_all
    finally have "n < 10 ^ Suc k" .
    moreover have "length (nat_digits n) = 1" using True by (simp add: nat_digits_cases)
    ultimately show ?thesis by linarith
  next
    case big: False
    show ?thesis
    proof (cases "k = 0")
      case True
      have "length (nat_digits (n div 10)) \<noteq> 0" by (subst nat_digits.simps) simp
      with True big show ?thesis by (simp add: nat_digits_cases)
    next
      case False
      have "n div 10 < 10 ^ k \<longleftrightarrow> n < 10 ^ k * 10" by (rule div_less_iff_less_mult) simp
      then show ?thesis using big False Suc.IH [of "n div 10"] by (simp add: nat_digits_cases mult.commute)
    qed
  qed
qed simp

definition int_digits :: "int \<Rightarrow> string" where
  "int_digits i = (if i < 0 then CHR ''-'' # nat_digits (nat (- i)) else nat_digits (nat i))"

definition status_line :: "int \<Rightarrow> string" where
  "status_line code = ''RTSP/1.0 '' @ int_digits code @ [SP] @
     (if code = 200 then ''OK'' else ''Error'') @ [CR, LF]"

definition header_line :: "string \<times> string \<Rightarrow> string" where
  "header_line h = fst h @ '': '' @ snd h @ [CR, LF]"

text \<open>\<open>snprintf\<close> into the rest of the packet: what is too long is cut, and the loop dies then.\<close>

fun write_headers :: "string \<Rightarrow> int \<Rightarrow> (string \<times> string) list \<Rightarrow> fault + (string \<times> int)" where
  "write_headers pkt pktfree [] = Inr (pkt, pktfree)"
| "write_headers pkt pktfree (h # hs) =
     (let n = int (length (header_line h));
          pkt = pkt @ take (nat (min n (pktfree - 1))) (header_line h);
          pktfree = pktfree - n
      in if pktfree \<le> 0 then Inl (Die ''Attempted to write overlong RTSP packet'')
         else write_headers pkt pktfree hs)"

definition msg_write_response :: "rtsp_message \<Rightarrow> fault + string" where
  "msg_write_response resp =
     (let pktfree = 1024;
          n = int (length (status_line (respcode resp)));
          pkt = take (nat (min n (pktfree - 1))) (status_line (respcode resp));
          pktfree = pktfree - n
      in
        case write_headers pkt pktfree (headers resp) of
          Inl e \<Rightarrow> Inl e
        | Inr (pkt, pktfree) \<Rightarrow>
            if pktfree < 3 then Inl (Die ''Attempted to write overlong RTSP packet'')
            else Inr (pkt @ [CR, LF]))"

section \<open>What the splitter finds\<close>

definition plain :: "string \<Rightarrow> bool" where
  "plain line \<longleftrightarrow> CR \<notin> set line \<and> LF \<notin> set line \<and> NUL \<notin> set line"

lemma plain_simps [simp]:
  "plain []" "plain (c # cs) \<longleftrightarrow> c \<noteq> CR \<and> c \<noteq> LF \<and> c \<noteq> NUL \<and> plain cs"
  "plain (xs @ ys) \<longleftrightarrow> plain xs \<and> plain ys"
  by (auto simp: plain_def)

lemma nextline_skip:
  assumes "plain (c # line)" "0 < inbuf"
  shows "nextline (pre @ c # line @ rest) (length pre) inbuf =
    nextline ((pre @ [c]) @ line @ rest) (length (pre @ [c])) (inbuf - 1)"
  using assms by (subst nextline.simps) (simp add: Let_def)

lemma nextline_crlf:
  assumes "plain line" "int (length line) < inbuf"
  shows "nextline (pre @ line @ CR # LF # rest) (length pre) inbuf =
    Inr (pre @ line @ NUL # NUL # rest, Some (length pre + length line + 2))"
  using assms
proof (induction line arbitrary: pre inbuf)
  case Nil
  then show ?case by (subst nextline.simps) (simp add: Let_def nth_append list_update_append)
next
  case (Cons c line)
  then show ?case using nextline_skip [of c line inbuf pre "CR # LF # rest"] Cons.IH [of "inbuf - 1" "pre @ [c]"]
    by simp
qed

lemma nextline_cr:
  assumes "plain line" "int (length line) < inbuf" "c \<noteq> LF"
  shows "nextline (pre @ line @ CR # c # rest) (length pre) inbuf =
    Inr (pre @ line @ NUL # c # rest, Some (length pre + length line + 1))"
  using assms
proof (induction line arbitrary: pre inbuf)
  case Nil
  then show ?case by (subst nextline.simps) (simp add: Let_def nth_append list_update_append)
next
  case (Cons x line)
  then show ?case using nextline_skip [of x line inbuf pre "CR # c # rest"] Cons.IH [of "inbuf - 1" "pre @ [x]"]
    by simp
qed

lemma nextline_lf:
  assumes "plain line" "int (length line) < inbuf"
  shows "nextline (pre @ line @ LF # rest) (length pre) inbuf =
    Inr (pre @ line @ NUL # rest, Some (length pre + length line + 1))"
  using assms
proof (induction line arbitrary: pre inbuf)
  case Nil
  then show ?case by (subst nextline.simps) (simp add: Let_def nth_append list_update_append)
next
  case (Cons c line)
  then show ?case using nextline_skip [of c line inbuf pre "LF # rest"] Cons.IH [of "inbuf - 1" "pre @ [c]"]
    by simp
qed

lemma nextline_none:
  assumes "plain line" "inbuf = int (length line)"
  shows "nextline (pre @ line @ rest) (length pre) inbuf = Inr (pre @ line @ rest, None)"
  using assms
proof (induction line arbitrary: pre inbuf)
  case Nil
  then show ?case by (subst nextline.simps) simp
next
  case (Cons c line)
  then show ?case using nextline_skip [of c line inbuf pre rest] Cons.IH [of "inbuf - 1" "pre @ [c]"]
    by simp
qed

lemma nextline_step:
  "nextline buf i inbuf =
    (if inbuf = 0 then Inr (buf, None)
     else if length buf \<le> i then Inl Out_of_bounds
     else if buf ! i = CR then
       (if length buf \<le> Suc i then Inl Out_of_bounds
        else if buf ! Suc i = LF then Inr (buf[i := NUL, Suc i := NUL], Some (i + 2))
        else Inr (buf[i := NUL], Some (i + 1)))
     else if buf ! i = LF then Inr (buf[i := NUL], Some (i + 1))
     else nextline buf (Suc i) (inbuf - 1))"
  by (subst nextline.simps) (simp add: Let_def)

lemma nextline_result:
  "nextline buf i inbuf = Inr (buf', out) \<Longrightarrow>
   length buf' = length buf \<and> (\<forall>nxt. out = Some nxt \<longrightarrow> i < nxt \<and> nxt \<le> length buf)"
proof (induction "length buf - i" arbitrary: i inbuf rule: less_induct)
  case less
  show ?case
  proof (cases "inbuf \<noteq> 0 \<and> i < length buf \<and> buf ! i \<noteq> CR \<and> buf ! i \<noteq> LF")
    case True
    then have "nextline buf (Suc i) (inbuf - 1) = Inr (buf', out)"
      using less.prems by (simp add: nextline_step [of buf i])
    moreover have "length buf - Suc i < length buf - i" using True by (intro diff_less_mono2) simp_all
    ultimately have "length buf' = length buf \<and> (\<forall>nxt. out = Some nxt \<longrightarrow> Suc i < nxt \<and> nxt \<le> length buf)"
      by (intro less.hyps)
    then show ?thesis by (auto dest: Suc_lessD)
  next
    case False
    then show ?thesis using less.prems
      by (auto simp: nextline_step [of buf i] split: if_splits)
  qed
qed

section \<open>What the line parser accepts\<close>

lemma strstr_first:
  assumes "CHR '':'' \<notin> set n"
  shows "strstr (n @ '': '' @ v) '': '' = Some ('': '' @ v)"
  using assms by (induction n) auto

lemma handle_header_line_ok:
  assumes "CHR '':'' \<notin> set n"
  shows "handle_header_line msg (n @ '': '' @ v) =
    (Some (fst (msg_add_header msg n v)), -1, n @ NUL # SP # v)"
  unfolding handle_header_line_def strstr_first [OF assms] by simp

lemma span_word:
  assumes "SP \<notin> set w"
  shows "takeWhile (\<lambda>c. c \<noteq> SP) (w @ SP # s) = w" "dropWhile (\<lambda>c. c \<noteq> SP) (w @ SP # s) = SP # s"
    "takeWhile (\<lambda>c. c \<noteq> SP) w = w" "dropWhile (\<lambda>c. c \<noteq> SP) w = []"
  using assms by (induction w) auto

lemma span_lead:
  assumes "SP \<notin> set w" "w \<noteq> []"
  shows "takeWhile (\<lambda>c. c = SP) (w @ s) = []" "dropWhile (\<lambda>c. c = SP) (w @ s) = w @ s"
proof -
  obtain c w' where "w = c # w'" "c \<noteq> SP" using assms by (cases w) auto
  then show "takeWhile (\<lambda>c. c = SP) (w @ s) = []" "dropWhile (\<lambda>c. c = SP) (w @ s) = w @ s" by simp_all
qed

lemma strtok_space_word:
  assumes "w \<noteq> []" "SP \<notin> set w"
  shows "strtok_space (w @ SP # s) = Some (w, w @ [NUL], s)"
  using assms(1) unfolding strtok_space_def Let_def span_lead [OF assms(2,1)] span_word [OF assms(2)]
  by simp

lemma strtok_space_last:
  assumes "w \<noteq> []" "SP \<notin> set w"
  shows "strtok_space w = Some (w, w, [])"
  using assms(1) span_lead [OF assms(2,1), of "[]"]
  by (simp add: strtok_space_def Let_def span_word [OF assms(2)])

definition request_line :: "string \<Rightarrow> string \<Rightarrow> string" where
  "request_line meth uri = meth @ SP # uri @ SP # ''RTSP/1.0''"

lemma handle_request_line_ok:
  assumes "meth \<noteq> []" "uri \<noteq> []" "SP \<notin> set meth" "SP \<notin> set uri"
  shows "\<exists>line'. handle_request_line (request_line meth uri) =
      (Some (msg_init\<lparr>msg_method := take 15 meth\<rparr>), -1, line') \<and>
    length line' = length (request_line meth uri)"
proof -
  have p: "strtok_space ''RTSP/1.0'' = Some (''RTSP/1.0'', ''RTSP/1.0'', [])"
    by (rule strtok_space_last) simp_all
  show ?thesis
    unfolding handle_request_line_def request_line_def strtok_space_word [OF assms(1,3)]
    by (simp add: strtok_space_word [OF assms(2,4)] p)
qed

lemma find_header_first:
  "find_header hs name = Some v \<Longrightarrow> \<exists>n. (n, v) \<in> set hs \<and> strcasecmp_eq n name"
  by (induction hs) (auto split: if_splits)

lemma strtok_space_length:
  assumes "strtok_space s = Some (t, l, r)"
  shows "length l + length r = length s"
proof -
  obtain u v w where u: "u = takeWhile (\<lambda>c. c = SP) s" and v: "v = takeWhile (\<lambda>c. c \<noteq> SP) (dropWhile (\<lambda>c. c = SP) s)"
    and w: "w = dropWhile (\<lambda>c. c \<noteq> SP) (dropWhile (\<lambda>c. c = SP) s)" by blast
  have "s = u @ v @ w" unfolding u v w by simp
  then have s: "length s = length u + length v + length w" by simp
  from assms have "(if w = [] then Some (v, u @ v, []) else Some (v, u @ v @ [NUL], tl w)) = Some (t, l, r)"
    unfolding u v w strtok_space_def Let_def
    by (cases "dropWhile (\<lambda>c. c = SP) s") (simp_all del: dropWhile_eq_Nil_conv)
  then show ?thesis unfolding s by (cases w) auto
qed

lemma handle_request_line_length:
  "handle_request_line line = (pm, sz, line') \<Longrightarrow> length line' = length line"
  by (auto simp: handle_request_line_def strtok_space_length [symmetric]
      split: option.splits if_splits)

lemma handle_header_line_length:
  assumes "handle_header_line msg line = (pm, sz, line')"
  shows "length line' = length line"
proof (cases "strstr line '': ''")
  case (Some p)
  then obtain u where u: "line = u @ p" using strstr_Some_suffix by blast
  have "p \<noteq> []" using strstr_Some_prefix [OF Some] by auto
  then show ?thesis using assms Some u by (auto simp: handle_header_line_def Let_def)
qed (use assms in \<open>simp add: handle_header_line_def\<close>)

lemma msg_handle_line_length:
  "msg_handle_line pmsg line = (pm, sz, line') \<Longrightarrow> length line' = length line"
  using handle_request_line_length handle_header_line_length
  by (auto simp: msg_handle_line_def split: option.splits if_splits)

section \<open>What is written\<close>

lemma write_headers_eq:
  "0 < pktfree \<Longrightarrow> write_headers pkt pktfree hs =
    (if int (length (concat (map header_line hs))) < pktfree
     then Inr (pkt @ concat (map header_line hs), pktfree - int (length (concat (map header_line hs))))
     else Inl (Die ''Attempted to write overlong RTSP packet''))"
proof (induction hs arbitrary: pkt pktfree)
  case (Cons h hs)
  show ?case
  proof (cases "int (length (header_line h)) < pktfree")
    case True
    then show ?thesis using Cons.IH [of "pktfree - int (length (header_line h))"] by (simp add: Let_def)
  next
    case False
    then show ?thesis by (simp add: Let_def)
  qed
qed simp

lemma msg_write_response_eq:
  assumes "length (status_line (respcode resp)) < 1024"
    and "len = length (status_line (respcode resp)) + length (concat (map header_line (headers resp)))"
  shows "msg_write_response resp =
    (if len \<le> 1021 then Inr (status_line (respcode resp) @ concat (map header_line (headers resp)) @ [CR, LF])
     else Inl (Die ''Attempted to write overlong RTSP packet''))"
  using assms write_headers_eq [of "1024 - int (length (status_line (respcode resp)))"]
  by (simp add: msg_write_response_def Let_def)

end
