(* ===== verification/Rtsp_Reader.thy ===== *)
theory Rtsp_Reader
  imports Rtsp_Message
begin

text \<open>
  \<open>rtsp_read_request\<close> of rtsp.c: a request is read from the connection into a buffer of 512
  bytes, split into lines, and followed by its content. The connection is the list of what
  happens at its other end: data arriving, a signal, an error of \<open>read\<close>, another thread setting
  \<open>please_shutdown\<close>. A single \<open>read\<close> returns bytes of one arrival only, as many as fit.
\<close>

section \<open>The connection\<close>

datatype net =
    Arrive string
  | Signal
  | Read_error
  | Raise_shutdown

datatype read_result =
    Got string
  | Read_eintr
  | Read_failed

text \<open>
  \<open>read\<close> of up to \<open>n\<close> bytes; 0 bytes is the end of the connection, and is also what a \<open>read\<close> of
  no bytes returns. The flag may be raised while the thread waits.
\<close>

fun sock_read :: "nat \<Rightarrow> net list \<Rightarrow> bool \<Rightarrow> read_result \<times> net list \<times> bool" where
  "sock_read 0 evs shut = (Got '''', evs, shut)"
| "sock_read n [] shut = (Got '''', [], shut)"
| "sock_read n (Arrive s # evs) shut =
     (if s = '''' then sock_read n evs shut
      else (Got (take n s), if n < length s then Arrive (drop n s) # evs else evs, shut))"
| "sock_read n (Signal # evs) shut = (Read_eintr, evs, shut)"
| "sock_read n (Read_error # evs) shut = (Read_failed, evs, shut)"
| "sock_read n (Raise_shutdown # evs) shut = sock_read n evs True"

fun event_size :: "net \<Rightarrow> nat" where
  "event_size (Arrive s) = Suc (length s)"
| "event_size _ = 1"

definition net_size :: "net list \<Rightarrow> nat" where
  "net_size evs = sum_list (map event_size evs)"

lemma sock_read_consumes:
  assumes "sock_read n evs shut = (r, evs', shut')" "r \<noteq> Got ''''"
  shows "net_size evs' < net_size evs \<and> (\<forall>s. r = Got s \<longrightarrow> length s \<le> n)"
  using assms
  by (induction n evs shut rule: sock_read.induct) (auto simp: net_size_def split: if_splits)

section \<open>The lines that are in the buffer\<close>

text \<open>
  The inner loop. \<open>memmove\<close> of a negative count is an access far outside the buffer. The result
  is the buffer, the number of bytes in it, the message (\<open>None\<close>: no valid header), and \<open>msg_size\<close>.
\<close>

function line_loop ::
    "string \<Rightarrow> int \<Rightarrow> rtsp_message option \<Rightarrow> int \<Rightarrow> fault + (string \<times> int \<times> rtsp_message option \<times> int)" where
  "line_loop buf inbuf pmsg msg_size =
     (case nextline buf 0 inbuf of
        Inl e \<Rightarrow> Inl e
      | Inr (buf, None) \<Rightarrow> Inr (buf, inbuf, pmsg, msg_size)
      | Inr (buf, Some nxt) \<Rightarrow>
          let line = cstr buf;
              (pmsg, msg_size, line') = msg_handle_line pmsg line;
              buf = line' @ drop (length line) buf
          in
            case pmsg of
              None \<Rightarrow> Inr (buf, inbuf, None, msg_size)
            | Some msg \<Rightarrow>
                let inbuf = inbuf - int nxt in
                if inbuf < 0 \<or> length buf < nxt + nat inbuf then Inl Out_of_bounds
                else
                  let buf = take (nat inbuf) (drop nxt buf) @ drop (nat inbuf) buf in
                  if msg_size < 0 then line_loop buf inbuf (Some msg) msg_size
                  else Inr (buf, inbuf, Some msg, msg_size))"
  by pat_completeness auto
termination
  by (relation "measure (\<lambda>(buf, inbuf, pmsg, msg_size). nat inbuf)")
    (auto dest: nextline_result split: if_splits)

declare line_loop.simps [simp del]

section \<open>The request\<close>

type_synonym read_state = "string \<times> int \<times> rtsp_message \<times> int \<times> net list \<times> bool"

text \<open>The loop that reads until the empty line; \<open>None\<close> is the jump to \<open>shutdown\<close>.\<close>

function header_loop ::
    "int \<Rightarrow> string \<Rightarrow> int \<Rightarrow> rtsp_message option \<Rightarrow> net list \<Rightarrow> bool \<Rightarrow> fault + read_state option" where
  "header_loop buflen buf inbuf pmsg evs shut =
     (if shut then Inr None
      else
        case sock_read (nat (buflen - inbuf)) evs shut of
          (Got s, evs, shut) \<Rightarrow>
            if s = '''' then Inr None
            else
              (case line_loop (take (nat inbuf) buf @ s @ drop (nat inbuf + length s) buf)
                      (inbuf + int (length s)) pmsg (-1) of
                 Inl e \<Rightarrow> Inl e
               | Inr (buf, inbuf, pmsg, msg_size) \<Rightarrow>
                   if msg_size < 0 then header_loop buflen buf inbuf pmsg evs shut
                   else
                     (case pmsg of
                        None \<Rightarrow> Inr None
                      | Some msg \<Rightarrow> Inr (Some (buf, inbuf, msg, msg_size, evs, shut))))
        | (Read_eintr, evs, shut) \<Rightarrow> header_loop buflen buf inbuf pmsg evs shut
        | (Read_failed, evs, shut) \<Rightarrow> Inr None)"
  by pat_completeness auto
termination
  by (relation "measure (\<lambda>(buflen, buf, inbuf, pmsg, evs, shut). net_size evs)")
    (auto dest!: sock_read_consumes [OF sym])

declare header_loop.simps [simp del]

text \<open>
  The loop that reads the content. Its test for an interrupted call compares the number of bytes
  with \<open>EINTR\<close>, which is 4: four bytes that arrive together are written and not counted.
\<close>

function body_loop ::
    "string \<Rightarrow> int \<Rightarrow> int \<Rightarrow> net list \<Rightarrow> bool \<Rightarrow> (string \<times> int \<times> net list \<times> bool) option" where
  "body_loop buf inbuf msg_size evs shut =
     (if inbuf < msg_size then
        case sock_read (nat (msg_size - inbuf)) evs shut of
          (Got s, evs, shut) \<Rightarrow>
            if s = '''' then None
            else
              let buf = take (nat inbuf) buf @ s @ drop (nat inbuf + length s) buf in
              if length s = 4 then body_loop buf inbuf msg_size evs shut
              else body_loop buf (inbuf + int (length s)) msg_size evs shut
        | (Read_eintr, evs, shut) \<Rightarrow> None
        | (Read_failed, evs, shut) \<Rightarrow> None
      else Some (buf, inbuf, evs, shut))"
  by pat_completeness auto
termination
  by (relation "measure (\<lambda>(buf, inbuf, msg_size, evs, shut). net_size evs)")
    (auto dest!: sock_read_consumes [OF sym])

declare body_loop.simps [simp del]

text \<open>
  \<open>junk\<close> is what \<open>malloc\<close> and \<open>realloc\<close> leave in new memory and \<open>enough\<close> says whether a \<open>realloc\<close>
  of that size succeeds. The result is the message, \<open>None\<close> for NULL, and what is left of the
  connection.
\<close>

definition rtsp_read_request ::
    "(nat \<Rightarrow> char) \<Rightarrow> (int \<Rightarrow> bool) \<Rightarrow> net list \<Rightarrow> bool \<Rightarrow>
       fault + (rtsp_message \<times> net list \<times> bool) option" where
  "rtsp_read_request junk enough evs shut =
     (let buflen = 512;
          buf = map junk [0..<513]
      in
        case header_loop buflen buf 0 None evs shut of
          Inl e \<Rightarrow> Inl e
        | Inr None \<Rightarrow> Inr None
        | Inr (Some (buf, inbuf, msg, msg_size, evs, shut)) \<Rightarrow>
            if msg_size > buflen \<and> \<not> enough msg_size then Inr None
            else
              let buf = (if msg_size > buflen
                         then take (nat msg_size) (buf @ map junk [0..<nat msg_size]) else buf)
              in
                case body_loop buf inbuf msg_size evs shut of
                  None \<Rightarrow> Inr None
                | Some (buf, inbuf, evs, shut) \<Rightarrow>
                    Inr (Some (msg\<lparr>contentlength := inbuf, content := Some buf\<rparr>, evs, shut)))"

section \<open>Whole lines in the buffer\<close>

definition text_of_lines :: "string list \<Rightarrow> string" where
  "text_of_lines ls = concat (map (\<lambda>l. l @ [CR, LF]) ls)"

lemma text_of_lines_simps [simp]:
  "text_of_lines [] = []" "text_of_lines (l # ls) = l @ CR # LF # text_of_lines ls"
  "text_of_lines (xs @ ys) = text_of_lines xs @ text_of_lines ys"
  by (simp_all add: text_of_lines_def)

text \<open>
  The lines \<open>ls\<close> are accepted one after the other, and the last one, and no other, ends the header
  with the content length \<open>sz\<close>.
\<close>

fun feeds :: "rtsp_message option \<Rightarrow> string list \<Rightarrow> rtsp_message \<Rightarrow> int \<Rightarrow> bool" where
  "feeds pmsg [] m sz = False"
| "feeds pmsg (l # ls) m sz = (plain l \<and>
     (case msg_handle_line pmsg l of
        (None, _, _) \<Rightarrow> False
      | (Some m1, sz1, _) \<Rightarrow>
          if ls = [] then m1 = m \<and> sz1 = sz \<and> 0 \<le> sz else sz1 < 0 \<and> feeds (Some m1) ls m sz))"

lemma line_loop_crlf:
  assumes "plain line" "msg_handle_line pmsg line = (Some m, sz, line')"
    and "buf = line @ CR # LF # rest @ tail" "inbuf = int (length line + 2 + length rest)"
  shows "\<exists>junk. length junk = length line + 2 + length tail \<and>
    line_loop buf inbuf pmsg ms =
      (if sz < 0 then line_loop (rest @ junk) (int (length rest)) (Some m) sz
       else Inr (rest @ junk, int (length rest), Some m, sz))"
proof -
  let ?b = "line' @ NUL # NUL # rest @ tail"
  let ?junk = "drop (length rest) ?b"
  have l: "length line' = length line" by (rule msg_handle_line_length [OF assms(2)])
  have n: "nextline buf 0 (int (length line + 2 + length rest)) =
      Inr (line @ NUL # NUL # rest @ tail, Some (length line + 2))"
    using nextline_crlf [OF assms(1), of "int (length line + 2 + length rest)" "[]" "rest @ tail"]
    unfolding assms(3) by simp
  have c: "cstr (line @ NUL # NUL # rest @ tail) = line" using assms(1) by (simp add: plain_def)
  have lj: "length ?junk = length line + 2 + length tail" using l by simp
  have "line_loop buf inbuf pmsg ms =
      (if sz < 0 then line_loop (rest @ ?junk) (int (length rest)) (Some m) sz
       else Inr (rest @ ?junk, int (length rest), Some m, sz))"
    unfolding assms(4)
    by (subst line_loop.simps, unfold n) (simp add: c assms(2) Let_def l)
  with lj show ?thesis by blast
qed

lemma line_loop_partial:
  assumes "plain p" "inbuf = int (length p)"
  shows "line_loop (p @ tail) inbuf pmsg ms = Inr (p @ tail, inbuf, pmsg, ms)"
  using nextline_none [OF assms, of "[]" tail] by (subst line_loop.simps) simp

lemma line_loop_lines:
  assumes "feeds pmsg (ls @ ls') m sz" "ls' \<noteq> []" "ms < 0"
  shows "\<exists>junk pmsg' ms'. length junk = length tail + length (text_of_lines ls) \<and> ms' < 0 \<and>
    feeds pmsg' ls' m sz \<and>
    line_loop (text_of_lines ls @ rest @ tail) (int (length (text_of_lines ls @ rest))) pmsg ms =
    line_loop (rest @ junk) (int (length rest)) pmsg' ms'"
  using assms
proof (induction ls arbitrary: pmsg ms tail)
  case (Cons l ls)
  obtain m1 sz1 l1 where h: "plain l" "msg_handle_line pmsg l = (Some m1, sz1, l1)" "sz1 < 0"
    "feeds (Some m1) (ls @ ls') m sz"
    using Cons.prems(1,2) by (auto split: prod.splits option.splits)
  obtain junk where j: "length junk = length l + 2 + length tail"
    "line_loop (text_of_lines (l # ls) @ rest @ tail) (int (length (text_of_lines (l # ls) @ rest))) pmsg ms =
     line_loop ((text_of_lines ls @ rest) @ junk) (int (length (text_of_lines ls @ rest))) (Some m1) sz1"
    using line_loop_crlf [OF h(1,2), of _ "text_of_lines ls @ rest" tail _ ms] h(3) by auto
  from Cons.IH [OF h(4) Cons.prems(2) h(3), of junk] j show ?case by (auto simp: add.commute add.left_commute)
qed auto

lemma line_loop_last:
  assumes "feeds pmsg ls m sz"
  shows "\<exists>junk. length junk = length tail + length (text_of_lines ls) \<and>
    line_loop (text_of_lines ls @ rest @ tail) (int (length (text_of_lines ls @ rest))) pmsg ms =
    Inr (rest @ junk, int (length rest), Some m, sz)"
  using assms
proof (induction ls arbitrary: pmsg ms tail)
  case (Cons l ls)
  obtain m1 sz1 l1 where h: "plain l" "msg_handle_line pmsg l = (Some m1, sz1, l1)"
    "if ls = [] then m1 = m \<and> sz1 = sz \<and> 0 \<le> sz else sz1 < 0 \<and> feeds (Some m1) ls m sz"
    using Cons.prems(1) by (auto split: prod.splits option.splits)
  from line_loop_crlf [OF h(1,2) refl refl, where rest = "text_of_lines ls @ rest" and tail = tail and ms = ms]
  obtain junk where j: "length junk = length l + 2 + length tail"
    "line_loop (text_of_lines (l # ls) @ rest @ tail) (int (length (text_of_lines (l # ls) @ rest))) pmsg ms =
     (if sz1 < 0 then line_loop ((text_of_lines ls @ rest) @ junk) (int (length (text_of_lines ls @ rest))) (Some m1) sz1
      else Inr ((text_of_lines ls @ rest) @ junk, int (length (text_of_lines ls @ rest)), Some m1, sz1))"
    by (fastforce simp: add.commute add.left_commute)
  show ?case
  proof (cases "ls = []")
    case True
    then show ?thesis using j h(3) by (intro exI [of _ junk]) auto
  next
    case False
    then have f: "sz1 < 0" "feeds (Some m1) ls m sz" using h(3) by auto
    from Cons.IH [OF f(2), of junk sz1] j f(1) show ?thesis by (auto simp: add.commute add.left_commute)
  qed
qed simp

section \<open>A header that arrives in pieces\<close>

lemma split_lines:
  assumes "s @ rest = text_of_lines ls @ body" "\<forall>l \<in> set ls. plain l"
    and "s = [] \<or> last s \<noteq> CR \<or> length (text_of_lines ls) \<le> length s"
  shows "(\<exists>b1. s = text_of_lines ls @ b1) \<or>
    (\<exists>ls1 ls2 p. ls = ls1 @ ls2 \<and> ls2 \<noteq> [] \<and> s = text_of_lines ls1 @ p \<and> plain p \<and>
       p @ rest = text_of_lines ls2 @ body)"
  using assms
proof (induction ls arbitrary: s)
  case (Cons l ls)
  have pl: "plain l" using Cons.prems(2) by simp
  have eq: "s @ rest = (l @ [CR, LF]) @ text_of_lines ls @ body" using Cons.prems(1) by simp
  consider "length s \<le> length l" | "length s = Suc (length l)" | "length l + 2 \<le> length s" by linarith
  then show ?case
  proof cases
    case 1
    then have "s = take (length s) l" using arg_cong [OF eq, of "take (length s)"] by simp
    then have "plain s" using pl by (metis append_take_drop_id plain_simps(3))
    then show ?thesis using Cons.prems(1)
      by (intro disjI2 exI [of _ "[]"] exI [of _ "l # ls"] exI [of _ s]) simp
  next
    case 2
    then have "s = l @ [CR]" using arg_cong [OF eq, of "take (length s)"] by simp
    then show ?thesis using Cons.prems(3) by simp
  next
    case 3
    have "take (length l + 2) (s @ rest) = l @ [CR, LF]" unfolding eq by simp
    then have "take (length l + 2) s = l @ [CR, LF]" using 3 by simp
    then obtain s' where s': "s = l @ CR # LF # s'"
      using append_take_drop_id [of "length l + 2" s] by (metis append.assoc append_Cons append_Nil)
    then have "s' @ rest = text_of_lines ls @ body" using eq by simp
    moreover have "s' = [] \<or> last s' \<noteq> CR \<or> length (text_of_lines ls) \<le> length s'"
      using Cons.prems(3) s' by (auto split: if_splits)
    ultimately consider b1 where "s' = text_of_lines ls @ b1"
      | ls1 ls2 p where "ls = ls1 @ ls2" "ls2 \<noteq> []" "s' = text_of_lines ls1 @ p" "plain p"
        "p @ rest = text_of_lines ls2 @ body"
      using Cons.IH [of s'] Cons.prems(2) by auto
    then show ?thesis
    proof cases
      case 1
      then show ?thesis using s' by simp
    next
      case 2
      then show ?thesis using s'
        by (intro disjI2 exI [of _ "l # ls1"] exI [of _ ls2] exI [of _ p]) simp
    qed
  qed
qed simp

lemma feeds_plain: "feeds pmsg ls m sz \<Longrightarrow> (\<forall>l \<in> set ls. plain l) \<and> 0 \<le> sz \<and> ls \<noteq> []"
  by (induction ls arbitrary: pmsg) (auto split: option.splits prod.splits if_splits)

lemma sock_read_arrive:
  "s \<noteq> [] \<Longrightarrow> length s \<le> n \<Longrightarrow> sock_read n (Arrive s # evs) shut = (Got s, evs, shut)"
  by (cases n) auto

lemma header_loop_reads:
  assumes "feeds pmsg ls m sz" "p @ concat hs = text_of_lines ls @ b1" "plain p" "hs \<noteq> []"
    and "\<forall>c \<in> set hs. c \<noteq> []" "\<forall>c \<in> set (butlast hs). last c \<noteq> CR"
    and "length p + length (concat (butlast hs)) < length (text_of_lines ls)"
    and "length (p @ concat hs) \<le> 512" "length p + length x = 513"
  shows "\<exists>junk. length b1 + length junk = 513 \<and>
    header_loop 512 (p @ x) (int (length p)) pmsg (map Arrive hs @ evs) False =
    Inr (Some (b1 @ junk, int (length b1), m, sz, evs, False))"
  using assms
proof (induction hs arbitrary: p x pmsg ls)
  case (Cons c hs)
  let ?x = "drop (length c) x"
  have c: "c \<noteq> []" "length p + length c \<le> 512" using Cons.prems(5,8) by auto
  have r: "sock_read (nat (512 - int (length p))) (map Arrive (c # hs) @ evs) False =
      (Got c, map Arrive hs @ evs, False)"
    using c by (simp add: sock_read_arrive)
  have step: "header_loop 512 (p @ x) (int (length p)) pmsg (map Arrive (c # hs) @ evs) False =
      (case line_loop ((p @ c) @ ?x) (int (length (p @ c))) pmsg (-1) of
         Inl e \<Rightarrow> Inl e
       | Inr (buf, inbuf, pmsg, msg_size) \<Rightarrow>
           if msg_size < 0 then header_loop 512 buf inbuf pmsg (map Arrive hs @ evs) False
           else
             (case pmsg of
                None \<Rightarrow> Inr None
              | Some msg \<Rightarrow> Inr (Some (buf, inbuf, msg, msg_size, map Arrive hs @ evs, False))))"
    using c(1) by (subst header_loop.simps, unfold r) simp
  have sz: "0 \<le> sz" "\<forall>l \<in> set ls. plain l" using feeds_plain [OF Cons.prems(1)] by auto
  show ?case
  proof (cases "hs = []")
    case True
    then have "p @ c = text_of_lines ls @ b1" using Cons.prems(2) by simp
    moreover obtain junk where "length junk = length ?x + length (text_of_lines ls)"
      "line_loop (text_of_lines ls @ b1 @ ?x) (int (length (text_of_lines ls @ b1))) pmsg (-1) =
       Inr (b1 @ junk, int (length b1), Some m, sz)"
      using line_loop_last [OF Cons.prems(1), where tail = ?x and rest = b1 and ms = "-1"] by blast
    moreover have "length (p @ c) + length ?x = 513" using c(2) Cons.prems(9) by simp
    ultimately show ?thesis unfolding step using sz(1) True by (intro exI [of _ junk]) simp
  next
    case False
    have "last (p @ c) \<noteq> CR" using Cons.prems(6) False c(1) by simp
    moreover have "(p @ c) @ concat hs = text_of_lines ls @ b1" using Cons.prems(2) by simp
    moreover have short: "length (p @ c) < length (text_of_lines ls)" using Cons.prems(7) False by simp
    ultimately obtain ls1 ls2 q where q: "ls = ls1 @ ls2" "ls2 \<noteq> []" "p @ c = text_of_lines ls1 @ q"
      "plain q" "q @ concat hs = text_of_lines ls2 @ b1"
      using split_lines [of "p @ c" "concat hs" ls b1] sz(2) by fastforce
    obtain junk pmsg' ms' where j: "length junk = length ?x + length (text_of_lines ls1)" "ms' < 0"
      "feeds pmsg' ls2 m sz"
      "line_loop (text_of_lines ls1 @ q @ ?x) (int (length (text_of_lines ls1 @ q))) pmsg (-1) =
       line_loop (q @ junk) (int (length q)) pmsg' ms'"
      using line_loop_lines [OF Cons.prems(1) [unfolded q(1)] q(2), where tail = ?x and rest = q and ms = "-1"]
      by auto
    have "header_loop 512 (p @ x) (int (length p)) pmsg (map Arrive (c # hs) @ evs) False =
        header_loop 512 (q @ junk) (int (length q)) pmsg' (map Arrive hs @ evs) False"
      unfolding step q(3) using j(2,4) by (simp add: line_loop_partial [OF q(4)])
    moreover have "length q + length junk = 513"
      using arg_cong [OF q(3), of length] j(1) c(2) Cons.prems(9) by simp
    moreover have "length q + length (concat (butlast hs)) < length (text_of_lines ls2)"
      using arg_cong [OF q(3), of length] Cons.prems(7) False q(1) by simp
    moreover have "length (q @ concat hs) \<le> 512"
      using arg_cong [OF q(3), of length] Cons.prems(8) by simp
    ultimately show ?thesis
      using Cons.IH [OF j(3) q(5,4) False] Cons.prems(5,6) False by simp
  qed
qed simp

section \<open>The content\<close>

lemma body_loop_reads:
  assumes "length b + length x = n" "length b + length (concat bs) \<le> n"
    and "\<forall>c \<in> set bs. c \<noteq> [] \<and> length c \<noteq> 4"
    and "msg_size = int (length b + length (concat bs))"
  shows "\<exists>junk. length b + length (concat bs) + length junk = n \<and>
    body_loop (b @ x) (int (length b)) msg_size (map Arrive bs @ evs) shut =
    Some (b @ concat bs @ junk, msg_size, evs, shut)"
  using assms
proof (induction bs arbitrary: b x)
  case Nil
  then show ?case by (subst body_loop.simps) simp
next
  case (Cons c bs)
  have c: "c \<noteq> []" "length c \<noteq> 4" using Cons.prems(3) by auto
  let ?x = "drop (length c) x"
  have r: "sock_read (nat (msg_size - int (length b))) (map Arrive (c # bs) @ evs) shut =
      (Got c, map Arrive bs @ evs, shut)"
    using c(1) Cons.prems(4) by (simp add: sock_read_arrive)
  have "0 < length c" using c(1) by simp
  then have lt: "0 < int (length c) + int (length (concat bs))" by linarith
  have "body_loop (b @ x) (int (length b)) msg_size (map Arrive (c # bs) @ evs) shut =
      body_loop ((b @ c) @ ?x) (int (length (b @ c))) msg_size (map Arrive bs @ evs) shut"
    using c Cons.prems(4) lt by (subst body_loop.simps, unfold r) simp
  moreover have "length (b @ c) + length ?x = n" using Cons.prems(1,2) by simp
  ultimately obtain junk where "length (b @ c) + length (concat bs) + length junk = n"
    "body_loop (b @ x) (int (length b)) msg_size (map Arrive (c # bs) @ evs) shut =
     Some ((b @ c) @ concat bs @ junk, msg_size, evs, shut)"
    using Cons.IH [of "b @ c" ?x] Cons.prems(2,3,4) by fastforce
  then show ?case by (intro exI [of _ junk]) simp
qed

section \<open>Requests as they are sent\<close>

text \<open>
  A request as a client writes it: the request line, the headers, the empty line. The words of
  the request line have no blanks, the names of headers no colon.
\<close>

definition request_lines :: "string \<Rightarrow> string \<Rightarrow> (string \<times> string) list \<Rightarrow> string list" where
  "request_lines meth uri hs = request_line meth uri # map (\<lambda>(n, v). n @ '': '' @ v) hs @ ['''']"

definition word :: "string \<Rightarrow> bool" where
  "word w \<longleftrightarrow> w \<noteq> '''' \<and> SP \<notin> set w \<and> plain w"

definition header_ok :: "string \<times> string \<Rightarrow> bool" where
  "header_ok h \<longleftrightarrow> CHR '':'' \<notin> set (fst h) \<and> plain (fst h) \<and> plain (snd h)"

definition announced_length :: "(string \<times> string) list \<Rightarrow> int" where
  "announced_length hs = (case find_header hs ''Content-Length'' of Some cl \<Rightarrow> atoi cl | None \<Rightarrow> 0)"

lemma feeds_headers:
  assumes "\<forall>h \<in> set hs. header_ok h" "length (headers msg) + length hs \<le> 16"
    and "0 \<le> announced_length (headers msg @ hs)"
  shows "feeds (Some msg) (map (\<lambda>(n, v). n @ '': '' @ v) hs @ [''''])
    (msg\<lparr>headers := headers msg @ hs\<rparr>) (announced_length (headers msg @ hs))"
  using assms
proof (induction hs arbitrary: msg)
  case Nil
  then show ?case
    by (auto simp: msg_handle_line_def msg_get_header_def announced_length_def split: option.splits)
next
  case (Cons h hs)
  obtain n v where h: "h = (n, v)" by (cases h)
  have ok: "CHR '':'' \<notin> set n" "plain (n @ '': '' @ v)" using Cons.prems(1) by (simp_all add: h header_ok_def)
  let ?msg = "msg\<lparr>headers := headers msg @ [(n, v)]\<rparr>"
  have "msg_handle_line (Some msg) (n @ '': '' @ v) = (Some ?msg, -1, n @ NUL # SP # v)"
    using handle_header_line_ok [OF ok(1)] Cons.prems(2) by (simp add: msg_handle_line_def msg_add_header_def)
  then show ?case using ok(2) Cons.IH [of ?msg] Cons.prems by (simp add: h)
qed

lemma feeds_request:
  assumes "word meth" "word uri" "\<forall>h \<in> set hs. header_ok h" "length hs \<le> 16" "0 \<le> announced_length hs"
  shows "feeds None (request_lines meth uri hs)
    (msg_init\<lparr>msg_method := take 15 meth, headers := hs\<rparr>) (announced_length hs)"
proof -
  obtain line' where l: "handle_request_line (request_line meth uri) =
      (Some (msg_init\<lparr>msg_method := take 15 meth\<rparr>), -1, line')"
    using handle_request_line_ok [of meth uri] assms(1,2) by (auto simp: word_def)
  have "plain (request_line meth uri)" using assms(1,2) by (simp add: request_line_def word_def)
  then show ?thesis
    using l feeds_headers [of hs "msg_init\<lparr>msg_method := take 15 meth\<rparr>"] assms(3-5)
    by (simp add: request_lines_def msg_handle_line_def msg_init_def)
qed

section \<open>Properties\<close>



text \<open>
  A read that ends between CR and LF breaks the header. The line is taken, but when the byte
  behind the CR in the buffer is left over from earlier data and is a LF, the count of bytes gets
  negative and the next copy runs out of the buffer; when it is not, the LF of the next read is
  taken for the empty line, and the header ends there.
\<close>

theorem read_between_cr_and_lf:
  assumes "plain line" "msg_handle_line pmsg line = (Some m, -1, line')"
    and "buf = line @ CR # c # tail" "inbuf = int (length line) + 1"
  shows "(c = LF \<longrightarrow> line_loop buf inbuf pmsg (-1) = Inl Out_of_bounds) \<and>
    (c \<noteq> LF \<longrightarrow> (\<exists>junk. line_loop buf inbuf pmsg (-1) = Inr (junk, 0, Some m, -1) \<and>
      length junk = length buf \<and>
      (\<forall>rest t. \<exists>junk'. 0 \<le> announced_length (headers m) \<longrightarrow>
         line_loop (LF # rest @ t) (1 + int (length rest)) (Some m) (-1) =
         Inr (rest @ junk', int (length rest), Some m, announced_length (headers m)))))"
proof (intro conjI impI)
  have cs: "cstr (line @ NUL # y) = line" for y using assms(1) by (simp add: plain_def)
  have l': "length line' = length line" by (rule msg_handle_line_length [OF assms(2)])
  { assume "c = LF"
    then have n: "nextline buf 0 inbuf = Inr (line @ NUL # NUL # tail, Some (length line + 2))"
      using nextline_crlf [OF assms(1), of inbuf "[]" tail] assms(3,4) by simp
    show "line_loop buf inbuf pmsg (-1) = Inl Out_of_bounds"
      by (subst line_loop.simps, unfold n) (simp add: cs assms(2,4) Let_def) }
  { assume c: "c \<noteq> LF"
    then have n: "nextline buf 0 inbuf = Inr (line @ NUL # c # tail, Some (length line + 1))"
      using nextline_cr [OF assms(1) _ c, of inbuf "[]" tail] assms(3,4) by simp
    have z: "line_loop b 0 (Some m) (-1) = Inr (b, 0, Some m, -1)" for b
      using line_loop_partial [of "[]" 0 b] by simp
    have one: "line_loop buf inbuf pmsg (-1) = Inr (line' @ NUL # c # tail, 0, Some m, -1)"
      by (subst line_loop.simps, unfold n) (simp add: cs assms(2,4) Let_def l' z)
    have two: "\<exists>junk'. line_loop (LF # rest @ t) (1 + int (length rest)) (Some m) (-1) =
         Inr (rest @ junk', int (length rest), Some m, announced_length (headers m))"
      if "0 \<le> announced_length (headers m)" for rest t
    proof -
      have n': "nextline (LF # rest @ t) 0 (1 + int (length rest)) = Inr (NUL # rest @ t, Some 1)"
        using nextline_lf [of "[]" "1 + int (length rest)" "[]" "rest @ t"] by simp
      have h: "msg_handle_line (Some m) '''' = (Some m, announced_length (headers m), '''')"
        by (simp add: msg_handle_line_def announced_length_def msg_get_header_def split: option.split)
      show ?thesis
        by (subst line_loop.simps, unfold n') (use that in \<open>simp add: h cstr_def Let_def\<close>)
    qed
    show "\<exists>junk. line_loop buf inbuf pmsg (-1) = Inr (junk, 0, Some m, -1) \<and> length junk = length buf \<and>
      (\<forall>rest t. \<exists>junk'. 0 \<le> announced_length (headers m) \<longrightarrow>
         line_loop (LF # rest @ t) (1 + int (length rest)) (Some m) (-1) =
         Inr (rest @ junk', int (length rest), Some m, announced_length (headers m)))"
      using one two l' assms(3) by (intro exI [of _ "line' @ NUL # c # tail"]) auto }
qed

theorem read_between_cr_and_lf_witness:
  "line_loop (''CSeq: 1'' @ CR # LF # ''x'') 8 (Some msg_init) (-1) = Inl Out_of_bounds"
proof -
  have h: "msg_handle_line (Some msg_init) ''CSeq: 1'' =
      (Some (msg_init\<lparr>headers := [(''CSeq'', ''1'')]\<rparr>), -1, ''CSeq'' @ NUL # '' 1'')"
    by (simp add: msg_handle_line_def handle_header_line_def msg_add_header_def msg_init_def)
  show ?thesis
    using read_between_cr_and_lf [OF _ h refl, where c = LF and tail = "''x''"] by simp
qed

text \<open>
  A response that fits the packet of 1024 bytes is written whole: the status line and text that
  the line reader takes back for the same headers; a longer one makes the program die.
\<close>

theorem response_is_readable:
  assumes "respcode resp \<in> {200, 400, 401}" "\<forall>h \<in> set (headers resp). header_ok h"
    and "length (headers resp) \<le> 16" "0 \<le> announced_length (headers resp)"
    and "len = length (status_line (respcode resp)) + length (concat (map header_line (headers resp)))"
  shows "if len \<le> 1021
    then \<exists>body. msg_write_response resp = Inr (status_line (respcode resp) @ body) \<and>
      (\<exists>buf. line_loop (body @ tail) (int (length body)) (Some msg_init) (-1) =
        Inr (buf, 0, Some (msg_init\<lparr>headers := headers resp\<rparr>), announced_length (headers resp)))
    else msg_write_response resp = Inl (Die ''Attempted to write overlong RTSP packet'')"
proof -
  let ?hs = "headers resp" and ?ls = "map (\<lambda>(n, v). n @ '': '' @ v) (headers resp) @ ['''']"
  have st: "length (status_line (respcode resp)) < 1024"
    using assms(1) by (auto simp: status_line_def int_digits_def nat_digits_cases)
  have w: "msg_write_response resp =
      (if len \<le> 1021 then Inr (status_line (respcode resp) @ concat (map header_line ?hs) @ [CR, LF])
       else Inl (Die ''Attempted to write overlong RTSP packet''))"
    using st assms(5) by (rule msg_write_response_eq)
  have t: "concat (map header_line ?hs) @ [CR, LF] = text_of_lines ?ls"
    by (simp add: text_of_lines_def header_line_def [abs_def] o_def split_beta)
  have "feeds (Some msg_init) ?ls (msg_init\<lparr>headers := ?hs\<rparr>) (announced_length ?hs)"
    using feeds_headers [of ?hs msg_init] assms(2-4) by (simp add: msg_init_def)
  from line_loop_last [OF this, where rest = "[]" and tail = tail and ms = "-1"]
  obtain buf where "line_loop (text_of_lines ?ls @ tail) (int (length (text_of_lines ?ls))) (Some msg_init) (-1) =
      Inr (buf, 0, Some (msg_init\<lparr>headers := ?hs\<rparr>), announced_length ?hs)" by auto
  then show ?thesis unfolding w t by auto
qed

theorem response_is_readable_witness:
  "\<exists>body buf. msg_write_response (msg_init\<lparr>respcode := 200, headers := [(''CSeq'', ''7'')]\<rparr>) =
      Inr (status_line 200 @ body) \<and>
    line_loop (body @ ''rest'') (int (length body)) (Some msg_init) (-1) =
      Inr (buf, 0, Some (msg_init\<lparr>headers := [(''CSeq'', ''7'')]\<rparr>), 0)"
proof -
  let ?r = "msg_init\<lparr>respcode := 200, headers := [(''CSeq'', ''7'')]\<rparr>"
  have a: "announced_length [(''CSeq'', ''7'')] = 0" by code_simp
  have len: "length (status_line (respcode ?r)) + length (concat (map header_line (headers ?r))) \<le> 1021"
    by (simp add: status_line_def header_line_def int_digits_def nat_digits_cases)
  have p: "respcode ?r \<in> {200, 400, 401}" "\<forall>h \<in> set (headers ?r). header_ok h"
    "length (headers ?r) \<le> 16" "0 \<le> announced_length (headers ?r)"
    using a by (simp_all add: header_ok_def)
  have r: "respcode ?r = 200" "headers ?r = [(''CSeq'', ''7'')]" by simp_all
  from response_is_readable [OF p refl, of "''rest''", unfolded if_P [OF len]]
  show ?thesis unfolding r a by blast
qed

end
