(* ===== verification/Metadata.thy ===== *)
theory Metadata
  imports Prelude
begin

text \<open>
  The now-playing metadata of metadata.c: the fields, the FIFO they are written to, and the cover
  image file. The file system is the environment: whether the FIFO can be made and opened, and
  whether it has a reader. Text that is written to the FIFO is a result of the operation.
\<close>

section \<open>State\<close>

text \<open>The struct \<open>metadata\<close>; \<open>None\<close> is a NULL pointer.\<close>

record metadata =
  artist :: "string option"
  title :: "string option"
  album :: "string option"
  artwork :: "string option"
  comment :: "string option"
  genre :: "string option"

datatype meta_field = Artist | Title | Album | Artwork | Comment | Genre

fun get_field :: "meta_field \<Rightarrow> metadata \<Rightarrow> string option" where
  "get_field Artist m = artist m"
| "get_field Title m = title m"
| "get_field Album m = album m"
| "get_field Artwork m = artwork m"
| "get_field Comment m = comment m"
| "get_field Genre m = genre m"

fun put_field :: "meta_field \<Rightarrow> string \<Rightarrow> metadata \<Rightarrow> metadata" where
  "put_field Artist v m = m\<lparr>artist := Some v\<rparr>"
| "put_field Title v m = m\<lparr>title := Some v\<rparr>"
| "put_field Album v m = m\<lparr>album := Some v\<rparr>"
| "put_field Artwork v m = m\<lparr>artwork := Some v\<rparr>"
| "put_field Comment v m = m\<lparr>comment := Some v\<rparr>"
| "put_field Genre v m = m\<lparr>genre := Some v\<rparr>"

record meta_state =
  player_meta :: metadata
  fifo_open :: bool
  dirty :: bool

definition meta_initial :: meta_state where
  "meta_initial = \<lparr>player_meta = \<lparr>artist = None, title = None, album = None, artwork = None,
     comment = None, genre = None\<rparr>, fifo_open = False, dirty = False\<rparr>"

text \<open>What the file system answers.\<close>

record fifo_env =
  meta_dir :: "string option"
  mkfifo_fails :: bool
  mkfifo_exists :: bool
  open_fails :: bool
  has_reader :: bool

section \<open>Operations\<close>

definition metadata_set :: "meta_field \<Rightarrow> string \<Rightarrow> meta_state \<Rightarrow> meta_state" where
  "metadata_set field value st =
     (if get_field field (player_meta st) = Some value then st
      else st\<lparr>player_meta := put_field field value (player_meta st), dirty := True\<rparr>)"

definition metadata_open :: "fifo_env \<Rightarrow> meta_state \<Rightarrow> fault + meta_state" where
  "metadata_open env st =
     (case meta_dir env of
        None \<Rightarrow> Inr st
      | Some dir \<Rightarrow>
          if mkfifo_fails env \<and> \<not> mkfifo_exists env then Inl (Die ''Could not create metadata FIFO'')
          else Inr (st\<lparr>fifo_open := \<not> open_fails env\<rparr>))"

definition metadata_close :: "meta_state \<Rightarrow> meta_state" where
  "metadata_close st = st\<lparr>fifo_open := False\<rparr>"

abbreviation NL :: char where "NL \<equiv> CHR 0x0A"

definition print_one :: "string \<Rightarrow> string option \<Rightarrow> string" where
  "print_one name value =
     name @ ''='' @ (case value of Some v \<Rightarrow> v | None \<Rightarrow> '''') @ [NL]"

text \<open>The text that is written. The last newline also finds out that there is no reader.\<close>

definition metadata_write :: "fifo_env \<Rightarrow> meta_state \<Rightarrow> fault + (meta_state \<times> string)" where
  "metadata_write env st =
     (case (if \<not> fifo_open st then metadata_open env st else Inr st) of
        Inl e \<Rightarrow> Inl e
      | Inr st \<Rightarrow>
          if \<not> fifo_open st then Inr (st, '''')
          else if \<not> dirty st then Inr (st, '''')
          else
            let st = st\<lparr>dirty := False\<rparr>;
                m = player_meta st;
                out = print_one ''artist'' (artist m) @ print_one ''title'' (title m) @
                      print_one ''album'' (album m) @ print_one ''artwork'' (artwork m) @
                      print_one ''genre'' (genre m) @ print_one ''comment'' (comment m)
            in if has_reader env then Inr (st, out @ [NL])
               else Inr (metadata_close st, ''''))"

section \<open>The cover image\<close>

definition hex_digit :: "nat \<Rightarrow> char" where
  "hex_digit n = ''0123456789abcdef'' ! n"

definition hex_text :: "bytes \<Rightarrow> string" where
  "hex_text bs = concat (map (\<lambda>b. [hex_digit (unat b div 16), hex_digit (unat b mod 16)]) bs)"

text \<open>
  \<open>md5\<close> is OpenSSL's MD5. The file with its contents is a result; \<open>creat_ok\<close> and \<open>write_ok\<close> are
  whether the file could be opened and written. A NULL buffer clears the cover.
\<close>

definition cover_name :: "(string \<Rightarrow> bytes) \<Rightarrow> string \<Rightarrow> string \<Rightarrow> string" where
  "cover_name md5 buf ext = ''cover-'' @ hex_text (md5 buf) @ ''.'' @ ext"

definition metadata_cover_image ::
    "(string \<Rightarrow> bytes) \<Rightarrow> string option \<Rightarrow> bool \<Rightarrow> bool \<Rightarrow> (string \<times> string) option \<Rightarrow> meta_state \<Rightarrow>
       meta_state \<times> (string \<times> string) option" where
  "metadata_cover_image md5 dir creat_ok write_ok img st =
     (case dir of
        None \<Rightarrow> (st, None)
      | Some dir \<Rightarrow>
          case img of
            None \<Rightarrow> (st, None)
          | Some (buf, ext) \<Rightarrow>
              let path = dir @ ''/'' @ cover_name md5 buf ext in
              if \<not> creat_ok then (st, None)
              else if \<not> write_ok then (st, None)
              else (metadata_set Artwork (drop (length dir + 1) path) st, Some (path, buf)))"

section \<open>Lemmas\<close>

lemma get_put_field [simp]:
  "get_field f (put_field g v m) = (if f = g then Some v else get_field f m)"
  by (cases f; cases g) simp_all

lemma metadata_set_field [simp]:
  "get_field f (player_meta (metadata_set g v st)) =
    (if f = g then Some v else get_field f (player_meta st))"
  by (simp add: metadata_set_def)

lemma metadata_set_keeps [simp]:
  "fifo_open (metadata_set g v st) = fifo_open st"
  by (simp add: metadata_set_def)

lemma metadata_set_idem: "metadata_set g v (metadata_set g v st) = metadata_set g v st"
  using metadata_set_field [of g g v st] by (simp add: metadata_set_def [of _ _ "metadata_set _ _ _"])

lemma metadata_eqI:
  fixes m m' :: metadata
  assumes "\<And>f. get_field f m = get_field f m'"
  shows "m = m'"
  using assms [of Artist] assms [of Title] assms [of Album] assms [of Artwork] assms [of Comment]
    assms [of Genre]
  by simp

text \<open>The text a reader of the FIFO gets of the fields, one line each.\<close>

definition fifo_record :: "metadata \<Rightarrow> string" where
  "fifo_record m = concat (map (\<lambda>(n, f). print_one n (get_field f m))
     [(''artist'', Artist), (''title'', Title), (''album'', Album), (''artwork'', Artwork),
      (''genre'', Genre), (''comment'', Comment)]) @ [NL]"

lemma metadata_write_open:
  "fifo_open st \<Longrightarrow> metadata_write env st =
    (if \<not> dirty st then Inr (st, '''')
     else if has_reader env then Inr (st\<lparr>dirty := False\<rparr>, fifo_record (player_meta st))
     else Inr (st\<lparr>dirty := False, fifo_open := False\<rparr>, ''''))"
  by (simp add: metadata_write_def fifo_record_def metadata_close_def Let_def)

lemma metadata_write_closed:
  "\<not> fifo_open st \<Longrightarrow> metadata_open env st = Inr st' \<Longrightarrow> fifo_open st' \<Longrightarrow>
   metadata_write env st = metadata_write env st'"
  by (simp add: metadata_write_def)

section \<open>Properties\<close>

text \<open>
  Setting fields and writing them: each field of the record that the reader gets holds the
  value that was set last, or is as it was; a second write without a change writes nothing; and
  when nobody reads, the FIFO is closed and the next write opens it again.
\<close>

theorem metadata_is_written_once:
  assumes "get_field g (player_meta st) \<noteq> Some v" "meta_dir env = Some dir"
    and "\<not> mkfifo_fails env \<or> mkfifo_exists env" "\<not> open_fails env"
  shows "\<exists>st' out. metadata_write env (metadata_set g v st) = Inr (st', out) \<and>
    (\<forall>f. get_field f (player_meta st') = (if f = g then Some v else get_field f (player_meta st))) \<and>
    \<not> dirty st' \<and> fifo_open st' = has_reader env \<and>
    out = (if has_reader env then fifo_record (put_field g v (player_meta st)) else '''') \<and>
    metadata_write env st' = Inr (st'\<lparr>fifo_open := True\<rparr>, '''')"
proof -
  have s: "metadata_set g v st = st\<lparr>player_meta := put_field g v (player_meta st), dirty := True\<rparr>"
    using assms(1) by (simp add: metadata_set_def)
  have o: "metadata_open env x = Inr (x\<lparr>fifo_open := True\<rparr>)" for x
    using assms(2-4) by (auto simp: metadata_open_def)
  have w: "metadata_write env x = metadata_write env (x\<lparr>fifo_open := True\<rparr>)" for x
  proof (cases "fifo_open x")
    case True
    then have "x\<lparr>fifo_open := True\<rparr> = x" by simp
    then show ?thesis by simp
  qed (simp add: metadata_write_closed [OF _ o])
  have w1: "metadata_write env (metadata_set g v st) =
      (if has_reader env
       then Inr (st\<lparr>player_meta := put_field g v (player_meta st), dirty := False, fifo_open := True\<rparr>,
                 fifo_record (put_field g v (player_meta st)))
       else Inr (st\<lparr>player_meta := put_field g v (player_meta st), dirty := False, fifo_open := False\<rparr>, ''''))"
    by (subst w) (simp add: s metadata_write_open)
  have w2: "metadata_write env x = Inr (x\<lparr>fifo_open := True\<rparr>, '''')" if "\<not> dirty x" for x
    by (subst w) (use that in \<open>simp add: metadata_write_open\<close>)
  show ?thesis unfolding w1 by (cases "has_reader env") (simp_all add: w2)
qed

theorem metadata_is_written_once_witness:
  "\<exists>st' out. metadata_write \<lparr>meta_dir = Some ''/tmp'', mkfifo_fails = True, mkfifo_exists = True,
       open_fails = False, has_reader = True\<rparr> (metadata_set Title ''Song'' meta_initial) = Inr (st', out) \<and>
     out = fifo_record (put_field Title ''Song'' (player_meta meta_initial)) \<and>
     get_field Title (player_meta st') = Some ''Song''"
proof -
  let ?env = "\<lparr>meta_dir = Some ''/tmp'', mkfifo_fails = True, mkfifo_exists = True,
       open_fails = False, has_reader = True\<rparr>"
  have n: "get_field Title (player_meta meta_initial) \<noteq> Some ''Song''" by (simp add: meta_initial_def)
  have e: "meta_dir ?env = Some ''/tmp''" "\<not> mkfifo_fails ?env \<or> mkfifo_exists ?env" "\<not> open_fails ?env"
    "has_reader ?env" by simp_all
  obtain st' where "metadata_write ?env (metadata_set Title ''Song'' meta_initial) =
      Inr (st', fifo_record (put_field Title ''Song'' (player_meta meta_initial)))"
    "\<forall>f. get_field f (player_meta st') = (if f = Title then Some ''Song'' else get_field f (player_meta meta_initial))"
    using metadata_is_written_once [OF n e(1-3)] e(4) by metis
  then show ?thesis by (intro exI conjI) (assumption, rule refl, simp)
qed

end
