(* ===== verification/Base64.thy ===== *)
theory Base64
  imports Prelude
begin

text \<open>
  The base64 functions of common.c. The coding itself is done by a filter of OpenSSL and is an
  argument: \<open>b64_write\<close> is what the filter turns the bytes written to it into, \<open>b64_read mem n\<close>
  what reading at most \<open>n\<close> bytes through it from the memory \<open>mem\<close> gives. What the sources add, the
  padding they restore and the last character they cut, is modelled. A reference coder shows the
  assumptions about the filter can hold.
\<close>

section \<open>The functions of the program\<close>

text \<open>The copy leaves out the last character and ends the string in its place.\<close>

definition base64_enc :: "(bytes \<Rightarrow> string) \<Rightarrow> bytes \<Rightarrow> string" where
  "base64_enc b64_write input = butlast (b64_write input)"

text \<open>The loop that restores the padding: \<open>while (inlen++ & 3)\<close>.\<close>

lemma padding_step:
  assumes "n mod 4 \<noteq> (0 :: nat)"
  shows "(4 - n mod 4) mod 4 = Suc ((4 - Suc n mod 4) mod 4)"
proof -
  consider "n mod 4 = 1" | "n mod 4 = 2" | "n mod 4 = 3" using assms by linarith
  then show ?thesis by cases (simp_all add: mod_Suc)
qed

lemma padding_less: "n mod 4 \<noteq> (0 :: nat) \<Longrightarrow> (4 - Suc n mod 4) mod 4 < (4 - n mod 4) mod 4"
  using padding_step [of n] by linarith

function restore_padding :: "nat \<Rightarrow> string" where
  "restore_padding inlen =
     (if inlen mod 4 \<noteq> 0 then CHR ''='' # restore_padding (Suc inlen) else [])"
  by pat_completeness auto
termination
  by (relation "measure (\<lambda>n. (4 - n mod 4) mod 4)") (simp, unfold in_measure, rule padding_less)

declare restore_padding.simps [simp del]

definition base64_dec :: "(string \<Rightarrow> nat \<Rightarrow> int \<times> bytes) \<Rightarrow> string \<Rightarrow> int \<times> bytes" where
  "base64_dec b64_read input =
     (let inlen = length input;
          bmem = input @ restore_padding inlen;
          bufsize = length input * 3 div 4 + 1
      in b64_read bmem bufsize)"

section \<open>A reference coder\<close>

definition b64_alphabet :: string where
  "b64_alphabet = ''ABCDEFGHIJKLMNOPQRSTUVWXYZabcdefghijklmnopqrstuvwxyz0123456789+/''"

definition b64_char :: "nat \<Rightarrow> char" where
  "b64_char n = b64_alphabet ! n"

fun position :: "char \<Rightarrow> string \<Rightarrow> nat option" where
  "position c [] = None"
| "position c (x # xs) = (if x = c then Some 0 else map_option Suc (position c xs))"

fun b64_encode :: "nat list \<Rightarrow> string" where
  "b64_encode [] = []"
| "b64_encode [a] = [b64_char (a div 4), b64_char (a mod 4 * 16), CHR ''='', CHR ''='']"
| "b64_encode [a, b] =
     [b64_char (a div 4), b64_char (a mod 4 * 16 + b div 16), b64_char (b mod 16 * 4), CHR ''='']"
| "b64_encode (a # b # c # rest) =
     [b64_char (a div 4), b64_char (a mod 4 * 16 + b div 16), b64_char (b mod 16 * 4 + c div 64),
      b64_char (c mod 64)] @ b64_encode rest"

definition sextet :: "char \<Rightarrow> nat" where
  "sextet c = (case position c b64_alphabet of Some n \<Rightarrow> n | None \<Rightarrow> 0)"

fun b64_decode :: "string \<Rightarrow> nat list" where
  "b64_decode (w # x # y # z # rest) =
     (let a = sextet w * 4 + sextet x div 16;
          b = sextet x mod 16 * 16 + sextet y div 4;
          c = sextet y mod 4 * 64 + sextet z
      in if y = CHR ''='' then [a] else if z = CHR ''='' then [a, b] else a # b # c # b64_decode rest)"
| "b64_decode _ = []"

lemma b64_char_table:
  "\<forall>n \<in> set [0..<64]. sextet (b64_char n) = n \<and> b64_char n \<noteq> CHR ''=''"
  by code_simp

lemma b64_char_sextet [simp]: "n < 64 \<Longrightarrow> sextet (b64_char n) = n"
  using b64_char_table by auto

lemma b64_char_pad [simp]: "n < 64 \<Longrightarrow> b64_char n \<noteq> CHR ''=''"
  using b64_char_table by auto

lemma restore_padding_eq:
  "restore_padding n = replicate ((4 - n mod 4) mod 4) (CHR ''='')"
proof (induction n rule: restore_padding.induct)
  case (1 n)
  show ?case
  proof (cases "n mod 4 = 0")
    case True
    then show ?thesis by (subst restore_padding.simps) simp
  next
    case False
    then show ?thesis using padding_step [OF False] 1 by (subst restore_padding.simps) simp
  qed
qed

section \<open>The reference coder is a code\<close>

lemma sextet_sums:
  assumes "a < 256" "b < 256" "c < (256 :: nat)"
  shows "a div 4 < 64" "a mod 4 * 16 + b div 16 < 64" "b mod 16 * 4 + c div 64 < 64" "c mod 64 < 64"
    "b mod 16 * 4 < 64" "a mod 4 * 16 < 64"
    "a div 4 * 4 + (a mod 4 * 16 + b div 16) div 16 = a"
    "(a mod 4 * 16 + b div 16) mod 16 * 16 + (b mod 16 * 4 + c div 64) div 4 = b"
    "(b mod 16 * 4 + c div 64) mod 4 * 64 + c mod 64 = c"
proof -
  obtain a1 a2 where a: "a = 4 * a1 + a2" "a2 < 4" "a1 < 64"
    using assms(1) by (intro that [of "a div 4" "a mod 4"]) auto
  obtain b1 b2 where b: "b = 16 * b1 + b2" "b2 < 16" "b1 < 16"
    using assms(2) by (intro that [of "b div 16" "b mod 16"]) auto
  obtain c1 c2 where c: "c = 64 * c1 + c2" "c2 < 64" "c1 < 4"
    using assms(3) by (intro that [of "c div 64" "c mod 64"]) auto
  show "a div 4 < 64" "a mod 4 * 16 + b div 16 < 64" "b mod 16 * 4 + c div 64 < 64" "c mod 64 < 64"
    "b mod 16 * 4 < 64" "a mod 4 * 16 < 64"
    "a div 4 * 4 + (a mod 4 * 16 + b div 16) div 16 = a"
    "(a mod 4 * 16 + b div 16) mod 16 * 16 + (b mod 16 * 4 + c div 64) div 4 = b"
    "(b mod 16 * 4 + c div 64) mod 4 * 64 + c mod 64 = c"
    using a b c by simp_all
qed

definition unpad :: "string \<Rightarrow> string" where
  "unpad s = takeWhile (\<lambda>c. c \<noteq> CHR ''='') s"

lemma b64_decode_four:
  assumes "s1 < 64" "s2 < 64" "s3 < 64" "s4 < 64"
  shows "b64_decode ([b64_char s1, b64_char s2, b64_char s3, b64_char s4] @ t) =
    (s1 * 4 + s2 div 16) # (s2 mod 16 * 16 + s3 div 4) # (s3 mod 4 * 64 + s4) # b64_decode t"
  using assms by (simp add: Let_def)

lemma b64_decode_encode:
  "\<forall>n \<in> set ns. n < 256 \<Longrightarrow> b64_decode (b64_encode ns) = ns"
proof (induction ns rule: b64_encode.induct)
  case (2 a)
  then show ?case using sextet_sums [of a 0 0] by simp
next
  case (3 a b)
  then show ?case using sextet_sums [of a b 0] by simp
next
  case (4 a b c rest)
  then have l: "a < 256" "b < 256" "c < 256" "\<forall>n \<in> set rest. n < 256" by simp_all
  note s = sextet_sums [OF l(1-3)]
  show ?case unfolding b64_encode.simps b64_decode_four [OF s(1-4)] s(7-9) 4(1) [OF l(4)] ..
qed simp

lemma unpad_encode:
  "\<forall>n \<in> set ns. n < 256 \<Longrightarrow>
   b64_encode ns = unpad (b64_encode ns) @ replicate ((3 - length ns mod 3) mod 3) (CHR ''='') \<and>
   length (unpad (b64_encode ns)) = (4 * length ns + 2) div 3"
proof (induction ns rule: b64_encode.induct)
  case (2 a)
  then show ?case using sextet_sums [of a 0 0] by (simp add: unpad_def numeral_2_eq_2)
next
  case (3 a b)
  then show ?case using sextet_sums [of a b 0] by (simp add: unpad_def)
next
  case (4 a b c rest)
  have s: "a div 4 < 64" "a mod 4 * 16 + b div 16 < 64" "b mod 16 * 4 + c div 64 < 64" "c mod 64 < 64"
    using sextet_sums [of a b c] 4(2) by simp_all
  have m: "length (a # b # c # rest) mod 3 = length rest mod 3" by (simp add: mod_Suc) presburger
  have u: "unpad (b64_encode (a # b # c # rest)) =
      [b64_char (a div 4), b64_char (a mod 4 * 16 + b div 16), b64_char (b mod 16 * 4 + c div 64),
       b64_char (c mod 64)] @ unpad (b64_encode rest)"
    using s by (simp add: unpad_def)
  have e: "b64_encode rest = unpad (b64_encode rest) @ replicate ((3 - length rest mod 3) mod 3) (CHR ''='')"
    "length (unpad (b64_encode rest)) = (4 * length rest + 2) div 3"
    using 4 by simp_all
  show ?case unfolding m u using e(1) by (simp add: e(2))
qed (simp add: unpad_def)

definition b64_text :: "bytes \<Rightarrow> string" where
  "b64_text bs = b64_encode (map unat bs)"

definition b64_filter_read :: "string \<Rightarrow> nat \<Rightarrow> int \<times> bytes" where
  "b64_filter_read mem n = (let bs = take n (map of_nat (b64_decode mem)) in (int (length bs), bs))"

text \<open>
  What the sources rely on of the filter: written bytes give the standard text, and reading the
  text of \<open>bs\<close> into a buffer that is large enough gives \<open>bs\<close> back.
\<close>

definition b64_filter :: "(bytes \<Rightarrow> string) \<Rightarrow> (string \<Rightarrow> nat \<Rightarrow> int \<times> bytes) \<Rightarrow> bool" where
  "b64_filter b64_write b64_read \<longleftrightarrow>
     (\<forall>bs. b64_write bs = b64_text bs) \<and>
     (\<forall>bs n. length bs \<le> n \<longrightarrow> b64_read (b64_text bs) n = (int (length bs), bs))"

lemma map_unat_byte: "\<forall>n \<in> set (map unat (bs :: bytes)). n < 256"
  using unsigned_less [where 'b = 8] by fastforce

lemma b64_reference_filter: "b64_filter b64_text b64_filter_read"
  using b64_decode_encode [OF map_unat_byte]
  by (simp add: b64_filter_def b64_filter_read_def b64_text_def o_def)

lemma length_b64_text:
  "length (b64_text bs) mod 4 = 0 \<and> length bs \<le> length (b64_text bs) * 3 div 4"
proof -
  have "length (b64_encode ns) mod 4 = 0 \<and> 4 * length ns \<le> 3 * length (b64_encode ns)" for ns
    by (induction ns rule: b64_encode.induct) auto
  from this [of "map unat bs"] show ?thesis
    by (simp add: b64_text_def less_eq_div_iff_mult_less_eq mult.commute)
qed

lemma base64_dec_unpadded:
  assumes "b64_filter b64_write b64_read"
  shows "base64_dec b64_read (unpad (b64_text bs)) = (int (length bs), bs)"
proof -
  let ?s = "unpad (b64_text bs)"
  have u: "b64_text bs = ?s @ replicate ((3 - length bs mod 3) mod 3) (CHR ''='')"
    "length ?s = (4 * length bs + 2) div 3"
    using unpad_encode [OF map_unat_byte, of bs] by (simp_all add: b64_text_def)
  obtain q r where q: "length bs = 3 * q + r" "r < 3" by (intro that [of "length bs div 3" "length bs mod 3"]) simp_all
  have "4 * length bs + 2 = (4 * r + 2) + 3 * (4 * q)" by (simp add: q(1))
  then have ls: "length ?s = (4 * r + 2) div 3 + 4 * q" unfolding u(2) by (simp only: div_mult_self2)
  from q(2) consider "r = 0" | "r = 1" | "r = 2" by linarith
  moreover have "length ?s mod 4 = (4 * r + 2) div 3 mod 4" "length bs mod 3 = r"
    using q by (simp_all add: ls)
  ultimately have len: "(4 - length ?s mod 4) mod 4 = (3 - length bs mod 3) mod 3 \<and>
      length bs \<le> length ?s * 3 div 4 + 1"
    using ls q(1) by cases simp_all
  then have "?s @ restore_padding (length ?s) = b64_text bs" using u(1) len by (simp add: restore_padding_eq)
  then show ?thesis using assms len by (simp add: base64_dec_def b64_filter_def Let_def)
qed

section \<open>Properties\<close>

text \<open>
  \<open>base64_dec\<close> gives back the bytes of a base64 text, with its padding or with the padding cut
  off as the clients do; the buffer it computes is large enough for both.
\<close>

theorem padding_is_restored:
  assumes "b64_filter b64_write b64_read"
  shows "base64_dec b64_read (unpad (b64_write bs)) = (int (length bs), bs) \<and>
    base64_dec b64_read (b64_write bs) = (int (length bs), bs)"
proof -
  have w: "b64_write bs = b64_text bs" using assms by (simp add: b64_filter_def)
  have l: "length (b64_text bs) mod 4 = 0 \<and> length bs \<le> length (b64_text bs) * 3 div 4"
    by (rule length_b64_text)
  then have "base64_dec b64_read (b64_text bs) = (int (length bs), bs)"
    using assms by (simp add: base64_dec_def b64_filter_def Let_def restore_padding_eq)
  then show ?thesis using base64_dec_unpadded [OF assms, of bs] w by simp
qed

theorem padding_is_restored_witness:
  "base64_dec b64_filter_read ''AQI'' = (2, [1, 2])"
proof -
  have "b64_encode [1, 2] = ''AQI=''" by code_simp
  then have "unpad (b64_text [1, 2]) = ''AQI''" by (simp add: b64_text_def unpad_def)
  with padding_is_restored [OF b64_reference_filter, of "[1, 2]"] show ?thesis by simp
qed

lemma unpad_base64_enc:
  assumes "b64_filter b64_write b64_read" "length bs mod 3 \<noteq> 0"
  shows "unpad (base64_enc b64_write bs) = unpad (b64_text bs)"
proof -
  have w: "b64_write bs = b64_text bs" using assms(1) by (simp add: b64_filter_def)
  have u: "b64_text bs = unpad (b64_text bs) @ replicate ((3 - length bs mod 3) mod 3) (CHR ''='')"
    using unpad_encode [OF map_unat_byte, of bs] by (simp add: b64_text_def)
  have np: "unpad (unpad s @ replicate k (CHR ''='')) = unpad s" for s k
    by (simp add: unpad_def takeWhile_append)
  have "(3 - length bs mod 3) mod 3 \<noteq> 0" using assms(2) by (cases "length bs mod 3 = 1") auto
  then obtain k where "(3 - length bs mod 3) mod 3 = Suc k" by (cases "(3 - length bs mod 3) mod 3") auto
  then have "butlast (b64_text bs) = unpad (b64_text bs) @ replicate k (CHR ''='')"
    using u by (metis butlast_append butlast_snoc replicate_Suc replicate_append_same append_assoc)
  then show ?thesis using np by (simp add: base64_enc_def w)
qed

lemma base64_enc_unpadded:
  assumes "b64_filter b64_write b64_read" "length bs mod 3 \<noteq> 0"
  shows "base64_dec b64_read (unpad (base64_enc b64_write bs)) = (int (length bs), bs)"
  using unpad_base64_enc [OF assms] base64_dec_unpadded [OF assms(1), of bs] by simp

text \<open>
  The text of \<open>base64_enc\<close>, with the rest of its padding cut off as for the Apple-Response, is
  the text of the bytes when their number is no multiple of 3, as for a nonce of 8 bytes or an
  RSA block of 256; for a positive multiple of 3 a character of the text itself is lost.
\<close>

theorem base64_enc_keeps_text:
  assumes "b64_filter b64_write b64_read"
  shows "if length bs mod 3 \<noteq> 0
    then unpad (base64_enc b64_write bs) = unpad (b64_write bs) \<and>
      base64_dec b64_read (unpad (base64_enc b64_write bs)) = (int (length bs), bs)
    else bs \<noteq> [] \<longrightarrow> length (unpad (base64_enc b64_write bs)) < length (unpad (b64_write bs))"
proof -
  have w: "b64_write bs = b64_text bs" using assms by (simp add: b64_filter_def)
  have u: "b64_text bs = unpad (b64_text bs) @ replicate ((3 - length bs mod 3) mod 3) (CHR ''='')"
    using unpad_encode [OF map_unat_byte, of bs] by (simp add: b64_text_def)
  show ?thesis
  proof (cases "length bs mod 3 \<noteq> 0")
    case True
    then show ?thesis
      using w unpad_base64_enc [OF assms] base64_enc_unpadded [OF assms] by simp
  next
    case False
    then have "unpad (b64_text bs) = b64_text bs" using u by simp
    moreover have "length (unpad (butlast s)) < length s" if "s \<noteq> []" for s
      using that length_takeWhile_le [of "\<lambda>c. c \<noteq> CHR ''=''" "butlast s"]
        length_butlast [of s] by (cases "length s") (simp_all add: unpad_def del: takeWhile.simps butlast.simps)
    moreover have "b64_text bs \<noteq> []" if "bs \<noteq> []"
      using that by (cases "map unat bs" rule: b64_encode.cases) (simp_all add: b64_text_def)
    ultimately show ?thesis using False w by (auto simp: base64_enc_def)
  qed
qed

theorem base64_enc_keeps_text_witness:
  "base64_enc b64_text [0, 0, 0] = ''AAA'' \<and> length (unpad (base64_enc b64_text [0, 0, 0])) < length (unpad (b64_text [0, 0, 0]))"
proof -
  have e: "b64_text [0, 0, 0] = ''AAAA''" by code_simp
  from base64_enc_keeps_text [OF b64_reference_filter, of "[0, 0, 0]"] show ?thesis
    by (simp add: base64_enc_def e unpad_def)
qed

end
