(* ===== verification/Rtsp_Params.thy ===== *)
theory Rtsp_Params
  imports Rtsp_Reader Metadata Base64 Player_Control
begin

text \<open>
  The handlers of rtsp.c that read the content of a request: \<open>handle_set_parameter\<close> with its
  parameters, metadata tags and cover image, and \<open>handle_announce\<close>. They work on the buffer of the
  content in place; a read behind the buffer is a fault. What they do to the player and to the
  metadata is returned.
\<close>

section \<open>C strings in a buffer\<close>

text \<open>\<open>strncmp\<close> with a literal: it stops at the first difference.\<close>

fun prefix_at :: "string \<Rightarrow> string \<Rightarrow> fault + bool" where
  "prefix_at s [] = Inr True"
| "prefix_at [] (l # ls) = Inl Out_of_bounds"
| "prefix_at (c # cs) (l # ls) = (if c = l then prefix_at cs ls else Inr False)"

definition c_string_at :: "string \<Rightarrow> nat \<Rightarrow> fault + string" where
  "c_string_at buf i = (if NUL \<in> set (drop i buf) then Inr (cstr (drop i buf)) else Inl Out_of_bounds)"

text \<open>\<open>strncpy\<close> of \<open>n\<close> bytes: what is read, and the string it leaves.\<close>

definition strncpy_at :: "string \<Rightarrow> nat \<Rightarrow> nat \<Rightarrow> fault + string" where
  "strncpy_at buf i n =
     (let s = take n (drop i buf) in
      if length s = n \<or> NUL \<in> set s then Inr (cstr s) else Inl Out_of_bounds)"

text \<open>
  \<open>atof\<close> of decimal notation. Hexadecimal numbers, infinities and NaN, and the rounding to float,
  are left out.
\<close>

definition starts :: "char \<Rightarrow> string \<Rightarrow> bool" where
  "starts c s \<longleftrightarrow> (case s of [] \<Rightarrow> False | x # _ \<Rightarrow> x = c)"

definition atof :: "string \<Rightarrow> real" where
  "atof s =
     (let t = dropWhile is_space s;
          neg = starts (CHR ''-'') t;
          t = (if neg \<or> starts (CHR ''+'') t then tl t else t);
          ip = takeWhile is_digit t;
          t = dropWhile is_digit t;
          fp = (if starts (CHR ''.'') t then takeWhile is_digit (tl t) else []);
          t = (if starts (CHR ''.'') t then dropWhile is_digit (tl t) else t);
          mant = of_int (digits_value 0 (ip @ fp)) / 10 ^ length fp;
          e = (if ip @ fp \<noteq> [] \<and> (starts (CHR ''e'') t \<or> starts (CHR ''E'') t) then tl t else []);
          eneg = starts (CHR ''-'') e;
          e = (if eneg \<or> starts (CHR ''+'') e then tl e else e);
          expo = of_int (digits_value 0 e)
      in (if neg then -1 else 1) * mant * 10 powr (if eneg then - expo else expo))"

section \<open>The lines of the content\<close>

text \<open>
  The loop both handlers have: a line is cut off, then looked at; \<open>step\<close> is what is done with the
  line that starts at the index it gets.
\<close>

lemma nextline_shrinks:
  assumes "nextline buf i inbuf = Inr (buf', Some nxt)"
  shows "length buf' - nxt < length buf - i"
proof -
  have "length buf' = length buf" "i < nxt" "nxt \<le> length buf" using nextline_result [OF assms] by auto
  then show ?thesis by linarith
qed

function for_lines ::
    "(string \<Rightarrow> nat \<Rightarrow> 'a \<Rightarrow> fault + 'a) \<Rightarrow> string \<Rightarrow> nat \<Rightarrow> int \<Rightarrow> 'a \<Rightarrow> fault + (string \<times> 'a)" where
  "for_lines step buf cp cp_left acc =
     (if cp_left = 0 then Inr (buf, acc)
      else
        case nextline buf cp cp_left of
          Inl e \<Rightarrow> Inl e
        | Inr (buf, next) \<Rightarrow>
            case step buf cp acc of
              Inl e \<Rightarrow> Inl e
            | Inr acc \<Rightarrow>
                case next of
                  None \<Rightarrow> Inr (buf, acc)
                | Some n \<Rightarrow> for_lines step buf n (cp_left - int (n - cp)) acc)"
  by pat_completeness auto
termination
  by (relation "measure (\<lambda>(step, buf, cp, cp_left, acc). length buf - cp)")
    (auto dest!: sym [where t = "nextline _ _ _"] intro: nextline_shrinks)

declare for_lines.simps [simp del]

section \<open>Parameters\<close>

text \<open>The volumes that are set, in order. An unknown parameter has its length taken for the log.\<close>

definition param_step :: "string \<Rightarrow> nat \<Rightarrow> real list \<Rightarrow> fault + real list" where
  "param_step buf cp vols =
     (case prefix_at (drop cp buf) ''volume: '' of
        Inl e \<Rightarrow> Inl e
      | Inr True \<Rightarrow>
          (case c_string_at buf (cp + 8) of
             Inl e \<Rightarrow> Inl e
           | Inr s \<Rightarrow> Inr (vols @ [atof s]))
      | Inr False \<Rightarrow>
          (case prefix_at (drop cp buf) ''progress: '' of
             Inl e \<Rightarrow> Inl e
           | Inr True \<Rightarrow> Inr vols
           | Inr False \<Rightarrow>
               (case c_string_at buf cp of
                  Inl e \<Rightarrow> Inl e
                | Inr s \<Rightarrow> Inr vols)))"

definition content_of :: "rtsp_message \<Rightarrow> string" where
  "content_of req = (case content req of Some buf \<Rightarrow> buf | None \<Rightarrow> '''')"

definition handle_set_parameter_parameter :: "rtsp_message \<Rightarrow> fault + real list" where
  "handle_set_parameter_parameter req =
     (case for_lines param_step (content_of req) 0 (contentlength req) [] of
        Inl e \<Rightarrow> Inl e
      | Inr (buf, vols) \<Rightarrow> Inr vols)"

section \<open>Metadata tags\<close>

definition load_be32 :: "string \<Rightarrow> nat \<Rightarrow> fault + u32" where
  "load_be32 buf i =
     (case take 4 (drop i buf) of
        [a, b, c, d] \<Rightarrow> Inr (ntohl (load32 (of_char a) (of_char b) (of_char c) (of_char d)))
      | _ \<Rightarrow> Inl Out_of_bounds)"

definition dmap_store :: "string \<Rightarrow> string \<Rightarrow> meta_state \<Rightarrow> meta_state" where
  "dmap_store tag val st =
     (if strncmp_eq tag ''asal '' 4 then metadata_set Album val st
      else if strncmp_eq tag ''asar '' 4 then metadata_set Artist val st
      else if strncmp_eq tag ''ascm '' 4 then metadata_set Comment val st
      else if strncmp_eq tag ''asgn '' 4 then metadata_set Genre val st
      else if strncmp_eq tag ''minm '' 4 then metadata_set Title val st
      else st)"

text \<open>
  One tag. The offset is an unsigned int of 32 bits; \<open>enough\<close> says whether \<open>malloc\<close> succeeds.
\<close>

definition dmap_item :: "string \<Rightarrow> (u32 \<Rightarrow> bool) \<Rightarrow> u32 \<Rightarrow> fault + (string \<times> string \<times> u32)" where
  "dmap_item buf enough off =
     (case strncpy_at buf (unat off) 4 of
        Inl e \<Rightarrow> Inl e
      | Inr tag \<Rightarrow>
          let off = off + 4 in
          case load_be32 buf (unat off) of
            Inl e \<Rightarrow> Inl e
          | Inr vl \<Rightarrow>
              let off = off + 4 in
              if vl + 1 = 0 then Inl Out_of_bounds
              else if \<not> enough (vl + 1) then Inl Null_pointer
              else
                case strncpy_at buf (unat off) (unat vl) of
                  Inl e \<Rightarrow> Inl e
                | Inr val \<Rightarrow> Inr (tag, val, off + vl))"

partial_function (option) dmap_loop ::
    "string \<Rightarrow> u32 \<Rightarrow> (u32 \<Rightarrow> bool) \<Rightarrow> u32 \<Rightarrow> meta_state \<Rightarrow> (fault + meta_state) option" where
  "dmap_loop buf cl enough off st =
     (if off < cl then
        case dmap_item buf enough off of
          Inl e \<Rightarrow> Some (Inl e)
        | Inr r \<Rightarrow> dmap_loop buf cl enough (snd (snd r)) (dmap_store (fst r) (fst (snd r)) st)
      else Some (Inr st))"

definition handle_set_parameter_metadata ::
    "(u32 \<Rightarrow> bool) \<Rightarrow> fifo_env \<Rightarrow> rtsp_message \<Rightarrow> meta_state \<Rightarrow> (fault + (meta_state \<times> string)) option" where
  "handle_set_parameter_metadata enough env req st =
     (case dmap_loop (content_of req) (word_of_int (contentlength req)) enough 8 st of
        None \<Rightarrow> None
      | Some (Inl e) \<Rightarrow> Some (Inl e)
      | Some (Inr st) \<Rightarrow> Some (metadata_write env st))"

section \<open>The handler of SET\_PARAMETER\<close>

text \<open>
  The environment of the handler: memory, the file system of the metadata, OpenSSL's MD5.
\<close>

record param_env =
  enough_memory :: "u32 \<Rightarrow> bool"
  fifo :: fifo_env
  md5 :: "string \<Rightarrow> bytes"
  creat_ok :: bool
  write_ok :: bool

record param_result =
  pr_meta :: meta_state
  pr_volumes :: "real list"
  pr_fifo_text :: string
  pr_file :: "(string \<times> string) option"

definition handle_set_parameter_coverart ::
    "param_env \<Rightarrow> rtsp_message \<Rightarrow> meta_state \<Rightarrow> fault + (meta_state \<times> (string \<times> string) option)" where
  "handle_set_parameter_coverart env req st =
     (case msg_get_header req ''Content-Type'' of
        None \<Rightarrow> Inl Null_pointer
      | Some ct \<Rightarrow>
          let cover = metadata_cover_image (md5 env) (meta_dir (fifo env)) (creat_ok env) (write_ok env);
              buf = take (nat (contentlength req)) (content_of req)
          in
            if strncmp_eq ct ''image/jpeg'' 10 then Inr (cover (Some (buf, ''jpg'')) st)
            else if strncmp_eq ct ''image/png'' 9 then Inr (cover (Some (buf, ''png'')) st)
            else Inr (cover None st))"

definition handle_set_parameter ::
    "param_env \<Rightarrow> rtsp_message \<Rightarrow> rtsp_message \<Rightarrow> meta_state \<Rightarrow>
       (fault + (param_result \<times> rtsp_message)) option" where
  "handle_set_parameter env req resp st =
     (let nothing = \<lparr>pr_meta = st, pr_volumes = [], pr_fifo_text = '''', pr_file = None\<rparr>;
          finish = (\<lambda>r. case r of
            None \<Rightarrow> None
          | Some (Inl e) \<Rightarrow> Some (Inl e)
          | Some (Inr res) \<Rightarrow> Some (Inr (res, resp\<lparr>respcode := 200\<rparr>)))
      in
        finish
          (case msg_get_header req ''Content-Type'' of
             None \<Rightarrow> Some (Inr nothing)
           | Some ct \<Rightarrow>
               if strncmp_eq ct ''application/x-dmap-tagged'' 25 then
                 (case handle_set_parameter_metadata (enough_memory env) (fifo env) req st of
                    None \<Rightarrow> None
                  | Some (Inl e) \<Rightarrow> Some (Inl e)
                  | Some (Inr (st, out)) \<Rightarrow> Some (Inr (nothing\<lparr>pr_meta := st, pr_fifo_text := out\<rparr>)))
               else if strncmp_eq ct ''image/jpeg'' 10 \<or> strncmp_eq ct ''image/png'' 9 \<or>
                       strncmp_eq ct ''image/none'' 10 then
                 (case handle_set_parameter_coverart env req st of
                    Inl e \<Rightarrow> Some (Inl e)
                  | Inr (st, f) \<Rightarrow> Some (Inr (nothing\<lparr>pr_meta := st, pr_file := f\<rparr>)))
               else if strncmp_eq ct ''text/parameters'' 15 then
                 (case handle_set_parameter_parameter req of
                    Inl e \<Rightarrow> Some (Inl e)
                  | Inr vols \<Rightarrow> Some (Inr (nothing\<lparr>pr_volumes := vols\<rparr>)))
               else Some (Inr nothing)))"

section \<open>ANNOUNCE\<close>

text \<open>The pointers to the format, the AES vector and the AES key, as indices of the buffer.\<close>

definition announce_step ::
    "string \<Rightarrow> nat \<Rightarrow> nat option \<times> nat option \<times> nat option \<Rightarrow> fault + (nat option \<times> nat option \<times> nat option)" where
  "announce_step buf cp ps =
     (case (prefix_at (drop cp buf) ''a=fmtp:'', prefix_at (drop cp buf) ''a=aesiv:'',
            prefix_at (drop cp buf) ''a=rsaaeskey:'') of
        (Inr b1, Inr b2, Inr b3) \<Rightarrow>
          (let (pfmtp, paesiv, prsaaeskey) = ps in
             Inr (if b1 then Some (cp + 7) else pfmtp, if b2 then Some (cp + 8) else paesiv,
                  if b3 then Some (cp + 12) else prsaaeskey))
      | _ \<Rightarrow> Inl Out_of_bounds)"

text \<open>\<open>strsep\<close> with blank and tab: the field and what is left, NULL behind the last.\<close>

definition is_sep :: "char \<Rightarrow> bool" where
  "is_sep c \<longleftrightarrow> c = SP \<or> c = CHR 0x09"

definition strsep :: "string option \<Rightarrow> string option \<times> string option" where
  "strsep p =
     (case p of
        None \<Rightarrow> (None, None)
      | Some s \<Rightarrow>
          (case dropWhile (\<lambda>c. \<not> is_sep c) s of
             [] \<Rightarrow> (Some s, None)
           | c # rest \<Rightarrow> (Some (takeWhile (\<lambda>c. \<not> is_sep c) s), Some rest)))"

fun fmtp_fields :: "nat \<Rightarrow> string option \<Rightarrow> fault + int list" where
  "fmtp_fields 0 p = Inr []"
| "fmtp_fields (Suc n) p =
     (case strsep p of
        (None, q) \<Rightarrow> Inl Null_pointer
      | (Some f, q) \<Rightarrow>
          (case fmtp_fields n q of
             Inl e \<Rightarrow> Inl e
           | Inr is \<Rightarrow> Inr (atoi f # is)))"

text \<open>
  \<open>rsa_key\<close> is the RSA decryption of OpenSSL with the key of the program. The stream keeps the
  vector when the key turns out wrong.
\<close>

definition handle_announce ::
    "(string \<Rightarrow> nat \<Rightarrow> int \<times> bytes) \<Rightarrow> (int \<times> bytes \<Rightarrow> int \<times> bytes) \<Rightarrow> rtsp_message \<Rightarrow>
       rtsp_message \<Rightarrow> stream_cfg \<Rightarrow> fault + (stream_cfg \<times> rtsp_message)" where
  "handle_announce b64_read rsa_key req resp stream =
     (case for_lines announce_step (content_of req) 0 (contentlength req) (None, None, None) of
        Inl e \<Rightarrow> Inl e
      | Inr (buf, Some pfmtp, Some paesiv, Some prsaaeskey) \<Rightarrow>
          (case c_string_at buf paesiv of
             Inl e \<Rightarrow> Inl e
           | Inr ivtext \<Rightarrow>
               let (len, aesiv) = base64_dec b64_read ivtext in
               if len \<noteq> 16 then Inr (stream, resp)
               else
                 let stream = stream\<lparr>sc_aesiv := aesiv\<rparr> in
                 case c_string_at buf prsaaeskey of
                   Inl e \<Rightarrow> Inl e
                 | Inr keytext \<Rightarrow>
                     let (keylen, aeskey) = rsa_key (base64_dec b64_read keytext) in
                     if keylen \<noteq> 16 then Inr (stream, resp)
                     else
                       let stream = stream\<lparr>sc_aeskey := aeskey\<rparr> in
                       case c_string_at buf pfmtp of
                         Inl e \<Rightarrow> Inl e
                       | Inr ftext \<Rightarrow>
                           case fmtp_fields 12 (Some ftext) of
                             Inl e \<Rightarrow> Inl e
                           | Inr is \<Rightarrow> Inr (stream\<lparr>sc_fmtp := is\<rparr>, resp\<lparr>respcode := 200\<rparr>))
      | Inr (buf, _) \<Rightarrow> Inr (stream, resp))"

section \<open>What the loop over lines does\<close>

definition nul_lines :: "string list \<Rightarrow> string" where
  "nul_lines ls = concat (map (\<lambda>l. l @ [NUL, NUL]) ls)"

lemma nul_lines_simps [simp]:
  "nul_lines [] = []" "nul_lines (l # ls) = l @ NUL # NUL # nul_lines ls"
  by (simp_all add: nul_lines_def)

lemma length_nul_lines [simp]: "length (nul_lines ls) = length (text_of_lines ls)"
  by (induction ls) simp_all

fun fold_lines :: "(string \<Rightarrow> nat \<Rightarrow> 'a \<Rightarrow> 'a) \<Rightarrow> string list \<Rightarrow> nat \<Rightarrow> 'a \<Rightarrow> 'a" where
  "fold_lines g [] cp acc = acc"
| "fold_lines g (l # ls) cp acc = fold_lines g ls (cp + length l + 2) (g l cp acc)"

lemma for_lines_text:
  assumes "\<And>pre l post acc. plain l \<Longrightarrow> step (pre @ l @ NUL # post) (length pre) acc = Inr (g l (length pre) acc)"
    and "\<forall>l \<in> set ls. plain l"
  shows "for_lines step (pre @ text_of_lines ls @ tail) (length pre) (int (length (text_of_lines ls))) acc =
    Inr (pre @ nul_lines ls @ tail, fold_lines g ls (length pre) acc)"
  using assms(2)
proof (induction ls arbitrary: pre acc)
  case Nil
  then show ?case by (subst for_lines.simps) simp
next
  case (Cons l ls)
  have pl: "plain l" using Cons.prems by simp
  have n: "nextline (pre @ text_of_lines (l # ls) @ tail) (length pre) (int (length (text_of_lines (l # ls)))) =
      Inr (pre @ l @ NUL # NUL # text_of_lines ls @ tail, Some (length pre + length l + 2))"
    using nextline_crlf [OF pl, of "int (length (text_of_lines (l # ls)))" pre "text_of_lines ls @ tail"] by simp
  have s: "step (pre @ l @ NUL # NUL # text_of_lines ls @ tail) (length pre) acc = Inr (g l (length pre) acc)"
    using assms(1) [OF pl, of pre "NUL # text_of_lines ls @ tail"] by simp
  have z: "(int (length (text_of_lines (l # ls))) = 0) = False" by simp
  have "for_lines step (pre @ text_of_lines (l # ls) @ tail) (length pre) (int (length (text_of_lines (l # ls)))) acc =
      for_lines step ((pre @ l @ [NUL, NUL]) @ text_of_lines ls @ tail) (length (pre @ l @ [NUL, NUL]))
        (int (length (text_of_lines ls))) (g l (length pre) acc)"
    by (subst for_lines.simps, unfold z n) (simp add: s)
  then show ?case using Cons.IH [of "pre @ l @ [NUL, NUL]"] Cons.prems by simp
qed

lemma prefix_at_line:
  assumes "NUL \<notin> set lit" "n = length lit"
  shows "prefix_at (l @ NUL # post) lit = Inr (take n l = lit)"
  unfolding assms(2) using assms(1)
proof (induction lit arbitrary: l)
  case (Cons c lit)
  then show ?case by (cases l) auto
qed simp

lemma c_string_at_line:
  assumes "plain l" "k \<le> length l"
  shows "c_string_at (pre @ l @ NUL # post) (length pre + k) = Inr (drop k l)"
proof -
  have "NUL \<notin> set (drop k l)" using assms(1) by (auto simp: plain_def dest: in_set_dropD)
  then show ?thesis using assms(2) by (simp add: c_string_at_def)
qed

section \<open>Parameters that are well formed\<close>

definition line_volume :: "string \<Rightarrow> real list" where
  "line_volume l = (if take 8 l = ''volume: '' then [atof (drop 8 l)] else [])"

lemma param_step_line:
  assumes "plain l"
  shows "param_step (pre @ l @ NUL # post) (length pre) vols = Inr (vols @ line_volume l)"
proof -
  have v: "prefix_at (l @ NUL # post) ''volume: '' = Inr (take 8 l = ''volume: '')"
    "prefix_at (l @ NUL # post) ''progress: '' = Inr (take 10 l = ''progress: '')"
    by (rule prefix_at_line; simp)+
  show ?thesis
  proof (cases "take 8 l = ''volume: ''")
    case True
    have "min (length l) 8 = 8" using arg_cong [OF True, of length] by (simp only: length_take) simp
    then have "8 \<le> length l" by simp
    then show ?thesis using c_string_at_line [OF assms, of 8 pre post] True
      by (simp add: param_step_def v line_volume_def)
  next
    case False
    then show ?thesis using c_string_at_line [OF assms, of 0 pre post]
      by (cases "take 10 l = ''progress: ''") (simp_all add: param_step_def v line_volume_def)
  qed
qed

lemma fold_line_volume:
  "fold_lines (\<lambda>l cp vols. vols @ line_volume l) ls cp vols = vols @ concat (map line_volume ls)"
  by (induction ls arbitrary: cp vols) simp_all

section \<open>Announcements that are well formed\<close>

text \<open>The value of the last line that starts with a key.\<close>

fun sdp_value :: "string \<Rightarrow> string list \<Rightarrow> string option" where
  "sdp_value key [] = None"
| "sdp_value key (l # ls) =
     (case sdp_value key ls of
        Some v \<Rightarrow> Some v
      | None \<Rightarrow> if take (length key) l = key then Some (drop (length key) l) else None)"

definition announce_line ::
    "string \<Rightarrow> nat \<Rightarrow> nat option \<times> nat option \<times> nat option \<Rightarrow> nat option \<times> nat option \<times> nat option" where
  "announce_line l cp ps =
     (if take 7 l = ''a=fmtp:'' then Some (cp + 7) else fst ps,
      if take 8 l = ''a=aesiv:'' then Some (cp + 8) else fst (snd ps),
      if take 12 l = ''a=rsaaeskey:'' then Some (cp + 12) else snd (snd ps))"

lemma announce_step_line:
  "announce_step (pre @ l @ NUL # post) (length pre) ps = Inr (announce_line l (length pre) ps)"
proof -
  have "prefix_at (l @ NUL # post) ''a=fmtp:'' = Inr (take 7 l = ''a=fmtp:'')"
    "prefix_at (l @ NUL # post) ''a=aesiv:'' = Inr (take 8 l = ''a=aesiv:'')"
    "prefix_at (l @ NUL # post) ''a=rsaaeskey:'' = Inr (take 12 l = ''a=rsaaeskey:'')"
    by (rule prefix_at_line; simp)+
  then show ?thesis by (cases ps) (simp add: announce_step_def announce_line_def)
qed

text \<open>An index of the result points to the value of its key, if there is one.\<close>

definition points_to :: "string \<Rightarrow> nat option \<Rightarrow> string option \<Rightarrow> nat option \<Rightarrow> bool" where
  "points_to buf i v i0 \<longleftrightarrow>
     (case v of None \<Rightarrow> i = i0 | Some s \<Rightarrow> (\<exists>k. i = Some k \<and> c_string_at buf k = Inr s))"

lemma fold_announce:
  assumes "\<forall>l \<in> set ls. plain l" "fold_lines announce_line ls (length pre) ps = (f, iv, key)"
  shows "points_to (pre @ nul_lines ls @ tail) f (sdp_value ''a=fmtp:'' ls) (fst ps) \<and>
    points_to (pre @ nul_lines ls @ tail) iv (sdp_value ''a=aesiv:'' ls) (fst (snd ps)) \<and>
    points_to (pre @ nul_lines ls @ tail) key (sdp_value ''a=rsaaeskey:'' ls) (snd (snd ps))"
  using assms
proof (induction ls arbitrary: pre ps)
  case Nil
  then show ?case by (simp add: points_to_def)
next
  case (Cons l ls)
  let ?pre = "pre @ l @ [NUL, NUL]" and ?ps = "announce_line l (length pre) ps"
  have pl: "plain l" using Cons.prems(1) by simp
  have key: "points_to buf i (sdp_value k (l # ls)) i0"
    if "points_to buf i (sdp_value k ls) (if take n l = k then Some (length pre + n) else i0)"
      and "buf = pre @ nul_lines (l # ls) @ tail" and "length k = n" for buf i k i0 n
    unfolding that(3) [symmetric]
  proof (cases "sdp_value k ls")
    case None
    have "take (length k) l = k \<Longrightarrow> length k \<le> length l" by (metis length_take min.cobounded1 nle_le)
    then have "take (length k) l = k \<Longrightarrow> c_string_at buf (length pre + length k) = Inr (drop (length k) l)"
      using c_string_at_line [OF pl, of "length k" pre "NUL # nul_lines ls @ tail"] that(2) by simp
    then show ?thesis using that(1,3) None by (auto simp: points_to_def)
  next
    case (Some v)
    then show ?thesis using that(1) by (auto simp: points_to_def)
  qed
  have f: "fold_lines announce_line ls (length ?pre) ?ps = (f, iv, key)" using Cons.prems(2) by simp
  have i: "points_to (?pre @ nul_lines ls @ tail) f (sdp_value ''a=fmtp:'' ls) (fst ?ps) \<and>
    points_to (?pre @ nul_lines ls @ tail) iv (sdp_value ''a=aesiv:'' ls) (fst (snd ?ps)) \<and>
    points_to (?pre @ nul_lines ls @ tail) key (sdp_value ''a=rsaaeskey:'' ls) (snd (snd ?ps))"
    by (rule Cons.IH [OF _ f]) (use Cons.prems(1) in simp)
  have b: "?pre @ nul_lines ls @ tail = pre @ nul_lines (l # ls) @ tail" by simp
  show ?case
    using i unfolding b announce_line_def fst_conv snd_conv
    by (intro conjI; elim conjE) (erule key; simp)+
qed

lemma content_lines:
  assumes "\<And>pre l post acc. plain l \<Longrightarrow> step (pre @ l @ NUL # post) (length pre) acc = Inr (g l (length pre) acc)"
    and "\<forall>l \<in> set ls. plain l" "content req = Some (text_of_lines ls @ tail)"
    and "contentlength req = int (length (text_of_lines ls))"
  shows "for_lines step (content_of req) 0 (contentlength req) acc =
    Inr (nul_lines ls @ tail, fold_lines g ls 0 acc)"
  using for_lines_text [where step = step and g = g and pre = "[]", OF assms(1,2)] assms(3,4)
  by (simp add: content_of_def)

lemma announced_values:
  assumes "\<forall>l \<in> set ls. plain l" "content req = Some (text_of_lines ls @ tail)"
    and "contentlength req = int (length (text_of_lines ls))"
  obtains buf f iv key where
    "for_lines announce_step (content_of req) 0 (contentlength req) (None, None, None) = Inr (buf, f, iv, key)"
    "points_to buf f (sdp_value ''a=fmtp:'' ls) None" "points_to buf iv (sdp_value ''a=aesiv:'' ls) None"
    "points_to buf key (sdp_value ''a=rsaaeskey:'' ls) None"
proof -
  obtain f iv key where fl: "fold_lines announce_line ls (length ([] :: string)) (None, None, None) = (f, iv, key)"
    by (metis prod_cases3)
  show ?thesis
    using content_lines [where step = announce_step and g = announce_line, OF announce_step_line assms] fold_announce [OF assms(1) fl, of tail] fl that
    by fastforce
qed

section \<open>Properties\<close>



text \<open>
  The volumes that a parameter request sets are those of its lines that start with the word
  volume, in order; other lines change nothing, and the request is answered with 200.
\<close>

theorem parameters_set_volumes:
  assumes "\<forall>l \<in> set ls. plain l" "content req = Some (text_of_lines ls @ tail)"
    and "contentlength req = int (length (text_of_lines ls))"
    and "msg_get_header req ''Content-Type'' = Some ''text/parameters''"
  shows "\<exists>res. handle_set_parameter env req resp st = Some (Inr (res, resp\<lparr>respcode := 200\<rparr>)) \<and>
    pr_volumes res = concat (map line_volume ls) \<and> pr_meta res = st"
proof -
  have "handle_set_parameter_parameter req = Inr (concat (map line_volume ls))"
    using content_lines [where step = param_step and g = "\<lambda>l cp vols. vols @ line_volume l" and acc = "[]",
        OF param_step_line assms(1-3)]
    by (simp add: handle_set_parameter_parameter_def fold_line_volume)
  then show ?thesis by (simp add: handle_set_parameter_def assms(4) strncmp_eq_def Let_def)
qed

theorem parameters_set_volumes_witness:
  "\<exists>res env. handle_set_parameter env
      (msg_init\<lparr>headers := [(''Content-Type'', ''text/parameters'')], contentlength := 14,
         content := Some (text_of_lines [''volume: -144''] @ ''z'')\<rparr>) msg_init meta_initial =
      Some (Inr (res, msg_init\<lparr>respcode := 200\<rparr>)) \<and>
    pr_volumes res = [atof ''-144'']"
proof -
  let ?req = "msg_init\<lparr>headers := [(''Content-Type'', ''text/parameters'')], contentlength := 14,
         content := Some (text_of_lines [''volume: -144''] @ ''z'')\<rparr>"
  have c: "\<forall>l \<in> set [''volume: -144'']. plain l"
    "content ?req = Some (text_of_lines [''volume: -144''] @ ''z'')"
    "contentlength ?req = int (length (text_of_lines [''volume: -144'']))"
    "msg_get_header ?req ''Content-Type'' = Some ''text/parameters''"
    by (simp_all add: msg_init_def msg_get_header_def)
  have l: "concat (map line_volume [''volume: -144'']) = [atof ''-144'']" by (simp add: line_volume_def)
  show ?thesis using parameters_set_volumes [OF c] unfolding l by blast
qed

end
