(* ===== verification/Rtsp_Auth.thy ===== *)
theory Rtsp_Auth
  imports Rtsp_Params "HOL-Library.Sublist"
begin

text \<open>
  The two proofs of identity of rtsp.c: the server's answer to an Apple-Challenge, and the digest
  authentication of the client. MD5, RSA and the base64 filter of OpenSSL are parameters. The
  digest code cuts the quoted values out of the header in place, so the header is a buffer that
  ends with NUL and pointers are indices of it.
\<close>

section \<open>The challenge\<close>

text \<open>
  \<open>local_addr\<close> is the answer of \<open>getsockname\<close>. A negative length (an undecodable challenge) is a
  copy of a huge number of bytes.
\<close>

definition challenge_buffer :: "sockaddr \<Rightarrow> bytes \<Rightarrow> bytes \<Rightarrow> bytes" where
  "challenge_buffer local_addr hw_addr chall =
     (let bp = chall @ take (if sa_inet6 local_addr then 16 else 4) (sa_addr local_addr) @ take 6 hw_addr;
          buf = bp @ replicate (48 - length bp) 0;
          buflen = length bp;
          buflen = (if buflen < 0x20 then 0x20 else buflen)
      in take buflen buf)"

definition apple_challenge ::
    "(string \<Rightarrow> nat \<Rightarrow> int \<times> bytes) \<Rightarrow> (bytes \<Rightarrow> string) \<Rightarrow> (bytes \<Rightarrow> bytes) \<Rightarrow> sockaddr \<Rightarrow> bytes \<Rightarrow>
       rtsp_message \<Rightarrow> rtsp_message \<Rightarrow> fault + rtsp_message" where
  "apple_challenge b64_read b64_write rsa_auth local_addr hw_addr req resp =
     (case msg_get_header req ''Apple-Challenge'' of
        None \<Rightarrow> Inr resp
      | Some hdr \<Rightarrow>
          let (chall_len, chall) = base64_dec b64_read hdr in
          if chall_len > 16 then Inr resp
          else if chall_len < 0 then Inl Out_of_bounds
          else
            let buf = challenge_buffer local_addr hw_addr (take (nat chall_len) chall);
                encoded = base64_enc b64_write (rsa_auth buf);
                encoded = takeWhile (\<lambda>c. c \<noteq> CHR ''='') encoded
            in Inr (fst (msg_add_header resp ''Apple-Response'' encoded)))"

section \<open>The nonce\<close>

definition make_nonce :: "(bytes \<Rightarrow> string) \<Rightarrow> bytes option \<Rightarrow> fault + string" where
  "make_nonce b64_write random =
     (case random of
        None \<Rightarrow> Inl (Die ''could not open /dev/random!'')
      | Some random \<Rightarrow> Inr (base64_enc b64_write (take 8 random)))"

section \<open>Quoted values\<close>

abbreviation QUOTE :: char where "QUOTE \<equiv> CHR 0x22"

text \<open>The index \<open>strchr\<close> and \<open>strstr\<close> find in the string that starts at an index.\<close>

definition strchr_at :: "string \<Rightarrow> nat \<Rightarrow> char \<Rightarrow> nat option" where
  "strchr_at buf i c =
     (case strchr (cstr (drop i buf)) c of
        None \<Rightarrow> None
      | Some t \<Rightarrow> Some (i + (length (cstr (drop i buf)) - length t)))"

definition strstr_at :: "string \<Rightarrow> string \<Rightarrow> nat option" where
  "strstr_at buf n =
     (case strstr (cstr buf) n of
        None \<Rightarrow> None
      | Some t \<Rightarrow> Some (length (cstr buf) - length t))"

text \<open>
  The pointer moves behind the first quote, which is looked for without a test, and the second is
  overwritten. \<open>None\<close> is the jump to \<open>authenticate\<close>.
\<close>

definition cut_quoted :: "string \<Rightarrow> nat \<Rightarrow> fault + (string \<times> nat) option" where
  "cut_quoted buf p =
     (case strchr_at buf p QUOTE of
        None \<Rightarrow> Inl Null_pointer
      | Some q \<Rightarrow>
          let p = q + 1 in
          case strchr_at buf p QUOTE of
            None \<Rightarrow> Inr None
          | Some quote \<Rightarrow> Inr (Some (buf[quote := NUL], p)))"

text \<open>The digest that the response must be.\<close>

definition digest_response :: "(string \<Rightarrow> bytes) \<Rightarrow> string \<Rightarrow> string \<Rightarrow> string \<Rightarrow> string \<Rightarrow> string \<Rightarrow> string \<Rightarrow> string" where
  "digest_response md5_of username realm password meth uri nonce =
     (let digest_urp = md5_of (username @ '':'' @ realm @ '':'' @ password);
          digest_mu = md5_of (meth @ '':'' @ uri);
          digest_total = md5_of (hex_text digest_urp @ '':'' @ nonce @ '':'' @ hex_text digest_mu)
      in hex_text digest_total)"

text \<open>The part of \<open>rtsp_auth\<close> that looks at the header: \<open>Some True\<close> accepts.\<close>

definition check_digest ::
    "(string \<Rightarrow> bytes) \<Rightarrow> string \<Rightarrow> string \<Rightarrow> string \<Rightarrow> string \<Rightarrow> fault + (bool \<times> string)" where
  "check_digest md5_of password meth nonce hdr =
     (let buf = hdr @ [NUL] in
      case (strstr_at buf (''realm='' @ [QUOTE]), strstr_at buf (''username='' @ [QUOTE]),
            strstr_at buf (''response='' @ [QUOTE]), strstr_at buf (''uri='' @ [QUOTE])) of
        (Some realm, Some username, Some response, Some uri) \<Rightarrow>
          (case cut_quoted buf realm of
             Inl e \<Rightarrow> Inl e
           | Inr None \<Rightarrow> Inr (False, cstr buf)
           | Inr (Some (buf, realm)) \<Rightarrow>
               case cut_quoted buf username of
                 Inl e \<Rightarrow> Inl e
               | Inr None \<Rightarrow> Inr (False, cstr buf)
               | Inr (Some (buf, username)) \<Rightarrow>
                   case cut_quoted buf response of
                     Inl e \<Rightarrow> Inl e
                   | Inr None \<Rightarrow> Inr (False, cstr buf)
                   | Inr (Some (buf, response)) \<Rightarrow>
                       case cut_quoted buf uri of
                         Inl e \<Rightarrow> Inl e
                       | Inr None \<Rightarrow> Inr (False, cstr buf)
                       | Inr (Some (buf, uri)) \<Rightarrow>
                           Inr (cstr (drop response buf) =
                                  digest_response md5_of (cstr (drop username buf)) (cstr (drop realm buf))
                                    password meth (cstr (drop uri buf)) nonce,
                                cstr buf))
      | _ \<Rightarrow> Inr (False, hdr))"

section \<open>Authentication\<close>

fun change_header :: "(string \<times> string) list \<Rightarrow> string \<Rightarrow> string \<Rightarrow> (string \<times> string) list" where
  "change_header [] name value = []"
| "change_header ((n, v) # hs) name value =
     (if strcasecmp_eq n name then (n, value) # hs else (n, v) # change_header hs name value)"

definition authenticate :: "string \<Rightarrow> rtsp_message \<Rightarrow> rtsp_message" where
  "authenticate nonce resp =
     (let resp = resp\<lparr>respcode := 401\<rparr>;
          hdrlen = length nonce + 40;
          authhdr = take (hdrlen - 1)
            (''Digest realm='' @ [QUOTE] @ ''taco'' @ [QUOTE] @ '', nonce='' @ [QUOTE] @ nonce @ [QUOTE])
      in fst (msg_add_header resp ''WWW-Authenticate'' authhdr))"

text \<open>
  The result is the value returned, the nonce of the connection, the request, whose header may
  have been cut, and the response.
\<close>

definition rtsp_auth ::
    "(string \<Rightarrow> bytes) \<Rightarrow> (bytes \<Rightarrow> string) \<Rightarrow> string option \<Rightarrow> bytes option \<Rightarrow> string option \<Rightarrow>
       rtsp_message \<Rightarrow> rtsp_message \<Rightarrow> fault + (int \<times> string option \<times> rtsp_message \<times> rtsp_message)" where
  "rtsp_auth md5_of b64_write password random nonce req resp =
     (case password of
        None \<Rightarrow> Inr (0, nonce, req, resp)
      | Some password \<Rightarrow>
          case nonce of
            None \<Rightarrow>
              (case make_nonce b64_write random of
                 Inl e \<Rightarrow> Inl e
               | Inr nonce \<Rightarrow> Inr (1, Some nonce, req, authenticate nonce resp))
          | Some nonce \<Rightarrow>
              (case msg_get_header req ''Authorization'' of
                 None \<Rightarrow> Inr (1, Some nonce, req, authenticate nonce resp)
               | Some hdr \<Rightarrow>
                   if \<not> strncmp_eq hdr ''Digest '' 7 then Inr (1, Some nonce, req, authenticate nonce resp)
                   else
                     case check_digest md5_of password (msg_method req) nonce hdr of
                       Inl e \<Rightarrow> Inl e
                     | Inr (ok, hdr) \<Rightarrow>
                         let req = req\<lparr>headers := change_header (headers req) ''Authorization'' hdr\<rparr> in
                         if ok then Inr (0, Some nonce, req, resp)
                         else Inr (1, Some nonce, req, authenticate nonce resp)))"

section \<open>What is found in a header of quoted values\<close>

text \<open>
  A header is read as segments between quotes: names and values in turn. \<open>strstr\<close> for a name and
  a quote finds the first segment that ends with the name.
\<close>

lemma takeWhile_segment: "QUOTE \<notin> set s \<Longrightarrow> takeWhile (\<lambda>x. x \<noteq> QUOTE) (s @ QUOTE # t) = s"
  by (induction s) auto

lemma strstr_in_segment:
  assumes "QUOTE \<notin> set s" "QUOTE \<notin> set k" "k \<noteq> []"
  shows "strstr (s @ QUOTE # t) (k @ [QUOTE]) =
    (if suffix k s then Some (k @ QUOTE # t) else strstr t (k @ [QUOTE]))"
  using assms(1)
proof (induction s)
  case Nil
  have "take (length k + 1) (QUOTE # t) \<noteq> k @ [QUOTE]"
    using assms(2,3) by (cases k) auto
  then show ?case using assms(3) by (auto simp: suffix_def)
next
  case (Cons c s)
  have q: "QUOTE \<notin> set (c # s)" using Cons.prems by simp
  show ?case
  proof (cases "take (length k + 1) (c # s @ QUOTE # t) = k @ [QUOTE]")
    case True
    then obtain u where u: "c # s @ QUOTE # t = k @ QUOTE # u"
      by (metis append_take_drop_id append.assoc append_Cons append_Nil)
    have "takeWhile (\<lambda>x. x \<noteq> QUOTE) ((c # s) @ QUOTE # t) = c # s" by (rule takeWhile_segment [OF q])
    moreover have "takeWhile (\<lambda>x. x \<noteq> QUOTE) (k @ QUOTE # u) = k" by (rule takeWhile_segment [OF assms(2)])
    ultimately have "k = c # s" using u by (metis append_Cons)
    then show ?thesis by simp
  next
    case False
    have "k \<noteq> c # s"
      using False by auto
    then have "suffix k (c # s) = suffix k s" by (auto simp: suffix_Cons)
    then show ?thesis using False Cons by simp
  qed
qed


text \<open>The fields of a header, each with the character that closes its value.\<close>

definition enc :: "(string \<times> string \<times> char) list \<Rightarrow> string" where
  "enc gs = concat (map (\<lambda>(p, v, c). p @ QUOTE # v @ [c]) gs)"

definition header_text :: "(string \<times> string) list \<Rightarrow> string" where
  "header_text fs = enc (map (\<lambda>(p, v). (p, v, QUOTE)) fs)"

fun value_of :: "string \<Rightarrow> (string \<times> string) list \<Rightarrow> string option" where
  "value_of k [] = None"
| "value_of k ((p, v) # fs) = (if suffix k p then Some v else value_of k fs)"

definition clean :: "string \<Rightarrow> bool" where
  "clean s \<longleftrightarrow> QUOTE \<notin> set s \<and> NUL \<notin> set s"

lemma enc_simps [simp]:
  "enc [] = []" "enc ((p, v, c) # gs) = p @ QUOTE # v @ c # enc gs" "enc (gs @ gs') = enc gs @ enc gs'"
  by (simp_all add: enc_def)

lemma length_enc: "length (enc gs) = sum_list (map (\<lambda>(p, v, c). length p + length v + 2) gs)"
  by (induction gs) auto

lemma value_of_strstr:
  assumes "\<forall>(p, v) \<in> set fs. clean p \<and> clean v \<and> \<not> suffix k v" "value_of k fs = Some v"
    and "QUOTE \<notin> set k" "k \<noteq> []"
  shows "\<exists>i x. i < length fs \<and> fs ! i = (x @ k, v) \<and>
    strstr (header_text fs @ t) (k @ [QUOTE]) =
      Some (drop (length (header_text (take i fs)) + length x) (header_text fs @ t))"
  using assms(1,2)
proof (induction fs)
  case (Cons f fs)
  obtain p w where f: "f = (p, w)" by (cases f)
  have c: "QUOTE \<notin> set p" "QUOTE \<notin> set w" "\<not> suffix k w" using Cons.prems(1) by (auto simp: f clean_def)
  have h: "header_text (f # fs) = p @ QUOTE # w @ QUOTE # header_text fs" for fs
    by (simp add: f header_text_def)
  show ?case
  proof (cases "suffix k p")
    case True
    then obtain x where x: "p = x @ k" by (auto simp: suffix_def)
    have "strstr (header_text (f # fs) @ t) (k @ [QUOTE]) = Some (k @ QUOTE # w @ QUOTE # header_text fs @ t)"
      using strstr_in_segment [OF c(1) assms(3,4)] True by (simp add: h)
    moreover have "v = w" using Cons.prems(2) True by (simp add: f)
    ultimately show ?thesis
      by (intro exI [of _ 0] exI [of _ x]) (simp add: f x h header_text_def)
  next
    case False
    have "strstr (header_text (f # fs) @ t) (k @ [QUOTE]) = strstr (header_text fs @ t) (k @ [QUOTE])"
      using strstr_in_segment [OF c(1) assms(3,4)] strstr_in_segment [OF c(2) assms(3,4)] False c(3)
      by (simp add: h)
    moreover obtain i x where "i < length fs" "fs ! i = (x @ k, v)"
      "strstr (header_text fs @ t) (k @ [QUOTE]) =
       Some (drop (length (header_text (take i fs)) + length x) (header_text fs @ t))"
      using Cons False by (auto simp: f)
    ultimately show ?thesis
      by (intro exI [of _ "Suc i"] exI [of _ x]) (simp add: h)
  qed
qed simp


lemma cut_segment:
  assumes "clean (x @ k)" "clean v" "k \<noteq> []"
  shows "cut_quoted (enc a @ (x @ k) @ QUOTE # v @ QUOTE # t) (length (enc a) + length x) =
    Inr (Some (enc a @ (x @ k) @ QUOTE # v @ NUL # t, length (enc a) + length (x @ k) + 1))"
proof -
  have d: "drop (length (enc a) + length x) (enc a @ (x @ k) @ QUOTE # v @ QUOTE # t) = k @ QUOTE # v @ QUOTE # t"
    by simp
  have c: "cstr (s @ QUOTE # u) = s @ QUOTE # cstr u" if "NUL \<notin> set s" for s u
    using that by (induction s) (auto simp: cstr_def)
  have k: "NUL \<notin> set k" "QUOTE \<notin> set k" "NUL \<notin> set v" "QUOTE \<notin> set v" using assms(1,2) by (auto simp: clean_def)
  let ?buf = "enc a @ (x @ k) @ QUOTE # v @ QUOTE # t" and ?p = "length (enc a) + length x"
  have q1: "strchr_at ?buf ?p QUOTE = Some (?p + length k)"
    unfolding strchr_at_def d using k by (simp add: c)
  have d2: "drop (?p + length k + 1) ?buf = v @ QUOTE # t" by simp
  have q2: "strchr_at ?buf (?p + length k + 1) QUOTE = Some (?p + length k + 1 + length v)"
    unfolding strchr_at_def d2 using k by (simp add: c)
  have u: "?buf[?p + length k + 1 + length v := NUL] = enc a @ (x @ k) @ QUOTE # v @ NUL # t"
    by (simp add: list_update_append)
  show ?thesis unfolding cut_quoted_def q1 by (simp only: option.case Let_def q2 u) simp
qed

text \<open>The same at the field with a given index; only the mark of that field changes.\<close>

definition field_pos :: "(string \<times> string) list \<Rightarrow> nat \<Rightarrow> nat" where
  "field_pos fs i = length (header_text (take i fs))"

definition marked :: "(string \<times> string) list \<Rightarrow> nat set \<Rightarrow> (string \<times> string \<times> char) list" where
  "marked fs N = map (\<lambda>j. (fst (fs ! j), snd (fs ! j), if j \<in> N then NUL else QUOTE)) [0..<length fs]"

lemma header_text_marked: "header_text fs = enc (marked fs {})"
  by (simp add: header_text_def marked_def enc_def split_beta comp_def
      map_nth [of fs, symmetric, THEN arg_cong [of _ _ "map f" for f]])


lemma length_enc_map:
  "length (enc (map (\<lambda>j. (p j, v j, c j)) js)) = length (enc (map (\<lambda>j. (p j, v j, d j)) js))"
  by (simp add: length_enc comp_def)

lemma marked_split:
  assumes "i < length fs" "fs ! i = (p, v)"
  shows "\<exists>a b. length (enc a) = field_pos fs i \<and>
    marked fs N = a @ (p, v, if i \<in> N then NUL else QUOTE) # b \<and>
    (i \<notin> N \<longrightarrow> marked fs (insert i N) = a @ (p, v, NUL) # b)"
proof -
  let ?f = "\<lambda>N j. (fst (fs ! j), snd (fs ! j), if j \<in> N then NUL else QUOTE)"
  have u: "[0..<length fs] = [0..<i] @ i # [Suc i..<length fs]"
    using assms(1) by (metis upt_conv_Cons upt_add_eq_append le_add_diff_inverse less_imp_le zero_le)
  have e: "map (?f (insert i N)) [0..<i] = map (?f N) [0..<i]"
    "map (?f (insert i N)) [Suc i..<length fs] = map (?f N) [Suc i..<length fs]" by simp_all
  have "map (?f {}) [0..<i] = marked (take i fs) {}"
    using assms(1) by (simp add: marked_def min_def)
  then have l: "length (enc (map (?f N) [0..<i])) = field_pos fs i"
    using length_enc_map [of "\<lambda>j. fst (fs ! j)" "\<lambda>j. snd (fs ! j)" "\<lambda>j. if j \<in> N then NUL else QUOTE"
        "[0..<i]" "\<lambda>j. if j \<in> {} then NUL else QUOTE"]
    by (simp only: field_pos_def header_text_marked)
  show ?thesis
    using l e assms(2) by (intro exI [of _ "map (?f N) [0..<i]"] exI [of _ "map (?f N) [Suc i..<length fs]"])
      (simp add: marked_def u)
qed

lemma cut_marked:
  assumes "i < length fs" "fs ! i = (x @ k, v)" "i \<notin> N" "clean (x @ k)" "clean v" "k \<noteq> []"
  shows "cut_quoted (enc (marked fs N) @ t) (field_pos fs i + length x) =
    Inr (Some (enc (marked fs (insert i N)) @ t, field_pos fs i + length (x @ k) + 1))"
proof -
  obtain a b where "length (enc a) = field_pos fs i" "marked fs N = a @ (x @ k, v, QUOTE) # b"
    "marked fs (insert i N) = a @ (x @ k, v, NUL) # b"
    using marked_split [OF assms(1,2), of N] assms(3) by auto
  with cut_segment [OF assms(4-6), of a "enc b @ t"] show ?thesis by simp
qed

lemma value_marked:
  assumes "i < length fs" "fs ! i = (x @ k, v)" "i \<in> N" "clean v"
  shows "cstr (drop (field_pos fs i + length (x @ k) + 1) (enc (marked fs N) @ t)) = v"
proof -
  obtain a b where a: "length (enc a) = field_pos fs i" "marked fs N = a @ (x @ k, v, NUL) # b"
    using marked_split [OF assms(1,2), of N] assms(3) by auto
  have "drop (field_pos fs i + length (x @ k) + 1) (enc (marked fs N) @ t) = v @ NUL # enc b @ t"
    by (simp add: a(2) a(1) [symmetric])
  then show ?thesis using assms(4) by (simp add: clean_def)
qed

lemma strstr_at_field:
  assumes "\<forall>(p, v) \<in> set fs. clean p \<and> clean v \<and> \<not> suffix k v" "value_of k fs = Some v"
    and "QUOTE \<notin> set k" "k \<noteq> []"
  obtains i x where "i < length fs" "fs ! i = (x @ k, v)"
    "strstr_at (header_text fs @ [NUL]) (k @ [QUOTE]) = Some (field_pos fs i + length x)"
proof -
  obtain i x where i: "i < length fs" "fs ! i = (x @ k, v)"
    "strstr (header_text fs @ []) (k @ [QUOTE]) =
       Some (drop (length (header_text (take i fs)) + length x) (header_text fs @ []))"
    using value_of_strstr [OF assms, of "[]"] by blast
  have nn: "NUL \<notin> set (header_text fs)"
    using assms(1) by (auto simp: header_text_def enc_def clean_def)
  obtain a b where a: "length (enc a) = field_pos fs i" "marked fs {} = a @ (x @ k, v, QUOTE) # b"
    using marked_split [OF i(1,2), of "{}"] by auto
  have "field_pos fs i + length x \<le> length (header_text fs)"
    by (simp add: header_text_marked a(2) a(1) [symmetric])
  then have "strstr_at (header_text fs @ [NUL]) (k @ [QUOTE]) = Some (field_pos fs i + length x)"
    using i(3) nn by (simp add: strstr_at_def field_pos_def)
  with i(1,2) show ?thesis by (rule that)
qed


lemma fields_differ:
  "fs ! i = (x @ k, v) \<Longrightarrow> fs ! j = (y @ l, w) \<Longrightarrow> \<not> suffix k l \<Longrightarrow> \<not> suffix l k \<Longrightarrow> i \<noteq> j"
  by (auto dest: suffix_same_cases [OF suffixI suffixI])

definition digest_keys :: "string list" where
  "digest_keys = [''realm='', ''username='', ''response='', ''uri='']"

definition header_fields_ok :: "(string \<times> string) list \<Rightarrow> bool" where
  "header_fields_ok fs \<longleftrightarrow>
     (\<forall>(p, v) \<in> set fs. clean p \<and> clean v \<and> (\<forall>k \<in> set digest_keys. \<not> suffix k v))"

lemma check_digest_fields:
  assumes ok: "header_fields_ok fs"
    and r: "value_of ''realm='' fs = Some realm" and u: "value_of ''username='' fs = Some username"
    and s: "value_of ''response='' fs = Some response" and l: "value_of ''uri='' fs = Some uri"
  shows "\<exists>cut. check_digest md5_of password meth nonce (header_text fs) =
    Inr (response = digest_response md5_of username realm password meth uri nonce, cut)"
proof -
  have f: "\<forall>(p, v) \<in> set fs. clean p \<and> clean v \<and> \<not> suffix k v" if "k \<in> set digest_keys" for k
    using ok that by (auto simp: header_fields_ok_def)
  have c: "clean p \<and> clean v" if "i < length fs" "fs ! i = (p, v)" for i p v
    using f [of "''uri=''"] nth_mem [OF that(1)] that(2) by (auto simp: digest_keys_def)
  note found = strstr_at_field [OF f]
  obtain i1 x1 where 1: "i1 < length fs" "fs ! i1 = (x1 @ ''realm='', realm)"
    "strstr_at (header_text fs @ [NUL]) (''realm='' @ [QUOTE]) = Some (field_pos fs i1 + length x1)"
    by (rule found [OF _ r]) (simp_all add: digest_keys_def)
  obtain i2 x2 where 2: "i2 < length fs" "fs ! i2 = (x2 @ ''username='', username)"
    "strstr_at (header_text fs @ [NUL]) (''username='' @ [QUOTE]) = Some (field_pos fs i2 + length x2)"
    by (rule found [OF _ u]) (simp_all add: digest_keys_def)
  obtain i3 x3 where 3: "i3 < length fs" "fs ! i3 = (x3 @ ''response='', response)"
    "strstr_at (header_text fs @ [NUL]) (''response='' @ [QUOTE]) = Some (field_pos fs i3 + length x3)"
    by (rule found [OF _ s]) (simp_all add: digest_keys_def)
  obtain i4 x4 where 4: "i4 < length fs" "fs ! i4 = (x4 @ ''uri='', uri)"
    "strstr_at (header_text fs @ [NUL]) (''uri='' @ [QUOTE]) = Some (field_pos fs i4 + length x4)"
    by (rule found [OF _ l]) (simp_all add: digest_keys_def)
  have ne: "i2 \<noteq> i1" "i3 \<noteq> i1" "i3 \<noteq> i2" "i4 \<noteq> i1" "i4 \<noteq> i2" "i4 \<noteq> i3"
    by (rule fields_differ [OF 2(2) 1(2)] fields_differ [OF 3(2) 1(2)] fields_differ [OF 3(2) 2(2)]
          fields_differ [OF 4(2) 1(2)] fields_differ [OF 4(2) 2(2)] fields_differ [OF 4(2) 3(2)];
        simp add: suffix_Cons)+
  note c1 = c [OF 1(1,2)] and c2 = c [OF 2(1,2)] and c3 = c [OF 3(1,2)] and c4 = c [OF 4(1,2)]
  note cut1 = cut_marked [OF 1(1,2) _ conjunct1 [OF c1] conjunct2 [OF c1], of "{}" "[NUL]", simplified]
  note cut2 = cut_marked [OF 2(1,2) _ conjunct1 [OF c2] conjunct2 [OF c2], of "{i1}" "[NUL]", simplified]
  note cut3 = cut_marked [OF 3(1,2) _ conjunct1 [OF c3] conjunct2 [OF c3], of "{i2, i1}" "[NUL]", simplified]
  note cut4 = cut_marked [OF 4(1,2) _ conjunct1 [OF c4] conjunct2 [OF c4], of "{i3, i2, i1}" "[NUL]", simplified]
  let ?N = "{i4, i3, i2, i1}"
  have v: "cstr (drop (field_pos fs i1 + length (x1 @ ''realm='') + 1) (enc (marked fs ?N) @ [NUL])) = realm"
    "cstr (drop (field_pos fs i2 + length (x2 @ ''username='') + 1) (enc (marked fs ?N) @ [NUL])) = username"
    "cstr (drop (field_pos fs i3 + length (x3 @ ''response='') + 1) (enc (marked fs ?N) @ [NUL])) = response"
    "cstr (drop (field_pos fs i4 + length (x4 @ ''uri='') + 1) (enc (marked fs ?N) @ [NUL])) = uri"
    by (rule value_marked [OF 1(1,2)], simp, rule conjunct2 [OF c1],
        rule value_marked [OF 2(1,2)], simp, rule conjunct2 [OF c2],
        rule value_marked [OF 3(1,2)], simp, rule conjunct2 [OF c3],
        rule value_marked [OF 4(1,2)], simp, rule conjunct2 [OF c4])
  show ?thesis
    unfolding check_digest_def Let_def 1(3) 2(3) 3(3) 4(3)
    using ne cut1 cut2 cut3 cut4 v by (simp add: header_text_marked)
qed


section \<open>The digest of the documented scheme\<close>

text \<open>
  Reference, after RFC 2617 without a quality of protection: the digest of user, realm and password,
  that of method and address, and the digest of the first, the nonce and the second, each written
  as lower case hexadecimal digits.
\<close>

definition ref_hex :: "bytes \<Rightarrow> string" where
  "ref_hex bs = concat (map (\<lambda>b. [''0123456789abcdef'' ! (unat b div 16), ''0123456789abcdef'' ! (unat b mod 16)]) bs)"

definition ref_digest :: "(string \<Rightarrow> bytes) \<Rightarrow> string \<Rightarrow> string \<Rightarrow> string \<Rightarrow> string \<Rightarrow> string \<Rightarrow> string \<Rightarrow> string" where
  "ref_digest md5_of user realm password meth uri nonce =
     ref_hex (md5_of (ref_hex (md5_of (user @ '':'' @ realm @ '':'' @ password)) @ '':'' @ nonce @ '':'' @
       ref_hex (md5_of (meth @ '':'' @ uri))))"

text \<open>The answer of a server that asks for the digest, which has room for sixteen headers.\<close>

definition ref_refusal :: "string \<Rightarrow> rtsp_message \<Rightarrow> rtsp_message" where
  "ref_refusal nonce resp = resp\<lparr>respcode := 401, headers := headers resp @
     (if length (headers resp) < 16
      then [(''WWW-Authenticate'', ''Digest realm='' @ [CHR 0x22] @ ''taco'' @ [CHR 0x22] @ '', nonce='' @
        [CHR 0x22] @ nonce @ [CHR 0x22])]
      else [])\<rparr>"

lemma hex_text_ref: "hex_text = ref_hex"
  by (rule ext) (simp add: hex_text_def ref_hex_def hex_digit_def)

lemma digest_response_ref: "digest_response = ref_digest"
  by (intro ext) (simp add: digest_response_def ref_digest_def hex_text_ref)

lemma authenticate_ref: "authenticate = ref_refusal"
  by (intro ext) (simp add: authenticate_def ref_refusal_def msg_add_header_def)

section \<open>The properties\<close>

text \<open>
  C11: with a password set, the first request of a connection is refused with 401 and a nonce; after
  that a request whose Authorization header is a digest of quoted fields, in any order, is let
  through exactly when its response is the digest of the user and the realm it names, the server's
  password, the method, the address it names and the nonce of the connection, as RFC 2617 computes it,
  and is refused with 401 and the nonce otherwise.
\<close>

theorem digest_is_checked:
  assumes "header_fields_ok fs" "strncmp_eq (header_text fs) ''Digest '' 7"
    and "value_of ''realm='' fs = Some realm" "value_of ''username='' fs = Some username"
    and "value_of ''response='' fs = Some response" "value_of ''uri='' fs = Some uri"
    and "msg_get_header req ''Authorization'' = Some (header_text fs)"
  shows "\<exists>req'. rtsp_auth md5_of b64_write (Some password) random (Some nonce) req resp =
      Inr (if response = ref_digest md5_of username realm password (msg_method req) uri nonce
           then (0, Some nonce, req', resp) else (1, Some nonce, req', ref_refusal nonce resp)) \<and>
    rtsp_auth md5_of b64_write (Some password) (Some bs) None req resp =
      Inr (1, Some (base64_enc b64_write (take 8 bs)), req, ref_refusal (base64_enc b64_write (take 8 bs)) resp)"
proof -
  obtain cut where "check_digest md5_of password (msg_method req) nonce (header_text fs) =
      Inr (response = digest_response md5_of username realm password (msg_method req) uri nonce, cut)"
    using check_digest_fields [OF assms(1,3-6)] by blast
  then show ?thesis using assms(2,7)
    by (simp add: rtsp_auth_def make_nonce_def digest_response_ref authenticate_ref Let_def)
qed

theorem digest_is_checked_witness:
  "\<exists>req'. rtsp_auth (\<lambda>s. of_nat (length s) # replicate 15 0x2a) b64_text (Some ''p'') None (Some ''N'')
      (msg_init\<lparr>msg_method := ''OPTIONS'',
         headers := [(''Authorization'', header_text
           [(''Digest username='', ''a''), ('', realm='', ''r''), ('', uri='', ''*''),
            ('', response='', ''432a2a2a2a2a2a2a2a2a2a2a2a2a2a2a'')])]\<rparr>)
      msg_init = Inr (0, Some ''N'', req', msg_init)"
proof -
  let ?fs = "[(''Digest username='', ''a''), ('', realm='', ''r''), ('', uri='', ''*''),
    ('', response='', ''432a2a2a2a2a2a2a2a2a2a2a2a2a2a2a'')]"
  let ?md5 = "\<lambda>s. of_nat (length s) # replicate 15 0x2a"
  have ok: "header_fields_ok ?fs" "strncmp_eq (header_text ?fs) ''Digest '' 7" by code_simp+
  have v: "value_of ''realm='' ?fs = Some ''r''" "value_of ''username='' ?fs = Some ''a''"
    "value_of ''response='' ?fs = Some ''432a2a2a2a2a2a2a2a2a2a2a2a2a2a2a''" "value_of ''uri='' ?fs = Some ''*''" by code_simp+
  have d: "ref_digest ?md5 ''a'' ''r'' ''p'' ''OPTIONS'' ''*'' ''N'' = ''432a2a2a2a2a2a2a2a2a2a2a2a2a2a2a''" by code_simp
  show ?thesis
    using digest_is_checked [OF ok v, of "msg_init\<lparr>msg_method := ''OPTIONS'',
        headers := [(''Authorization'', header_text ?fs)]\<rparr>" ?md5 b64_text "''p''" None "''N''"
        msg_init "[]"] d
    by (simp add: msg_get_header_def)
qed

text \<open>
  C37: a challenge of at most 16 bytes is answered with the RSA of the challenge, the address and the
  hardware address of the server, with zeros behind them up to 32 bytes when they are shorter and
  none otherwise, in base64 without padding; a longer one is not answered; the buffer of 48 bytes
  is never left.
\<close>

theorem challenge_is_answered:
  assumes "b64_filter b64_write b64_read" "msg_get_header req ''Apple-Challenge'' = Some (unpad (b64_write chall))"
    and "length (sa_addr local_addr) = (if sa_inet6 local_addr then 16 else 4)" "length hw_addr = 6"
    and "\<forall>buf. length (rsa_auth buf) = 256" "length (headers resp) < 16"
  shows "if length chall \<le> 16
    then \<exists>msg text.
      apple_challenge b64_read b64_write rsa_auth local_addr hw_addr req resp =
        Inr (resp\<lparr>headers := headers resp @ [(''Apple-Response'', text)]\<rparr>) \<and>
      base64_dec b64_read text = (256, rsa_auth msg) \<and>
      msg = chall @ sa_addr local_addr @ hw_addr @
        replicate (32 - (length chall + (if sa_inet6 local_addr then 16 else 4) + 6)) 0
    else apple_challenge b64_read b64_write rsa_auth local_addr hw_addr req resp = Inr resp"
proof -
  have d: "base64_dec b64_read (unpad (b64_write chall)) = (int (length chall), chall)"
    using base64_dec_unpadded [OF assms(1), of chall] assms(1) by (simp add: b64_filter_def)
  show ?thesis
  proof (cases "length chall \<le> 16")
    case True
    let ?bp = "chall @ sa_addr local_addr @ hw_addr"
    have m: "challenge_buffer local_addr hw_addr chall = ?bp @ replicate (32 - length ?bp) 0"
      using assms(3,4) True by (auto simp: challenge_buffer_def Let_def)
    have e: "base64_dec b64_read (unpad (base64_enc b64_write (rsa_auth msg))) = (256, rsa_auth msg)" for msg
      using base64_enc_unpadded [OF assms(1), of "rsa_auth msg"] assms(5) by simp
    show ?thesis
      using True d assms(2,3,4,6) m e
      by (auto simp: apple_challenge_def msg_add_header_def unpad_def Let_def
          intro!: exI [of _ "?bp @ replicate (32 - length ?bp) 0"])
  qed (use d assms(2) in \<open>simp add: apple_challenge_def\<close>)
qed

theorem challenge_is_answered_witness:
  "\<exists>text. apple_challenge b64_filter_read b64_text (\<lambda>buf. take 256 (buf @ replicate 256 7))
      \<lparr>sa_inet6 = False, sa_port = 0, sa_addr = [10, 0, 0, 1]\<rparr> [1, 2, 3, 4, 5, 6]
      (msg_init\<lparr>headers := [(''Apple-Challenge'', ''AQI'')]\<rparr>) msg_init =
    Inr (msg_init\<lparr>headers := [(''Apple-Response'', text)]\<rparr>)"
proof -
  have "b64_text [1, 2] = ''AQI=''" by code_simp
  then have c: "msg_get_header (msg_init\<lparr>headers := [(''Apple-Challenge'', ''AQI'')]\<rparr>) ''Apple-Challenge'' =
      Some (unpad (b64_text [1, 2]))"
    by (simp add: msg_get_header_def unpad_def)
  have l: "\<forall>buf :: bytes. length (take 256 (buf @ replicate 256 7)) = 256" by (simp add: min_def)
  show ?thesis
    using challenge_is_answered [OF b64_reference_filter c _ _ l, of
        "\<lparr>sa_inet6 = False, sa_port = 0, sa_addr = [10, 0, 0, 1]\<rparr>" "[1, 2, 3, 4, 5, 6]" msg_init]
    by (simp add: msg_init_def del: take_append) blast
qed

end
