(* ===== verification/Rtp_Receiver.thy ===== *)
theory Rtp_Receiver
  imports Player_Control
begin

text \<open>
  The receiver thread of rtp.c, \<open>rtp_receiver\<close>: it reads datagrams into one buffer, tells audio
  packets and resent packets from the rest, and hands number and payload to the player. What
  \<open>recv\<close> returns, and the value the flag \<open>please_shutdown\<close> has at each turn, are the input. The
  lemmas show which bytes of a datagram reach the player, and that the packets the receiver asks
  for complete the queue when they come.
\<close>

section \<open>One datagram\<close>

datatype rtp_action =
    Rtp_put u16 bytes
  | Rtp_ignore
  | Rtp_unknown u8 nat

text \<open>\<open>recv\<close> overwrites the start of the buffer and cuts what does not fit.\<close>

definition recv_into :: "bytes \<Rightarrow> bytes \<Rightarrow> bytes \<times> nat" where
  "recv_into packet dgram =
     (let nread = min (length dgram) (length packet)
      in (take nread dgram @ drop nread packet, nread))"

definition rtp_packet_action :: "bytes \<Rightarrow> nat \<Rightarrow> rtp_action" where
  "rtp_packet_action packet nread =
     (let plen = int nread;
          type = packet ! 1 AND NOT 0x80
      in
        if type = 0x54 then Rtp_ignore
        else if type = 0x60 \<or> type = 0x56 then
          let (pktp, plen) = (if type = 0x56 then (4, plen - 4) else (0, plen));
              seqno = ntohs (load16 (packet ! (pktp + 2)) (packet ! (pktp + 3)));
              pktp = pktp + 12;
              plen = plen - 12
          in
            if plen \<ge> 16 then Rtp_put seqno (take (nat plen) (drop pktp packet))
            else if type = 0x56 \<and> seqno = 0 then Rtp_ignore
            else Rtp_ignore
        else Rtp_unknown type nread)"

section \<open>The loop\<close>

text \<open>
  Each turn sees the flag and the result of \<open>recv\<close>, \<open>None\<close> for an error. The last component of
  the result says whether the thread has closed the socket and returned; otherwise it waits for
  more.
\<close>

fun rtp_receiver ::
  "'d decode_fun \<Rightarrow> int \<Rightarrow> rtp_state \<Rightarrow> (bool \<times> bytes option) list \<Rightarrow> bytes \<Rightarrow> 'd player \<Rightarrow>
     fault + ('d player \<times> datagram list \<times> bool)" where
  "rtp_receiver dec bsf rtp [] packet p = Inr (p, [], False)"
| "rtp_receiver dec bsf rtp ((please_shutdown, got) # turns) packet p =
     (if please_shutdown then Inr (p, [], True)
      else
        case got of
          None \<Rightarrow> Inr (p, [], True)
        | Some dgram \<Rightarrow>
            let (packet, nread) = recv_into packet dgram in
            case rtp_packet_action packet nread of
              Rtp_put seqno payload \<Rightarrow>
                (case player_put_packet dec bsf rtp seqno payload p of
                   Inl e \<Rightarrow> Inl e
                 | Inr (p, sent) \<Rightarrow>
                     (case rtp_receiver dec bsf rtp turns packet p of
                        Inl e \<Rightarrow> Inl e
                      | Inr (p, sents, ended) \<Rightarrow> Inr (p, sent @ sents, ended)))
            | Rtp_ignore \<Rightarrow> rtp_receiver dec bsf rtp turns packet p
            | Rtp_unknown type len \<Rightarrow> rtp_receiver dec bsf rtp turns packet p)"

declare rtp_receiver.simps(2) [simp del]

section \<open>The packets of the protocol\<close>

text \<open>
  Reference: an RTP packet of audio, and the packet a client sends in answer to a request, which
  wraps the RTP packet behind four bytes of its own.
\<close>

definition audio_datagram :: "bytes \<Rightarrow> u16 \<Rightarrow> bytes \<Rightarrow> bytes" where
  "audio_datagram hdr seqno payload = [0x80, 0x60] @ be16_bytes seqno @ hdr @ payload"

definition resend_datagram :: "bytes \<Rightarrow> u16 \<Rightarrow> bytes \<Rightarrow> bytes" where
  "resend_datagram hdr seqno payload = [0x80, 0xd6, 0, 1] @ audio_datagram hdr seqno payload"

definition payload_ok :: "bytes \<Rightarrow> bool" where
  "payload_ok payload \<longleftrightarrow> 16 \<le> length payload \<and> length payload \<le> 2032"

lemma length_recv_into: "recv_into packet dgram = (packet', n) \<Longrightarrow> length packet' = length packet"
  by (auto simp: recv_into_def Let_def)

lemma recv_into_fits:
  "length dgram \<le> length packet \<Longrightarrow>
   recv_into packet dgram = (dgram @ drop (length dgram) packet, length dgram)"
  by (simp add: recv_into_def Let_def)

lemma audio_type: "(0x60 :: u8) AND NOT 0x80 = 0x60" "(0xd6 :: u8) AND NOT 0x80 = 0x56"
  by code_simp+

lemma audio_action:
  assumes "length hdr = 8" "payload_ok payload"
  shows "rtp_packet_action (audio_datagram hdr seqno payload @ rest)
      (length (audio_datagram hdr seqno payload)) = Rtp_put seqno payload"
  using assms
  by (simp add: rtp_packet_action_def audio_datagram_def payload_ok_def audio_type be16_bytes_def
      ntohs_load16 Let_def)

lemma resend_action:
  assumes "length hdr = 8" "payload_ok payload"
  shows "rtp_packet_action (resend_datagram hdr seqno payload @ rest)
      (length (resend_datagram hdr seqno payload)) = Rtp_put seqno payload"
  using assms
  by (simp add: rtp_packet_action_def resend_datagram_def audio_datagram_def payload_ok_def
      audio_type be16_bytes_def ntohs_load16 Let_def)

section \<open>Turns of the receiver\<close>

lemma receiver_put:
  assumes "length packet = 2048" "length hdr = 8" "payload_ok payload"
    and "dgram = audio_datagram hdr seqno payload \<or> dgram = resend_datagram hdr seqno payload"
  obtains packet' where "length packet' = 2048"
    "rtp_receiver dec bsf rtp ((False, Some dgram) # turns) packet p =
      (case player_put_packet dec bsf rtp seqno payload p of
         Inl e \<Rightarrow> Inl e
       | Inr (p, sent) \<Rightarrow>
           (case rtp_receiver dec bsf rtp turns packet' p of
              Inl e \<Rightarrow> Inl e
            | Inr (p, sents, ended) \<Rightarrow> Inr (p, sent @ sents, ended)))"
proof -
  have "length dgram \<le> length packet"
    using assms by (auto simp: audio_datagram_def resend_datagram_def payload_ok_def)
  from recv_into_fits [OF this]
  have r: "recv_into packet dgram = (dgram @ drop (length dgram) packet, length dgram)" .
  moreover have "rtp_packet_action (dgram @ drop (length dgram) packet) (length dgram) = Rtp_put seqno payload"
    using assms(4) audio_action [OF assms(2,3)] resend_action [OF assms(2,3)] by auto
  ultimately show ?thesis
    using length_recv_into [OF r] assms(1)
    by (intro that [of "dgram @ drop (length dgram) packet"]) (simp_all add: rtp_receiver.simps)
qed

text \<open>
  Packets the decoder takes: in every state with \<open>good\<close> it fills the slot's array, what is heard of it is
  \<open>frame\<close>, and the state is good again.
\<close>

definition accepts :: "('d \<Rightarrow> bool) \<Rightarrow> 'd decode_fun \<Rightarrow> int \<Rightarrow> bytes \<times> u16 list \<Rightarrow> bool" where
  "accepts good dec n pf \<longleftrightarrow> payload_ok (fst pf) \<and>
     (\<forall>d dest. good d \<longrightarrow> length dest = outframe_shorts n \<longrightarrow>
       (\<exists>d' out. dec d (fst pf) dest = Inr (d', out) \<and> good d' \<and> length out = outframe_shorts n \<and>
          take (frame_shorts n) out = snd pf))"

lemma accepts_decodes:
  assumes "accepts good dec (frame_size p) (pkt, frame)" "queue_inv p" "good (decoder p)"
  obtains d out where "decodes dec pkt seqno p d out" "good d"
    "take (frame_shorts (frame_size p)) out = frame"
proof -
  have "slot p (unat (seqno - ab_read p)) = audio_buffer p ! BUFIDX seqno"
    by (simp add: slot_def)
  moreover have "buffer_wf p" using assms(2) by (simp add: queue_inv_def)
  ultimately have "length (data (audio_buffer p ! BUFIDX seqno)) = outframe_shorts (frame_size p)"
    using slot_in_range [of p "unat (seqno - ab_read p)"] by (simp add: buffer_wf_def)
  with assms(1,3) that show ?thesis unfolding accepts_def decodes_def by fastforce
qed

text \<open>The packets of a client that answers a request, from the first number on.\<close>

fun resends :: "bytes \<Rightarrow> u16 \<Rightarrow> bytes list \<Rightarrow> (bool \<times> bytes option) list" where
  "resends hdr seqno [] = []"
| "resends hdr seqno (pkt # pkts) =
     (False, Some (resend_datagram hdr seqno pkt)) # resends hdr (seqno + 1) pkts"

lemma resends_fill:
  assumes "queue_inv p" "length packet = 2048" "length hdr = 8" "good (decoder p)"
    and "\<forall>pf \<in> set pfs. accepts good dec (frame_size p) pf"
    and "xs \<noteq> []" "pending p = xs @ replicate (length pfs) None @ ys"
    and "seqno = ab_read p + of_nat (length xs)"
  shows "\<exists>q. rtp_receiver dec bsf rtp (resends hdr seqno (map fst pfs)) packet p = Inr (q, [], False) \<and>
    queue_inv q \<and> good (decoder q) \<and> pending q = xs @ map (Some \<circ> snd) pfs @ ys"
  using assms
proof (induction pfs arbitrary: p packet seqno xs)
  case (Cons pf pfs)
  obtain pkt frame where pf: "pf = (pkt, frame)" by (cases pf)
  let ?n = "frame_size p"
  have acc: "accepts good dec ?n (pkt, frame)" using Cons.prems(5) by (simp add: pf)
  obtain d out where d: "decodes dec pkt seqno p d out" "good d" "take (frame_shorts ?n) out = frame"
    by (rule accepts_decodes [OF acc Cons.prems(1,4)])
  have i: "0 < length xs" "length xs \<le> fill p"
    using Cons.prems(6) arg_cong [OF Cons.prems(7), of length] by simp_all
  obtain q where q: "player_put_packet dec bsf rtp seqno pkt p = Inr (put_start bsf (int (fill q)) q, [])"
    "queue_inv q" "frame_size q = ?n" "decoder q = d" "ab_read q = ab_read p"
    "pending q = (pending p)[length xs := Some frame]"
    using put_late_refines [OF Cons.prems(1) i Cons.prems(8) d(1)] d(3) by metis
  have "pending q = (xs @ [Some frame]) @ replicate (length pfs) None @ ys"
    unfolding q(6) Cons.prems(7) by (simp add: list_update_append)
  moreover have ok: "payload_ok pkt" using acc by (simp add: accepts_def)
  obtain packet' where l: "length packet' = 2048" and
    "rtp_receiver dec bsf rtp
        ((False, Some (resend_datagram hdr seqno pkt)) # resends hdr (seqno + 1) (map fst pfs)) packet p =
      (case player_put_packet dec bsf rtp seqno pkt p of
         Inl e \<Rightarrow> Inl e
       | Inr (p, sent) \<Rightarrow>
           (case rtp_receiver dec bsf rtp (resends hdr (seqno + 1) (map fst pfs)) packet' p of
              Inl e \<Rightarrow> Inl e
            | Inr (p, sents, ended) \<Rightarrow> Inr (p, sent @ sents, ended)))"
    by (rule receiver_put [OF Cons.prems(2,3) ok disjI2 [OF refl]]) (rule that)
  then have "rtp_receiver dec bsf rtp (resends hdr seqno (map fst (pf # pfs))) packet p =
      (case rtp_receiver dec bsf rtp (resends hdr (seqno + 1) (map fst pfs)) packet' (put_start bsf (int (fill q)) q) of
         Inl e \<Rightarrow> Inl e
       | Inr (p, sents, ended) \<Rightarrow> Inr (p, sents, ended))"
    by (simp add: pf q(1) split: sum.split)
  moreover have "good (decoder (put_start bsf (int (fill q)) q))" using q(4) d(2) by simp
  ultimately show ?case
    using Cons.IH [of "put_start bsf (int (fill q)) q" packet' "xs @ [Some frame]" "seqno + 1"]
      q l Cons.prems(3,5,8) by (auto simp: pf algebra_simps)
qed simp

lemma lost_packets_fill:
  assumes "queue_inv p" "rtp_running rtp" "length packet = 2048" "length hdr = 8" "good (decoder p)"
    and "\<forall>pf \<in> set (lost @ [newest]). accepts good dec (frame_size p) pf"
    and "fill p + length lost + 2 \<le> BUFFER_FRAMES" "lost \<noteq> []"
  shows "\<exists>q req. rtp_receiver dec bsf rtp
      ((False, Some (audio_datagram hdr (ab_write p + of_nat (Suc (length lost))) (fst newest))) #
       resends hdr (ab_write p + 1) (map fst lost)) packet p = Inr (q, [(rtp_client rtp, req)], False) \<and>
    read_resend_request req = Some (ab_write p + 1, of_nat (length lost)) \<and>
    queue_inv q \<and> good (decoder q) \<and> pending q = pending p @ map (Some \<circ> snd) (lost @ [newest])"
proof -
  obtain pkt frame where pf: "newest = (pkt, frame)" by (cases newest)
  let ?n = "frame_size p" and ?k = "Suc (length lost)" and ?s = "ab_write p + of_nat (Suc (length lost))"
  have acc: "accepts good dec ?n (pkt, frame)" using assms(6) by (simp add: pf)
  then have ok: "payload_ok pkt" by (simp add: accepts_def)
  obtain d out where d: "decodes dec pkt ?s p d out" "good d" "take (frame_shorts ?n) out = frame"
    by (rule accepts_decodes [OF acc assms(1,5)])
  have k: "0 < ?k" "Suc (fill p) + ?k \<le> BUFFER_FRAMES" "1 < ?k" using assms(7,8) by auto
  obtain q sent where q: "player_put_packet dec bsf rtp ?s pkt p = Inr (put_start bsf (int (fill q)) q, sent)"
    "queue_inv q" "fill q = fill p + ?k" "ab_buffering q = ab_buffering p" "frame_size q = ?n"
    "decoder q = d" "ab_write q = ?s" "ab_read q = ab_read p"
    "pending q = pending p @ replicate (?k - 1) None @ [Some (take (frame_shorts ?n) out)]"
    "?k = 1 \<longrightarrow> sent = []"
    "1 < ?k \<longrightarrow> (\<exists>req. sent = [(rtp_client rtp, req)] \<and>
       read_resend_request req = Some (ab_write p + 1, of_nat (?k - 1)))"
    by (rule put_ahead_refines [OF assms(1,2) k(1,2) refl d(1), where bsf = bsf]) (rule that)
  with k(3) obtain req where req: "sent = [(rtp_client rtp, req)]"
    "read_resend_request req = Some (ab_write p + 1, of_nat (length lost))" by auto
  let ?q = "put_start bsf (int (fill q)) q"
  obtain packet' where l: "length packet' = 2048"
    and r: "rtp_receiver dec bsf rtp ((False, Some (audio_datagram hdr ?s pkt)) #
         resends hdr (ab_write p + 1) (map fst lost)) packet p =
      (case player_put_packet dec bsf rtp ?s pkt p of
         Inl e \<Rightarrow> Inl e
       | Inr (p', sent) \<Rightarrow>
           (case rtp_receiver dec bsf rtp (resends hdr (ab_write p + 1) (map fst lost)) packet' p' of
              Inl e \<Rightarrow> Inl e
            | Inr (p, sents, ended) \<Rightarrow> Inr (p, sent @ sents, ended)))"
    by (rule receiver_put [OF assms(3,4) ok disjI1 [OF refl]]) (rule that)
  have num: "ab_write p + 1 = ab_read ?q + of_nat (length (pending p))"
    by (simp add: q(8) ab_write_fill [of p] algebra_simps)
  have lost: "\<forall>pf \<in> set lost. accepts good dec (frame_size ?q) pf" using assms(6) q(5) by simp
  have ne: "pending p \<noteq> []" by (simp add: pending_def)
  have pend: "pending ?q = pending p @ replicate (length lost) None @ [Some frame]"
    using q(9) d(3) by simp
  have "queue_inv ?q" "good (decoder ?q)" using q(2,6) d(2) by simp_all
  from resends_fill [OF this(1) l assms(4) this(2) lost ne pend num, of bsf rtp]
  obtain q' where
    "rtp_receiver dec bsf rtp (resends hdr (ab_write p + 1) (map fst lost)) packet' ?q = Inr (q', [], False)"
    "queue_inv q'" "good (decoder q')" "pending q' = pending p @ map (Some \<circ> snd) lost @ [Some frame]"
    by blast
  then show ?thesis using r q(1) req by (auto simp: pf)
qed

section \<open>Packets of lossless frames\<close>

text \<open>
  A payload that carries a frame of \<open>n\<close> stereo samples after decryption, compressed by the reference
  encoder for a decoder with the parameters \<open>rice\<close>, or not compressed.
\<close>

definition carries_frame ::
    "aes_fun \<Rightarrow> bytes \<Rightarrow> bytes \<Rightarrow> bytes \<Rightarrow> nat \<Rightarrow> u8 \<times> u8 \<times> u8 \<Rightarrow> bytes \<Rightarrow> (u16 \<times> u16) list \<Rightarrow> bool" where
  "carries_frame aes_cbc key iv stack n rice pkt lrs \<longleftrightarrow>
     payload_ok pkt \<and> length lrs = n \<and>
     (\<exists>nsize. size_ok n nsize n \<and>
       (frame_packet aes_cbc key iv stack pkt (encode_stereo_raw nsize lrs) \<or>
        (\<exists>a shift weight cp_a cp_b bits. decoder_ok a n rice \<and>
           encode_stereo a nsize shift weight cp_a cp_b lrs = Some bits \<and>
           frame_packet aes_cbc key iv stack pkt bits)))"

lemma carries_frame_accepts:
  assumes "carries_frame aes_cbc key iv stack n rice pkt lrs"
  shows "accepts (\<lambda>d. decoder_ok d n rice) (alac_decode aes_cbc key iv stack (int n)) (int n) (pkt, samples lrs)"
proof -
  obtain nsize where sz: "size_ok n nsize n" "length lrs = n" "payload_ok pkt" and
    f: "frame_packet aes_cbc key iv stack pkt (encode_stereo_raw nsize lrs) \<or>
        (\<exists>a shift weight cp_a cp_b bits. decoder_ok a n rice \<and>
           encode_stereo a nsize shift weight cp_a cp_b lrs = Some bits \<and>
           frame_packet aes_cbc key iv stack pkt bits)"
    using assms unfolding carries_frame_def by blast
  have n: "0 < n" using sz(1) by (simp add: size_ok_def)
  have dec: "\<exists>d'. alac_decode aes_cbc key iv stack (int n) d pkt dest = Inr (d', samples lrs @ drop (2 * n) dest) \<and>
      decoder_ok d' n rice" if d: "decoder_ok d n rice" "2 * n \<le> length dest" for d dest
    using f
  proof (elim disjE exE conjE)
    assume "frame_packet aes_cbc key iv stack pkt (encode_stereo_raw nsize lrs)"
    from alac_decode_stereo_raw [OF this, of d rice dest] show ?thesis using d sz by simp
  next
    fix a shift weight cp_a cp_b bits
    assume a: "decoder_ok a n rice" "encode_stereo a nsize shift weight cp_a cp_b lrs = Some bits"
      "frame_packet aes_cbc key iv stack pkt bits"
    have "encode_stereo d nsize shift weight cp_a cp_b lrs = Some bits"
      using a(2) unfolding encode_stereo_same [OF d(1) a(1)] .
    from alac_decode_stereo [OF this a(3), of rice dest] show ?thesis using d sz by simp
  qed
  show ?thesis unfolding accepts_def fst_conv snd_conv
  proof (intro conjI allI impI)
    fix d :: alac_file and dest :: "u16 list"
    assume d: "decoder_ok d n rice" "length dest = outframe_shorts (int n)"
    have room: "2 * n \<le> length dest" using outframe_room(1) [OF n] d(2) by simp
    show "\<exists>d' out. alac_decode aes_cbc key iv stack (int n) d pkt dest = Inr (d', out) \<and> decoder_ok d' n rice \<and>
        length out = outframe_shorts (int n) \<and> take (frame_shorts (int n)) out = samples lrs"
      using dec [OF d(1) room] d(2) room sz(2) by (auto simp: outframe_room(2))
  qed (rule sz(3))
qed

section \<open>Properties\<close>

text \<open>
  C40: whatever arrives and whatever the buffer held, what the receiver hands to the player is the
  datagram, cut to 2048 bytes, behind 16 bytes when its type is that of a resent packet and behind 12
  bytes when it is that of an audio packet, no other type; it has 16 to 2036 bytes, so that the limit
  \<open>MAX_PACKET\<close> that \<open>alac_decode\<close> asserts holds, and its number is in big endian in the two
  bytes that begin ten bytes before it.
\<close>

theorem receiver_payload_bounds:
  assumes "length packet = 2048" "recv_into packet dgram = (packet', nread)"
    and "rtp_packet_action packet' nread = Rtp_put seqno payload"
    and "type = dgram ! 1 AND NOT 0x80" "k = (if type = 0x56 then 16 else 12)"
  shows "(type = 0x56 \<or> type = 0x60) \<and> payload = drop k (take 2048 dgram) \<and>
    16 \<le> length payload \<and> length payload \<le> 2036 \<and>
    unat seqno = 256 * unat (dgram ! (k - 10)) + unat (dgram ! (k - 9))"
proof -
  let ?n = "min (length dgram) 2048"
  have p: "nread = ?n" "packet' = take ?n dgram @ drop ?n packet"
    using assms(1,2) by (auto simp: recv_into_def Let_def)
  have at: "packet' ! i = dgram ! i" if "i < ?n" for i
    using that by (simp add: p(2) nth_append)
  let ?type = "packet' ! 1 AND NOT 0x80"
  let ?k = "if ?type = 0x56 then 16 else 12 :: nat"
  have a: "?type = 0x56 \<or> ?type = 0x60" "16 \<le> int nread - int ?k"
    "payload = take (nat (int nread - int ?k)) (drop ?k packet')"
    "seqno = ntohs (load16 (packet' ! (?k - 10)) (packet' ! (?k - 9)))"
    using assms(3) by (auto simp: rtp_packet_action_def Let_def numeral_2_eq_2 split: if_splits)
  have kn: "?k + 16 \<le> ?n" using a(2) unfolding p(1) by linarith
  then have type: "?type = type" using at [of 1] assms(4) by simp
  note k = type assms(5) [symmetric]
  have b: "type = 0x56 \<or> type = 0x60" "k + 16 \<le> ?n"
    "payload = take (nat (int nread - int k)) (drop k packet')"
    "seqno = ntohs (load16 (packet' ! (k - 10)) (packet' ! (k - 9)))"
    using a kn unfolding k by blast+
  have "take (?n - k) (drop k packet') = drop k (take 2048 dgram)"
    using b(2) assms(1) unfolding p(2) by (simp add: drop_take min_def)
  moreover have "nat (int nread - int k) = ?n - k" using p(1) b(2) by simp
  ultimately have pay: "payload = drop k (take 2048 dgram)" unfolding b(3) by simp
  have "k \<le> 16" unfolding assms(5) by simp
  moreover have "packet' ! (k - 10) = dgram ! (k - 10)" "packet' ! (k - 9) = dgram ! (k - 9)"
    by (rule at, use b(2) in linarith)+
  moreover have "12 \<le> k" unfolding assms(5) by simp
  ultimately show ?thesis
    using b(1,2,4) pay by (auto simp: ntohs_load16 unat_be16)
qed

theorem receiver_payload_bounds_witness:
  "rtp_packet_action (fst (recv_into (replicate 2048 9) (audio_datagram (replicate 8 0) 0x1234 (replicate 20 7)))) 32 =
     Rtp_put 0x1234 (replicate 20 7) \<and>
   replicate 20 7 = drop 12 (take 2048 (audio_datagram (replicate 8 0) 0x1234 (replicate 20 7)))"
proof -
  let ?d = "audio_datagram (replicate 8 0) 0x1234 (replicate 20 7)" and ?p = "replicate 2048 9 :: bytes"
  have l: "length ?d \<le> length ?p" "length ?d = 32" by (simp_all add: audio_datagram_def)
  have a: "rtp_packet_action (?d @ drop (length ?d) ?p) (length ?d) = Rtp_put 0x1234 (replicate 20 7)"
    by (rule audio_action) (simp_all add: payload_ok_def)
  have "length ?p = 2048" by simp
  from receiver_payload_bounds [OF this recv_into_fits [OF l(1)] a refl refl]
  have "replicate 20 7 = drop 12 (take 2048 ?d)" by (simp add: audio_datagram_def audio_type)
  then show ?thesis using a recv_into_fits [OF l(1)] l(2) by simp
qed

text \<open>
  C10: lost packets are repaired. The decoder is the program's, and each packet carries a frame of the
  session's size, compressed or not. When the packet \<open>k > 1\<close> numbers after the newest arrives, and the
  window has room, the receiver asks for exactly the \<open>k - 1\<close> numbers between; once the client resends
  these in order, the queue holds the samples of every frame in its place, and the decoder can take
  the next.
\<close>

theorem lost_packets_are_repaired:
  assumes "queue_inv p" "rtp_running rtp" "length packet = 2048" "length hdr = 8"
    and "frame_size p = int n" "decoder_ok (decoder p) n rice"
    and "\<forall>(pkt, lrs) \<in> set (lost @ [newest]). carries_frame aes_cbc key iv stack n rice pkt lrs"
    and "fill p + length lost + 2 \<le> BUFFER_FRAMES" "lost \<noteq> []"
  shows "\<exists>q req. rtp_receiver (alac_decode aes_cbc key iv stack (int n)) bsf rtp
      ((False, Some (audio_datagram hdr (ab_write p + of_nat (Suc (length lost))) (fst newest))) #
       resends hdr (ab_write p + 1) (map fst lost)) packet p = Inr (q, [(rtp_client rtp, req)], False) \<and>
    read_resend_request req = Some (ab_write p + 1, of_nat (length lost)) \<and>
    queue_inv q \<and> decoder_ok (decoder q) n rice \<and>
    pending q = pending p @ map (\<lambda>(pkt, lrs). Some (samples lrs)) (lost @ [newest])"
proof -
  let ?f = "\<lambda>(pkt, lrs). (pkt, samples lrs)"
  have "\<forall>pf \<in> set (map ?f lost @ [?f newest]). accepts (\<lambda>d. decoder_ok d n rice)
      (alac_decode aes_cbc key iv stack (int n)) (frame_size p) pf"
    unfolding assms(5) using assms(7) carries_frame_accepts by fastforce
  from lost_packets_fill [OF assms(1-4,6) this, of bsf] assms(8,9) show ?thesis
    by (auto simp: comp_def split_beta)
qed

text \<open>The example frame, compressed, in a packet of the length the receiver takes.\<close>

definition example_packet :: bytes where
  "example_packet = pack (nat_bits 3 1 @ head_bits None False @ nat_bits 8 0 @ nat_bits 8 0 @
    params_bits plain_params @ params_bits plain_params @
    (rice_code 17 1 1 6 @ rice_code 16 2 3 2) @ (rice_code 17 1 1 6 @ rice_code 16 2 3 2)) @ replicate 20 0"

lemma example_packet_carries:
  "carries_frame (\<lambda>key iv d. d) [] [] (replicate 2048 0) 3 (40, 10, 14) example_packet
     [(3, 3), (0, 0), (0, 0)]"
proof -
  let ?bits = "nat_bits 3 1 @ head_bits None False @ nat_bits 8 0 @ nat_bits 8 0 @
    params_bits plain_params @ params_bits plain_params @
    (rice_code 17 1 1 6 @ rice_code 16 2 3 2) @ (rice_code 17 1 1 6 @ rice_code 16 2 3 2)"
  have le: "length (pack bs) \<le> length bs" for bs
    by (induction bs rule: pack.induct) (auto intro: le_trans)
  have "length ?bits \<le> 400" by (simp add: head_bits_def params_bits_def plain_params_def rice_code_def)
  then have short: "length example_packet \<le> 420"
    using le [of ?bits] unfolding example_packet_def length_append length_replicate by linarith
  have d: "decrypt_packet (\<lambda>key iv d. d) [] [] (replicate 2048 0) example_packet =
      pack ?bits @ replicate 20 0 @ replicate (2048 - length example_packet) 0"
    using decrypt_plain [of "[]" "[]" "replicate 2048 0" example_packet]
    by (simp only: example_packet_def drop_replicate append_assoc)
  have pkt: "frame_packet (\<lambda>key iv d. d) [] [] (replicate 2048 0) example_packet ?bits"
    unfolding frame_packet_def d using short pack_room [of ?bits 0] carries_pack [of ?bits]
    by (simp add: MAX_PACKET_def del: pack.simps)
  have "length example_packet \<ge> 20" by (simp add: example_packet_def del: pack.simps)
  then have ok: "payload_ok example_packet" using short by (simp add: payload_ok_def)
  have "size_ok 3 None 3" by (simp add: size_ok_def)
  moreover have "decoder_ok (stereo_decoder 3) 3 (40, 10, 14)" by (rule stereo_decoder_ok) simp
  ultimately show ?thesis
    unfolding carries_frame_def using ok pkt example_stereo by (auto simp del: pack.simps)
qed

theorem lost_packets_are_repaired_witness:
  "\<exists>q req. rtp_receiver (alac_decode (\<lambda>key iv d. d) [] [] (replicate 2048 0) 3) 220 (live rtp_initial)
      [(False, Some (audio_datagram (replicate 8 0) 9 example_packet)),
       (False, Some (resend_datagram (replicate 8 0) 8 example_packet))]
      (replicate 2048 0) (waiting_player 3 7 0 (stereo_decoder 3)) =
        Inr (q, [(rtp_client (live rtp_initial), req)], False) \<and>
    read_resend_request req = Some (8, 1) \<and>
    pending q = [None, Some [3, 3, 0, 0, 0, 0], Some [3, 3, 0, 0, 0, 0]]"
proof -
  let ?p = "waiting_player 3 7 0 (stereo_decoder 3)" and ?pf = "(example_packet, [(3, 3), (0, 0), (0, 0)])"
  have p: "queue_inv ?p" "fill ?p = 0" "pending ?p = [None]"
    using waiting_player_size [of 0 3 7 "stereo_decoder 3"]
    by (simp_all add: playing_size_def playing_inv_def BUFFER_FRAMES_def)
  have f: "frame_size ?p = int 3" "ab_write ?p = 7" "decoder ?p = stereo_decoder 3"
    by (simp_all add: waiting_player_def)
  have ok: "decoder_ok (decoder ?p) 3 (40, 10, 14)"
    unfolding f by (rule stereo_decoder_ok) simp
  have sm: "samples [(3, 3), (0, 0), (0, 0)] = [3, 3, 0, 0, 0, 0]" by (simp add: samples_def)
  show ?thesis
    using lost_packets_are_repaired [OF p(1) _ _ _ f(1) ok, of "live rtp_initial" "replicate 2048 0"
        "replicate 8 0" "[?pf]" ?pf "\<lambda>key iv d. d" "[]" "[]" "replicate 2048 0" 220] example_packet_carries
    by (auto simp: f(2) p(2,3) sm BUFFER_FRAMES_def)
qed

end
