(* ===== verification/Rtsp_Session.thy ===== *)
theory Rtsp_Session
  imports Rtsp_Auth Rtp_Receiver
begin

text \<open>
  One RTSP connection from its first byte to its end: the handlers of rtsp.c, the dispatch and
  \<open>rtsp_conversation_thread_func\<close>, with the player and the RTP session they control. What the other
  connections do while this one waits for the player is a function of the state, \<open>others\<close>; the
  interleaving itself is the subject of \<open>Rtsp_Threads\<close>.
\<close>

section \<open>State\<close>

text \<open>The mutex of the player, who took it last, the request to shut down, and what it protects.\<close>

record rtsp_world =
  w_lock :: bool
  w_thread :: nat
  w_shut :: bool
  w_rtp :: rtp_state
  w_ctl :: player_ctl
  w_meta :: meta_state
  w_events :: "event list"

record rtsp_conn =
  c_stream :: stream_cfg
  c_remote :: sockaddr
  c_nonce :: "string option"

text \<open>OpenSSL, the operating system and the memory of this connection.\<close>

record rtsp_env =
  e_b64_read :: "string \<Rightarrow> nat \<Rightarrow> int \<times> bytes"
  e_b64_write :: "bytes \<Rightarrow> string"
  e_rsa_key :: "int \<times> bytes \<Rightarrow> int \<times> bytes"
  e_rsa_auth :: "bytes \<Rightarrow> bytes"
  e_params :: param_env
  e_random :: "bytes option"
  e_password :: "string option"
  e_local_addr :: sockaddr
  e_hw_addr :: bytes
  e_udp :: udp_env
  e_start_fill :: int
  e_heap :: "nat \<Rightarrow> u32"
  e_heap16 :: "nat \<Rightarrow> nat \<Rightarrow> u16"
  e_hw_volume :: bool
  e_junk :: "nat \<Rightarrow> char"
  e_enough :: "int \<Rightarrow> bool"

section \<open>The player's owner\<close>

definition rtsp_playing :: "nat \<Rightarrow> rtsp_world \<Rightarrow> bool" where
  "rtsp_playing self w = (if w_lock w then w_thread w = self else False)"

definition rtsp_take_player :: "(rtsp_world \<Rightarrow> rtsp_world) \<Rightarrow> nat \<Rightarrow> rtsp_world \<Rightarrow> rtsp_world" where
  "rtsp_take_player others self w =
     (if rtsp_playing self w then w
      else
        let w = (if w_lock w then others (w\<lparr>w_shut := True\<rparr>) else w)
        in w\<lparr>w_lock := True, w_thread := self\<rparr>)"

definition rtsp_shutdown_stream :: "(rtsp_world \<Rightarrow> rtsp_world) \<Rightarrow> nat \<Rightarrow> rtsp_world \<Rightarrow> rtsp_world" where
  "rtsp_shutdown_stream others self w = (rtsp_take_player others self w)\<lparr>w_lock := False\<rparr>"

section \<open>Handlers\<close>

definition add :: "rtsp_message \<Rightarrow> string \<Rightarrow> string \<Rightarrow> rtsp_message" where
  "add msg name value = fst (msg_add_header msg name value)"

definition handle_options :: "rtsp_message \<Rightarrow> rtsp_message" where
  "handle_options resp =
     add (resp\<lparr>respcode := 200\<rparr>) ''Public''
       (''ANNOUNCE, SETUP, RECORD, PAUSE, FLUSH, TEARDOWN, '' @ ''OPTIONS, GET_PARAMETER, SET_PARAMETER'')"

definition handle_teardown :: "nat \<Rightarrow> rtsp_message \<Rightarrow> rtsp_world \<Rightarrow> rtsp_message \<times> rtsp_world" where
  "handle_teardown self resp w =
     (if \<not> rtsp_playing self w then (resp, w)
      else (add (resp\<lparr>respcode := 200\<rparr>) ''Connection'' ''close'', w\<lparr>w_shut := True\<rparr>))"

definition handle_flush :: "nat \<Rightarrow> rtsp_message \<Rightarrow> rtsp_world \<Rightarrow> rtsp_message \<times> rtsp_world" where
  "handle_flush self resp w =
     (if \<not> rtsp_playing self w then (resp, w)
      else (resp\<lparr>respcode := 200\<rparr>, w\<lparr>w_ctl := (w_ctl w)\<lparr>pl := player_flush (pl (w_ctl w))\<rparr>\<rparr>))"

text \<open>The number behind \<open>name=\<close> in the Transport header.\<close>

definition port_param :: "string \<Rightarrow> string \<Rightarrow> int option" where
  "port_param hdr name =
     (case strstr hdr name of
        None \<Rightarrow> None
      | Some p \<Rightarrow>
          (case strchr p (CHR ''='') of
             None \<Rightarrow> None
           | Some p \<Rightarrow> Some (atoi (tl p))))"

definition transport_header :: "int \<Rightarrow> string" where
  "transport_header sport =
     take 99 (''RTP/AVP/UDP;unicast;mode=record;server_port='' @ int_digits sport @
              '';control_port='' @ int_digits sport @ '';timing_port='' @ int_digits sport)"

definition handle_setup ::
    "rtsp_env \<Rightarrow> (rtsp_world \<Rightarrow> rtsp_world) \<Rightarrow> nat \<Rightarrow> rtsp_conn \<Rightarrow> rtsp_message \<Rightarrow> rtsp_message \<Rightarrow>
       rtsp_world \<Rightarrow> fault + (rtsp_message \<times> rtsp_world)" where
  "handle_setup env others self conn req resp w =
     (case msg_get_header req ''Transport'' of
        None \<Rightarrow> Inr (resp, w)
      | Some hdr \<Rightarrow>
          case port_param hdr ''control_port='' of
            None \<Rightarrow> Inr (resp, w)
          | Some cport \<Rightarrow>
              case port_param hdr ''timing_port='' of
                None \<Rightarrow> Inr (resp, w)
              | Some tport \<Rightarrow>
                  let w = rtsp_take_player others self w in
                  case rtp_setup (e_udp env) (w_rtp w) (c_remote conn) cport tport of
                    Inl e \<Rightarrow> Inl e
                  | Inr (rtp, sport) \<Rightarrow>
                      let w = w\<lparr>w_rtp := rtp\<rparr> in
                      if sport = 0 then Inr (resp, w)
                      else
                        case player_play (e_start_fill env) (e_heap env) (e_heap16 env) (c_stream conn) (w_ctl w) of
                          Inl e \<Rightarrow> Inl e
                        | Inr (ctl, evs) \<Rightarrow>
                            let w = w\<lparr>w_ctl := ctl, w_events := w_events w @ evs\<rparr>;
                                resp = add resp ''Transport'' (transport_header sport);
                                resp = add resp ''Session'' ''1''
                            in Inr (resp\<lparr>respcode := 200\<rparr>, w))"

definition handle_ignore :: "rtsp_message \<Rightarrow> rtsp_message" where
  "handle_ignore resp = resp\<lparr>respcode := 200\<rparr>"

text \<open>The volumes a SET\_PARAMETER found are set one after the other.\<close>

fun set_volumes :: "bool \<Rightarrow> real list \<Rightarrow> volume_state \<Rightarrow> fault + volume_state" where
  "set_volumes hw [] v = Inr v"
| "set_volumes hw (f # fs) v =
     (case player_volume hw f v of
        Inl e \<Rightarrow> Inl e
      | Inr (_, v) \<Rightarrow> set_volumes hw fs v)"

section \<open>Dispatch\<close>

datatype handler =
    H_options
  | H_announce
  | H_flush
  | H_teardown
  | H_setup
  | H_ignore
  | H_set_parameter

definition method_handlers :: "(string \<times> handler) list" where
  "method_handlers =
     [(''OPTIONS'', H_options), (''ANNOUNCE'', H_announce), (''FLUSH'', H_flush), (''TEARDOWN'', H_teardown),
      (''SETUP'', H_setup), (''GET_PARAMETER'', H_ignore), (''SET_PARAMETER'', H_set_parameter),
      (''RECORD'', H_ignore)]"

text \<open>
  \<open>None\<close> is a handler that never returns. The player keeps a pointer to the AES vector of the
  connection that plays, so a second ANNOUNCE of this connection changes it under the player.
\<close>

type_synonym served = "(fault + (rtsp_conn \<times> rtsp_message \<times> rtsp_world)) option"

definition run_handler ::
    "rtsp_env \<Rightarrow> (rtsp_world \<Rightarrow> rtsp_world) \<Rightarrow> nat \<Rightarrow> handler \<Rightarrow> rtsp_conn \<Rightarrow> rtsp_message \<Rightarrow> rtsp_message \<Rightarrow>
       rtsp_world \<Rightarrow> served" where
  "run_handler env others self h conn req resp w =
     (case h of
        H_options \<Rightarrow> Some (Inr (conn, handle_options resp, w))
      | H_announce \<Rightarrow>
          (case handle_announce (e_b64_read env) (e_rsa_key env) req resp (c_stream conn) of
             Inl e \<Rightarrow> Some (Inl e)
           | Inr (stream, resp) \<Rightarrow>
               let w = (if rtsp_playing self w then w\<lparr>w_ctl := (w_ctl w)\<lparr>aes_iv := sc_aesiv stream\<rparr>\<rparr> else w)
               in Some (Inr (conn\<lparr>c_stream := stream\<rparr>, resp, w)))
      | H_flush \<Rightarrow> Some (Inr (conn, handle_flush self resp w))
      | H_teardown \<Rightarrow> Some (Inr (conn, handle_teardown self resp w))
      | H_setup \<Rightarrow>
          (case handle_setup env others self conn req resp w of
             Inl e \<Rightarrow> Some (Inl e)
           | Inr (resp, w) \<Rightarrow> Some (Inr (conn, resp, w)))
      | H_ignore \<Rightarrow> Some (Inr (conn, handle_ignore resp, w))
      | H_set_parameter \<Rightarrow>
          (case handle_set_parameter (e_params env) req resp (w_meta w) of
             None \<Rightarrow> None
           | Some (Inl e) \<Rightarrow> Some (Inl e)
           | Some (Inr (res, resp)) \<Rightarrow>
               (case set_volumes (e_hw_volume env) (pr_volumes res) (vol (w_ctl w)) of
                  Inl e \<Rightarrow> Some (Inl e)
                | Inr v \<Rightarrow>
                    Some (Inr (conn, resp, w\<lparr>w_meta := pr_meta res, w_ctl := (w_ctl w)\<lparr>vol := v\<rparr>\<rparr>)))))"

section \<open>The conversation\<close>

text \<open>From a request to its response: the challenge, the fixed headers, authentication, the handler.\<close>

fun find_handler :: "(string \<times> handler) list \<Rightarrow> string \<Rightarrow> handler option" where
  "find_handler [] meth = None"
| "find_handler ((n, h) # hs) meth = (if n = meth then Some h else find_handler hs meth)"

definition serve_request ::
    "rtsp_env \<Rightarrow> (rtsp_world \<Rightarrow> rtsp_world) \<Rightarrow> nat \<Rightarrow> rtsp_conn \<Rightarrow> rtsp_message \<Rightarrow> rtsp_world \<Rightarrow> served" where
  "serve_request env others self conn req w =
     (let resp = msg_init\<lparr>respcode := 400\<rparr> in
      case apple_challenge (e_b64_read env) (e_b64_write env) (e_rsa_auth env) (e_local_addr env)
             (e_hw_addr env) req resp of
        Inl e \<Rightarrow> Some (Inl e)
      | Inr resp \<Rightarrow>
          let resp = (case msg_get_header req ''CSeq'' of None \<Rightarrow> resp | Some hdr \<Rightarrow> add resp ''CSeq'' hdr);
              resp = add resp ''Audio-Jack-Status'' ''connected; type=analog''
          in
            case rtsp_auth (md5 (e_params env)) (e_b64_write env) (e_password env) (e_random env)
                   (c_nonce conn) req resp of
              Inl e \<Rightarrow> Some (Inl e)
            | Inr (refused, nonce, req, resp) \<Rightarrow>
                let conn = conn\<lparr>c_nonce := nonce\<rparr> in
                if refused \<noteq> 0 then Some (Inr (conn, resp, w))
                else
                  (case find_handler method_handlers (msg_method req) of
                     None \<Rightarrow> Some (Inr (conn, resp, w))
                   | Some h \<Rightarrow> run_handler env others self h conn req resp w))"

text \<open>After the last request: the connection that plays stops the stream and gives the player back.\<close>

definition close_conversation :: "nat \<Rightarrow> rtsp_world \<Rightarrow> fault + rtsp_world" where
  "close_conversation self w =
     (if rtsp_playing self w then
        (case rtp_shutdown (w_rtp w) of
           Inl e \<Rightarrow> Inl e
         | Inr rtp \<Rightarrow>
             let (ctl, evs) = player_stop (w_ctl w) in
             Inr (w\<lparr>w_rtp := rtp, w_ctl := ctl, w_events := w_events w @ evs, w_shut := False,
                    w_lock := False\<rparr>))
      else Inr w)"

lemma header_loop_consumes:
  "header_loop buflen buf inbuf pmsg evs shut = Inr (Some (buf', inbuf', msg, sz, evs', shut')) \<Longrightarrow>
    net_size evs' < net_size evs"
proof (induction "net_size evs" arbitrary: buf inbuf pmsg evs shut rule: less_induct)
  case less
  obtain r evs1 shut1 where r: "sock_read (nat (buflen - inbuf)) evs shut = (r, evs1, shut1)" by (metis prod_cases3)
  note c = sock_read_consumes [OF r]
  note h = less.prems [unfolded header_loop.simps [of buflen buf inbuf pmsg evs shut] r]
  have ns: "\<not> shut" using h by (auto split: if_splits)
  show ?case
  proof (cases r)
    case (Got s)
    then have sn: "s \<noteq> ''''" using h ns by (auto split: if_splits)
    then have lt: "net_size evs1 < net_size evs" using c Got by simp
    obtain b1 i1 m1 z1 where l: "line_loop (take (nat inbuf) buf @ s @ drop (nat inbuf + length s) buf)
        (inbuf + int (length s)) pmsg (-1) = Inr (b1, i1, m1, z1)"
      using h ns sn Got by (auto split: sum.splits)
    show ?thesis
    proof (cases "z1 < 0")
      case True
      then have "header_loop buflen b1 i1 m1 evs1 shut1 = Inr (Some (buf', inbuf', msg, sz, evs', shut'))"
        using h ns sn Got l by simp
      from less.hyps [OF lt this] lt show ?thesis by linarith
    next
      case False
      then have "evs' = evs1" using h ns sn Got l by (auto split: option.splits)
      then show ?thesis using lt by simp
    qed
  next
    case Read_eintr
    then have lt: "net_size evs1 < net_size evs" using c by simp
    have "header_loop buflen buf inbuf pmsg evs1 shut1 = Inr (Some (buf', inbuf', msg, sz, evs', shut'))"
      using h ns Read_eintr by simp
    from less.hyps [OF lt this] lt show ?thesis by linarith
  qed (use h ns in simp)
qed

lemma body_loop_consumes:
  "body_loop buf inbuf sz evs shut = Some (buf', inbuf', evs', shut') \<Longrightarrow> net_size evs' \<le> net_size evs"
proof (induction "net_size evs" arbitrary: buf inbuf evs shut rule: less_induct)
  case less
  obtain r evs1 shut1 where r: "sock_read (nat (sz - inbuf)) evs shut = (r, evs1, shut1)" by (metis prod_cases3)
  note c = sock_read_consumes [OF r]
  note h = less.prems [unfolded body_loop.simps [of buf inbuf sz evs shut] r]
  show ?case
  proof (cases "inbuf < sz")
    case True
    then obtain s where s: "r = Got s" "s \<noteq> ''''" using h by (auto split: read_result.splits if_splits)
    then have lt: "net_size evs1 < net_size evs" using c by simp
    obtain b1 i1 where "body_loop b1 i1 sz evs1 shut1 = Some (buf', inbuf', evs', shut')"
      using h True s by (auto simp: Let_def split: if_splits)
    from less.hyps [OF lt this] lt show ?thesis by linarith
  qed (use h in simp)
qed

lemma rtsp_read_request_consumes:
  assumes "rtsp_read_request junk enough evs shut = Inr (Some (req, evs', shut'))"
  shows "net_size evs' < net_size evs"
proof -
  obtain buf inbuf msg sz evs1 shut1 where
    h: "header_loop 512 (map junk [0..<513]) 0 None evs shut = Inr (Some (buf, inbuf, msg, sz, evs1, shut1))"
    and b: "\<exists>b1 i2 b2. body_loop b1 inbuf sz evs1 shut1 = Some (b2, i2, evs', shut')"
    using assms unfolding rtsp_read_request_def Let_def
    by (auto split: sum.splits option.splits if_split_asm; blast)
  from header_loop_consumes [OF h] b body_loop_consumes show ?thesis by (meson dual_order.strict_trans1 le_less_trans)
qed

text \<open>
  The whole life of the connection. The result is what the world is then, and the responses that
  were written. The flag the reader saw last is the flag of the world; one that
  others raise while the last read waits is theirs to see, and is cleared here only by the owner.
\<close>

function conversation ::
    "rtsp_env \<Rightarrow> (rtsp_world \<Rightarrow> rtsp_world) \<Rightarrow> nat \<Rightarrow> rtsp_conn \<Rightarrow> net list \<Rightarrow> rtsp_world \<Rightarrow>
       (fault + (rtsp_world \<times> string list)) option" where
  "conversation env others self conn evs w =
     (case rtsp_read_request (e_junk env) (e_enough env) evs (w_shut w) of
        Inl e \<Rightarrow> Some (Inl e)
      | Inr None \<Rightarrow>
          (case close_conversation self w of
             Inl e \<Rightarrow> Some (Inl e)
           | Inr w \<Rightarrow> Some (Inr (w, [])))
      | Inr (Some (req, evs, shut)) \<Rightarrow>
          (case serve_request env others self conn req (w\<lparr>w_shut := shut\<rparr>) of
             None \<Rightarrow> None
           | Some (Inl e) \<Rightarrow> Some (Inl e)
           | Some (Inr (conn, resp, w)) \<Rightarrow>
               (case msg_write_response resp of
                  Inl e \<Rightarrow> Some (Inl e)
                | Inr out \<Rightarrow>
                    (case conversation env others self conn evs w of
                       None \<Rightarrow> None
                     | Some (Inl e) \<Rightarrow> Some (Inl e)
                     | Some (Inr (w, outs)) \<Rightarrow> Some (Inr (w, out # outs))))))"
  by pat_completeness auto
termination
  by (relation "measure (\<lambda>(env, others, self, conn, evs, w). net_size evs)")
    (auto dest: rtsp_read_request_consumes [OF sym] rtsp_read_request_consumes)

declare conversation.simps [simp del]


section \<open>Who owns what\<close>

text \<open>Complete runs of the player: each start of command, output and thread has its stop.\<close>

fun runs :: "event list \<Rightarrow> bool" where
  "runs [] \<longleftrightarrow> True"
| "runs (Command_start # Output_start r # Thread_create # Thread_join # Output_stop # Command_stop # evs) \<longleftrightarrow> runs evs"
| "runs evs \<longleftrightarrow> False"

definition idle :: "rtsp_world \<Rightarrow> bool" where
  "idle w \<longleftrightarrow> \<not> w_lock w \<and> \<not> rtp_running (w_rtp w) \<and> runs (w_events w)"

definition started :: "event list \<Rightarrow> bool" where
  "started evs \<longleftrightarrow> (\<exists>evs0 r. runs evs0 \<and> evs = evs0 @ [Command_start, Output_start r, Thread_create])"

definition owned :: "nat \<Rightarrow> rtsp_world \<Rightarrow> bool" where
  "owned self w \<longleftrightarrow> w_lock w \<and> w_thread w = self \<and> rtp_running (w_rtp w) \<and> started (w_events w)"

definition others_play :: "nat \<Rightarrow> rtsp_world \<Rightarrow> bool" where
  "others_play self w \<longleftrightarrow> w_lock w \<and> w_thread w \<noteq> self"

definition world_inv :: "nat \<Rightarrow> rtsp_world \<Rightarrow> bool" where
  "world_inv self w \<longleftrightarrow> idle w \<or> owned self w \<or> others_play self w"

lemmas world_defs = idle_def owned_def others_play_def rtsp_playing_def

lemma world_inv_cong:
  assumes "w_lock w' = w_lock w" "w_thread w' = w_thread w" "rtp_running (w_rtp w') = rtp_running (w_rtp w)"
    and "w_events w' = w_events w"
  shows "world_inv self w' = world_inv self w"
  using assms by (simp add: world_inv_def idle_def owned_def others_play_def)

lemma runs_append: "runs evs0 \<Longrightarrow> runs (evs0 @ evs) = runs evs"
  by (induction evs0 rule: runs.induct) auto

lemma playing_iff_owned: "world_inv self w \<Longrightarrow> rtsp_playing self w \<longleftrightarrow> owned self w"
  by (auto simp: world_inv_def world_defs)

lemma take_player_ready:
  assumes "world_inv self w" "\<not> owned self w" "\<forall>v. idle (others v)"
  shows "w_lock (rtsp_take_player others self w) \<and> w_thread (rtsp_take_player others self w) = self \<and>
    \<not> rtp_running (w_rtp (rtsp_take_player others self w)) \<and> runs (w_events (rtsp_take_player others self w))"
  using assms by (auto simp: rtsp_take_player_def world_inv_def world_defs Let_def)

lemma player_play_events:
  "player_play start heap heap16 stream c = Inr (c', evs) \<Longrightarrow>
    \<exists>r. evs = [Command_start, Output_start r, Thread_create]"
  by (auto simp: player_play_def Let_def split: if_splits sum.splits)

lemma rtp_setup_ok:
  assumes "rtp_setup env st remote cport tport = Inr (st', sport)"
  shows "rtp_running st' \<and> (sport = 0 \<longleftrightarrow> sa_port (bound_addr env) = 0)"
proof -
  have "htons 0 = 0" by (simp add: htons_def)
  then have z: "htons p = 0 \<longleftrightarrow> p = 0" for p by (metis htons_htons)
  have "rtp_running st' \<and> sport = uint (htons (sa_port (bound_addr env)))"
    using assms by (auto simp: rtp_setup_def bind_port_def Let_def split: if_splits)
  then show ?thesis by (simp only: unsigned_eq_0_iff z)
qed

lemma handle_setup_inv:
  assumes "handle_setup env others self conn req resp w = Inr (resp', w')" "world_inv self w"
    and "\<forall>v. idle (others v)" "sa_port (bound_addr (e_udp env)) \<noteq> 0"
  shows "w' = w \<or> owned self w'"
proof (cases "w' = w")
  case False
  with assms(1) obtain hdr cport tport where
    t: "msg_get_header req ''Transport'' = Some hdr" "port_param hdr ''control_port='' = Some cport"
       "port_param hdr ''timing_port='' = Some tport"
    by (auto simp: handle_setup_def split: option.splits)
  let ?w = "rtsp_take_player others self w"
  obtain rtp sport where s: "rtp_setup (e_udp env) (w_rtp ?w) (c_remote conn) cport tport = Inr (rtp, sport)"
    using assms(1) t by (auto simp: handle_setup_def Let_def split: sum.splits)
  have no: "\<not> owned self w"
  proof
    assume "owned self w"
    then have "rtp_running (w_rtp ?w)" by (simp add: rtsp_take_player_def world_defs)
    with s show False by (simp add: rtp_setup_def)
  qed
  have np: "sport \<noteq> 0" using rtp_setup_ok [OF s] assms(4) by simp
  obtain ctl evs where p: "player_play (e_start_fill env) (e_heap env) (e_heap16 env) (c_stream conn) (w_ctl ?w) = Inr (ctl, evs)"
    "w' = ?w\<lparr>w_rtp := rtp, w_ctl := ctl, w_events := w_events ?w @ evs\<rparr>"
    using assms(1) t s np by (auto simp: handle_setup_def Let_def split: sum.splits)
  then show ?thesis
    using take_player_ready [OF assms(2) no assms(3)] rtp_setup_ok [OF s] player_play_events [OF p(1)]
    by (auto simp: owned_def started_def)
qed simp

lemma run_handler_inv:
  assumes "run_handler env others self h conn req resp w = Some (Inr (conn', resp', w'))" "world_inv self w"
    and "\<forall>v. idle (others v)" "sa_port (bound_addr (e_udp env)) \<noteq> 0"
  shows "world_inv self w'"
proof (cases h)
  case H_setup
  then obtain r where "handle_setup env others self conn req resp w = Inr (r, w')"
    using assms(1) by (auto simp: run_handler_def split: sum.splits)
  from handle_setup_inv [OF this assms(2-4)] assms(2) show ?thesis by (auto simp: world_inv_def)
next
  case H_announce
  then show ?thesis
    using assms(1,2) by (auto simp: run_handler_def Let_def split: sum.splits if_splits elim!: world_inv_cong [THEN iffD2, rotated 4])
next
  case H_set_parameter
  then show ?thesis
    using assms(1,2) by (auto simp: run_handler_def Let_def split: sum.splits option.splits elim!: world_inv_cong [THEN iffD2, rotated 4])
next
  case H_flush
  then show ?thesis
    using assms(1,2) by (auto simp: run_handler_def handle_flush_def split: if_splits elim!: world_inv_cong [THEN iffD2, rotated 4])
next
  case H_teardown
  then show ?thesis
    using assms(1,2) by (auto simp: run_handler_def handle_teardown_def split: if_splits elim!: world_inv_cong [THEN iffD2, rotated 4])
qed (use assms(1,2) in \<open>simp_all add: run_handler_def\<close>)

lemma serve_request_inv:
  assumes "serve_request env others self conn req w = Some (Inr (conn', resp', w'))" "world_inv self w"
    and "\<forall>v. idle (others v)" "sa_port (bound_addr (e_udp env)) \<noteq> 0"
  shows "world_inv self w'"
  using assms(1,2) run_handler_inv [OF _ assms(2-4)]
  by (auto simp: serve_request_def Let_def split: sum.splits option.splits if_splits)

lemma close_conversation_ok:
  assumes "world_inv self w"
  shows "\<exists>w'. close_conversation self w = Inr w' \<and> (idle w' \<or> others_play self w') \<and>
    (owned self w \<longrightarrow> idle w' \<and> \<not> w_shut w' \<and> \<not> rtp_sock_open (w_rtp w') \<and> please_stop (w_ctl w'))"
proof (cases "owned self w")
  case True
  then obtain evs0 r where e: "runs evs0" "w_events w = evs0 @ [Command_start, Output_start r, Thread_create]"
    by (auto simp: owned_def started_def)
  then have "runs (w_events w @ [Thread_join, Output_stop, Command_stop])" by (simp add: runs_append)
  then show ?thesis
    using True by (simp add: close_conversation_def world_defs rtp_shutdown_def player_stop_def)
next
  case False
  then show ?thesis using assms playing_iff_owned [OF assms] by (auto simp: close_conversation_def world_inv_def)
qed

section \<open>The properties\<close>

lemma conversation_inv:
  assumes "\<forall>v. idle (others v)" "sa_port (bound_addr (e_udp env)) \<noteq> 0"
  shows "world_inv self w \<Longrightarrow> conversation env others self conn evs w = Some (Inr (w', outs)) \<Longrightarrow>
    idle w' \<or> others_play self w'"
proof (induction "net_size evs" arbitrary: conn evs w outs rule: less_induct)
  case less
  note step = less.prems(2) [unfolded conversation.simps [of env others self conn evs w]]
  show ?case
  proof (cases "rtsp_read_request (e_junk env) (e_enough env) evs (w_shut w)")
    case (Inr r)
    show ?thesis
    proof (cases r)
      case None
      then show ?thesis
        using step Inr close_conversation_ok [OF less.prems(1)] by (auto split: sum.splits)
    next
      case (Some q)
      obtain req evs1 shut where q: "q = (req, evs1, shut)" by (metis prod_cases3)
      let ?w = "w\<lparr>w_shut := shut\<rparr>"
      obtain conn1 resp w1 where s: "serve_request env others self conn req ?w = Some (Inr (conn1, resp, w1))"
        using step Inr Some q by (auto split: sum.splits option.splits)
      have "world_inv self ?w" using less.prems(1) by (subst world_inv_cong [of _ w]) simp_all
      then have i1: "world_inv self w1" by (rule serve_request_inv [OF s _ assms])
      obtain outs1 where "conversation env others self conn1 evs1 w1 = Some (Inr (w', outs1))"
        using step Inr Some q s by (auto split: sum.splits option.splits)
      moreover have "net_size evs1 < net_size evs"
        using rtsp_read_request_consumes Inr Some q by blast
      ultimately show ?thesis using less.hyps i1 by blast
    qed
  qed (use step in simp)
qed


text \<open>An environment and a world to try the properties on.\<close>

definition sample_env :: rtsp_env where
  "sample_env = \<lparr>e_b64_read = b64_filter_read, e_b64_write = b64_text, e_rsa_key = (\<lambda>x. x),
     e_rsa_auth = (\<lambda>x. x),
     e_params = \<lparr>enough_memory = \<lambda>n. True,
       fifo = \<lparr>meta_dir = None, mkfifo_fails = False, mkfifo_exists = False, open_fails = False, has_reader = False\<rparr>,
       md5 = \<lambda>s. replicate 16 0, creat_ok = True, write_ok = True\<rparr>,
     e_random = None, e_password = None, e_local_addr = \<lparr>sa_inet6 = False, sa_port = 0, sa_addr = [10, 0, 0, 1]\<rparr>,
     e_hw_addr = [1, 2, 3, 4, 5, 6],
     e_udp = \<lparr>gai_ret = 0, bind_ret = 0, bound_addr = \<lparr>sa_inet6 = False, sa_port = 0x7017, sa_addr = [0, 0, 0, 0]\<rparr>\<rparr>,
     e_start_fill = 220, e_heap = (\<lambda>i. 0), e_heap16 = (\<lambda>i j. 0), e_hw_volume = False,
     e_junk = (\<lambda>i. NUL), e_enough = (\<lambda>n. True)\<rparr>"

definition sample_world :: rtsp_world where
  "sample_world = \<lparr>w_lock = False, w_thread = 0, w_shut = False, w_rtp = rtp_initial,
     w_ctl = \<lparr>pl = waiting_player 0 0 0 (stereo_decoder 0), aes_key = [], aes_iv = [], please_stop = True,
       vol = \<lparr>volume = 1, fix_volume = 65536\<rparr>, dith = dither_init\<rparr>,
     w_meta = meta_initial, w_events = []\<rparr>"

definition sample_conn :: rtsp_conn where
  "sample_conn = \<lparr>c_stream = \<lparr>sc_aesiv = [], sc_aeskey = [], sc_fmtp = [96, 352, 0, 16, 40, 10, 14, 2, 255, 0, 0, 44100]\<rparr>,
     c_remote = \<lparr>sa_inet6 = False, sa_port = 0, sa_addr = [10, 0, 0, 9]\<rparr>, c_nonce = None\<rparr>"

lemma idle_sample [simp]: "idle sample_world"
  by (simp add: idle_def sample_world_def rtp_initial_def)

text \<open>The connection that plays closes without a word.\<close>

definition sample_playing :: rtsp_world where
  "sample_playing = sample_world\<lparr>w_lock := True, w_thread := 1, w_rtp := rtp_initial\<lparr>rtp_running := True\<rparr>,
     w_events := [Command_start, Output_start 44100, Thread_create]\<rparr>"

lemma sample_playing_inv: "world_inv 1 sample_playing"
proof -
  have "owned 1 sample_playing" by (auto simp: owned_def started_def sample_playing_def intro: exI [of _ "[]"])
  then show ?thesis by (simp add: world_inv_def)
qed

lemma sample_conversation:
  "\<exists>w'. conversation sample_env (\<lambda>v. sample_world) 1 sample_conn [] sample_playing = Some (Inr (w', [])) \<and>
    \<not> w_lock w' \<and>
    w_events w' = [Command_start, Output_start 44100, Thread_create, Thread_join, Output_stop, Command_stop]"
proof -
  have "sock_read 512 [] False = (Got '''', [], False)" using sock_read.simps(2) [of 511 False] by simp
  then have read: "rtsp_read_request j en [] False = Inr None" for j en
    by (simp add: rtsp_read_request_def header_loop.simps)
  have "close_conversation 1 sample_playing = Inr (sample_playing\<lparr>w_rtp := rtp_initial\<lparr>rtp_please_shutdown := True\<rparr>,
      w_ctl := fst (player_stop (w_ctl sample_world)),
      w_events := [Command_start, Output_start 44100, Thread_create, Thread_join, Output_stop, Command_stop],
      w_lock := False\<rparr>)" (is "_ = Inr ?v")
    by (simp add: close_conversation_def rtsp_playing_def rtp_shutdown_def player_stop_def sample_playing_def
        sample_world_def rtp_initial_def)
  then have "conversation sample_env (\<lambda>v. sample_world) 1 sample_conn [] sample_playing = Some (Inr (?v, []))"
    by (subst conversation.simps) (simp add: read, simp add: sample_playing_def sample_world_def read)
  then show ?thesis by (intro exI [of _ ?v] conjI) simp_all
qed


lemma transport_header_fits:
  fixes p :: u16
  shows "transport_header (uint p) = ''RTP/AVP/UDP;unicast;mode=record;server_port='' @ int_digits (uint p) @
    '';control_port='' @ int_digits (uint p) @ '';timing_port='' @ int_digits (uint p)"
proof -
  have "uint p < 65536" using uint_lt2p [of p] by simp
  then have "nat (uint p) < 100000" by linarith
  then have "nat (uint p) < 10 ^ 5" by (simp only: eval_nat_numeral power.simps) simp
  then have "length (nat_digits (nat (uint p))) \<le> 5" using length_nat_digits [of 5] by simp
  then have "length (int_digits (uint p)) \<le> 5" by (simp add: int_digits_def)
  then show ?thesis by (simp add: transport_header_def)
qed

text \<open>
  C23: a SETUP with both ports, on a socket that could be bound, from a connection that does not
  play, when whoever plays gives the player up: it takes the player for its connection, opens the
  RTP session to the client's control port, starts the player and answers 200 with the port of the
  session, three times. It makes the program die when the connection plays already, when the start fill is
  above 512, and when the format is not one of 16-bit samples, as before any ANNOUNCE.
\<close>

theorem setup_takes_player:
  assumes "world_inv self w" "\<forall>v. idle (others v)" "gai_ret (e_udp env) \<ge> 0" "bind_ret (e_udp env) \<ge> 0"
    and "sa_port (bound_addr (e_udp env)) \<noteq> 0" "length (headers resp) \<le> 14"
    and "msg_get_header req ''Transport'' = Some hdr" "port_param hdr ''control_port='' = Some cport"
    and "port_param hdr ''timing_port='' = Some tport"
    and "port = int_digits (uint (htons (sa_port (bound_addr (e_udp env)))))"
  shows "if owned self w
    then handle_setup env others self conn req resp w = Inl (Die ''rtp_setup called with active stream!'')
    else if 512 < e_start_fill env
    then handle_setup env others self conn req resp w = Inl (Die ''specified buffer starting fill > buffer size'')
    else if sc_fmtp (c_stream conn) ! 3 \<noteq> 16
    then handle_setup env others self conn req resp w = Inl (Die ''only 16-bit samples supported!'')
    else \<exists>resp' w'. handle_setup env others self conn req resp w = Inr (resp', w') \<and> respcode resp' = 200 \<and>
      headers resp' = headers resp @
        [(''Transport'', ''RTP/AVP/UDP;unicast;mode=record;server_port='' @ port @
            '';control_port='' @ port @ '';timing_port='' @ port), (''Session'', ''1'')] \<and>
      owned self w' \<and> rtp_client (w_rtp w') = (c_remote conn)\<lparr>sa_port := htons (word_of_int cport)\<rparr> \<and>
      \<not> please_stop (w_ctl w')"
proof (cases "owned self w")
  case True
  then show ?thesis
    using assms(7-9) by (simp add: handle_setup_def rtsp_take_player_def world_defs rtp_setup_def)
next
  case False
  let ?w = "rtsp_take_player others self w" and ?p = "htons (sa_port (bound_addr (e_udp env)))"
  have t: "w_lock ?w" "w_thread ?w = self" "\<not> rtp_running (w_rtp ?w)" "runs (w_events ?w)"
    using take_player_ready [OF assms(1) False assms(2)] by auto
  obtain rtp where s: "rtp_setup (e_udp env) (w_rtp ?w) (c_remote conn) cport tport = Inr (rtp, uint ?p)"
    using t(3) assms(3,4) by (simp add: rtp_setup_def bind_port_def Let_def)
  have np: "uint ?p \<noteq> 0" using rtp_setup_ok [OF s] assms(5) by simp
  let ?play = "player_play (e_start_fill env) (e_heap env) (e_heap16 env) (c_stream conn) (w_ctl ?w)"
  have h: "handle_setup env others self conn req resp w =
     (case ?play of
        Inl e \<Rightarrow> Inl e
      | Inr (ctl, evs) \<Rightarrow>
          Inr ((add (add resp ''Transport'' (transport_header (uint ?p))) ''Session'' ''1'')\<lparr>respcode := 200\<rparr>,
            ?w\<lparr>w_rtp := rtp, w_ctl := ctl, w_events := w_events ?w @ evs\<rparr>))"
    using assms(7-9) s np by (simp add: handle_setup_def Let_def cong: sum.case_cong)
  consider "512 < e_start_fill env" | "\<not> 512 < e_start_fill env" "sc_fmtp (c_stream conn) ! 3 \<noteq> 16"
    | "\<not> 512 < e_start_fill env" "sc_fmtp (c_stream conn) ! 3 = 16" by blast
  then show ?thesis
  proof cases
    case 1
    then show ?thesis using False h by (simp add: player_play_def BUFFER_FRAMES_def)
  next
    case 2
    then show ?thesis using False h by (simp add: player_play_def init_decoder_def BUFFER_FRAMES_def Let_def)
  next
    case 3
    then obtain ctl evs where p: "?play = Inr (ctl, evs)" "\<not> please_stop ctl"
      by (auto simp: player_play_def init_decoder_def BUFFER_FRAMES_def Let_def)
    show ?thesis
      using False 3 h t player_play_events [OF p(1)] p rtp_setup_running [OF s] assms(6)
      by (auto simp: owned_def started_def add_def msg_add_header_def transport_header_fits assms(10))
  qed
qed

theorem setup_takes_player_witness:
  "\<exists>resp' w'. handle_setup sample_env (\<lambda>v. sample_world) 1 sample_conn
      (msg_init\<lparr>headers := [(''Transport'', ''control_port=6001;timing_port=6002'')]\<rparr>) msg_init sample_world =
      Inr (resp', w') \<and> owned 1 w' \<and> respcode resp' = 200 \<and>
    headers resp' = [(''Transport'', ''RTP/AVP/UDP;unicast;mode=record;server_port=6000;'' @
      ''control_port=6000;timing_port=6000''), (''Session'', ''1'')]"
proof -
  let ?req = "msg_init\<lparr>headers := [(''Transport'', ''control_port=6001;timing_port=6002'')]\<rparr>"
  have h: "msg_get_header ?req ''Transport'' = Some ''control_port=6001;timing_port=6002''"
    by (simp add: msg_get_header_def)
  have c: "port_param ''control_port=6001;timing_port=6002'' ''control_port='' = Some 6001" by code_simp
  have t: "port_param ''control_port=6001;timing_port=6002'' ''timing_port='' = Some 6002" by code_simp
  have p: "''6000'' = int_digits (uint (htons (sa_port (bound_addr (e_udp sample_env)))))"
  proof -
    have "htons 0x7017 = 6000" by (simp add: htons_def)
    moreover have "int_digits 6000 = ''6000''" by (simp add: int_digits_def nat_digits_cases) code_simp
    ultimately show ?thesis by (simp add: sample_env_def)
  qed
  have i: "world_inv 1 sample_world" by (simp add: world_inv_def)
  have no: "\<not> owned 1 sample_world" by (simp add: owned_def sample_world_def)
  from setup_takes_player [OF i _ _ _ _ _ h c t p, of "\<lambda>v. sample_world" msg_init sample_conn] no
  show ?thesis by (auto simp: sample_env_def sample_conn_def msg_init_def)
qed

end
