(* ===== verification/Rtsp_Threads.thy ===== *)
theory Rtsp_Threads
  imports Prelude
begin

text \<open>
  The interleaving of the connection threads of rtsp.c over the player's mutex. Every access to the
  shared variables \<open>playing_mutex\<close>, \<open>playing_thread\<close>, \<open>please_shutdown\<close>, to the RTP session and to the
  player is a step of its own; between two steps any other thread may run. The player thread takes
  part with the one call that can end the program, \<open>rtp_request_resend\<close>. Thread identities are
  not reused.
\<close>

section \<open>Threads and their steps\<close>

datatype request =
    Q_setup
  | Q_teardown
  | Q_flush
  | Q_other

text \<open>Why \<open>rtsp_playing\<close> is called.\<close>

datatype purpose =
    For_teardown
  | For_flush
  | For_take
  | For_close

text \<open>
  Where a thread is: before the test of \<open>please_shutdown\<close> (\<open>Reading\<close>), in \<open>read\<close> (\<open>Blocked\<close>), with a
  request, in \<open>rtsp_playing\<close> (\<open>Ask\<close>, \<open>Probe\<close> with the mutex taken for a moment, \<open>Answer\<close>), in
  \<open>rtsp_take_player\<close> (\<open>Try\<close>, \<open>Wait\<close>, \<open>Own\<close>), in the rest of \<open>handle_setup\<close>, or at the end of the
  conversation.
\<close>

datatype pc =
    Not_started
  | Reading
  | Blocked
  | Request request
  | Ask purpose
  | Probe purpose
  | Answer purpose bool
  | Try
  | Wait
  | Own
  | Setup
  | Start
  | Stop_rtp
  | Stop_player
  | Reset_flag
  | Unlock
  | Done

record threads =
  g_mutex :: "nat option"
  g_playing :: "nat option"
  g_shut :: bool
  g_rtp :: bool
  g_player :: bool
  g_dead :: "string option"
  g_pc :: "nat \<Rightarrow> pc"

definition threads_initial :: threads where
  "threads_initial = \<lparr>g_mutex = None, g_playing = None, g_shut = False, g_rtp = False, g_player = False,
     g_dead = None, g_pc = \<lambda>t. Not_started\<rparr>"

text \<open>What the outside decides: the next request, the end of the connection, or a read cut short.\<close>

datatype choice =
    Get request
  | Closed
  | Again

definition at :: "nat \<Rightarrow> pc \<Rightarrow> threads \<Rightarrow> threads" where
  "at t p g = g\<lparr>g_pc := (g_pc g)(t := p)\<rparr>"

definition after_playing :: "purpose \<Rightarrow> bool \<Rightarrow> nat \<Rightarrow> threads \<Rightarrow> threads" where
  "after_playing why yes t g =
     (case why of
        For_teardown \<Rightarrow> at t Reading (if yes then g\<lparr>g_shut := True\<rparr> else g)
      | For_flush \<Rightarrow> at t Reading g
      | For_take \<Rightarrow> at t (if yes then Setup else Try) g
      | For_close \<Rightarrow> at t (if yes then Stop_rtp else Done) g)"

definition thread_step :: "nat \<Rightarrow> choice \<Rightarrow> threads \<Rightarrow> threads option" where
  "thread_step t c g =
     (case g_pc g t of
        Not_started \<Rightarrow> Some (at t Reading g)
      | Reading \<Rightarrow> Some (at t (if g_shut g then Ask For_close else Blocked) g)
      | Blocked \<Rightarrow>
          Some (at t (case c of Get q \<Rightarrow> Request q | Closed \<Rightarrow> Ask For_close | Again \<Rightarrow> Reading) g)
      | Request q \<Rightarrow>
          Some (at t (case q of Q_setup \<Rightarrow> Ask For_take | Q_teardown \<Rightarrow> Ask For_teardown
                      | Q_flush \<Rightarrow> Ask For_flush | Q_other \<Rightarrow> Reading) g)
      | Ask why \<Rightarrow>
          (case g_mutex g of
             Some u \<Rightarrow> Some (at t (Answer why (g_playing g = Some t)) g)
           | None \<Rightarrow> Some (at t (Probe why) (g\<lparr>g_mutex := Some t\<rparr>)))
      | Probe why \<Rightarrow> Some (at t (Answer why False) (g\<lparr>g_mutex := None\<rparr>))
      | Answer why yes \<Rightarrow> Some (after_playing why yes t g)
      | Try \<Rightarrow>
          (case g_mutex g of
             None \<Rightarrow> Some (at t Own (g\<lparr>g_mutex := Some t\<rparr>))
           | Some u \<Rightarrow> Some (at t Wait (g\<lparr>g_shut := True\<rparr>)))
      | Wait \<Rightarrow>
          (case g_mutex g of
             None \<Rightarrow> Some (at t Own (g\<lparr>g_mutex := Some t\<rparr>))
           | Some u \<Rightarrow> None)
      | Own \<Rightarrow> Some (at t Setup (g\<lparr>g_playing := Some t\<rparr>))
      | Setup \<Rightarrow>
          Some (if g_rtp g then g\<lparr>g_dead := Some ''rtp_setup called with active stream!''\<rparr>
                else at t Start (g\<lparr>g_rtp := True\<rparr>))
      | Start \<Rightarrow> Some (at t Reading (g\<lparr>g_player := True\<rparr>))
      | Stop_rtp \<Rightarrow>
          Some (if \<not> g_rtp g then g\<lparr>g_dead := Some ''rtp_shutdown called without active stream!''\<rparr>
                else at t Stop_player (g\<lparr>g_rtp := False\<rparr>))
      | Stop_player \<Rightarrow> Some (at t Reset_flag (g\<lparr>g_player := False\<rparr>))
      | Reset_flag \<Rightarrow> Some (at t Unlock (g\<lparr>g_shut := False\<rparr>))
      | Unlock \<Rightarrow> Some (at t Done (g\<lparr>g_mutex := None\<rparr>))
      | Done \<Rightarrow> None)"

text \<open>The player thread asks for lost packets.\<close>

definition player_step :: "threads \<Rightarrow> threads option" where
  "player_step g =
     (if \<not> g_player g then None
      else if \<not> g_rtp g then Some (g\<lparr>g_dead := Some ''rtp_request_resend called without active stream!''\<rparr>)
      else Some g)"

inductive step :: "threads \<Rightarrow> threads \<Rightarrow> bool" where
  conn: "g_dead g = None \<Longrightarrow> thread_step t c g = Some g' \<Longrightarrow> step g g'"
| player: "g_dead g = None \<Longrightarrow> player_step g = Some g' \<Longrightarrow> step g g'"

inductive_cases step_cases: "step g g'"

abbreviation reachable :: "threads \<Rightarrow> bool" where
  "reachable g \<equiv> step\<^sup>*\<^sup>* threads_initial g"

section \<open>The invariant\<close>

fun holds_mutex :: "pc \<Rightarrow> bool" where
  "holds_mutex (Probe why) = True"
| "holds_mutex (Answer why yes) = yes"
| "holds_mutex Own = True"
| "holds_mutex Setup = True"
| "holds_mutex Start = True"
| "holds_mutex Stop_rtp = True"
| "holds_mutex Stop_player = True"
| "holds_mutex Reset_flag = True"
| "holds_mutex Unlock = True"
| "holds_mutex p = False"

fun never_holds :: "pc \<Rightarrow> bool" where
  "never_holds Not_started = True"
| "never_holds (Answer why yes) = (\<not> yes)"
| "never_holds Try = True"
| "never_holds Wait = True"
| "never_holds Done = True"
| "never_holds p = False"

text \<open>Is the thread that has the mutex the player's owner, and how far is it?\<close>

fun owns :: "pc \<Rightarrow> bool" where
  "owns (Probe why) = False"
| "owns Own = False"
| "owns p = True"

fun session_as :: "pc \<Rightarrow> bool \<Rightarrow> bool \<Rightarrow> bool" where
  "session_as Setup rtp player = (rtp = player)"
| "session_as Start rtp player = (rtp \<and> \<not> player)"
| "session_as Stop_player rtp player = (\<not> rtp \<and> player)"
| "session_as Reset_flag rtp player = (\<not> rtp \<and> \<not> player)"
| "session_as Unlock rtp player = (\<not> rtp \<and> \<not> player)"
| "session_as p rtp player = (rtp \<and> player)"

definition inv :: "threads \<Rightarrow> bool" where
  "inv g \<longleftrightarrow>
     (\<forall>t. holds_mutex (g_pc g t) \<longrightarrow> g_mutex g = Some t) \<and>
     (\<forall>t. never_holds (g_pc g t) \<longrightarrow> g_mutex g \<noteq> Some t) \<and>
     (\<forall>t. g_playing g = Some t \<longrightarrow> g_mutex g \<noteq> Some t \<or> \<not> owns (g_pc g t) \<longrightarrow> g_pc g t = Done) \<and>
     (case g_mutex g of
        None \<Rightarrow> \<not> g_rtp g \<and> \<not> g_player g
      | Some t \<Rightarrow>
          if owns (g_pc g t) then g_playing g = Some t \<and> session_as (g_pc g t) (g_rtp g) (g_player g)
          else \<not> g_rtp g \<and> \<not> g_player g)"

lemma inv_initial: "inv threads_initial"
  by (simp add: inv_def threads_initial_def)

text \<open>A thread moves and only its place changes: nothing it does not own may depend on the place.\<close>

lemma g_at [simp]:
  "g_mutex (at t p g) = g_mutex g" "g_playing (at t p g) = g_playing g" "g_shut (at t p g) = g_shut g"
  "g_rtp (at t p g) = g_rtp g" "g_player (at t p g) = g_player g" "g_dead (at t p g) = g_dead g"
  "g_pc (at t p g) = (g_pc g)(t := p)"
  by (simp_all add: at_def)

lemma inv_move:
  assumes "inv g" "g_mutex g \<noteq> Some t" "\<not> holds_mutex p" "p = Done \<or> g_pc g t \<noteq> Done"
  shows "inv (at t p g)"
  using assms by (auto simp: inv_def split: option.splits if_splits)

lemma inv_owner_move:
  assumes "inv g" "g_mutex g = Some t" "owns (g_pc g t)" "owns p" "\<not> never_holds p"
    and "session_as p (g_rtp g) (g_player g)"
  shows "inv (at t p g)"
  using assms by (auto simp: inv_def split: option.splits if_splits)

lemma inv_shut: "inv (g\<lparr>g_shut := b\<rparr>) = inv g" "inv (g\<lparr>g_dead := d\<rparr>) = inv g"
  by (auto simp: inv_def split: option.splits)

lemma inv_step:
  assumes "inv g" "thread_step t c g = Some g'"
  shows "inv g'"
proof (cases "g_mutex g = Some t")
  case True
  have own: "owns (g_pc g t) \<Longrightarrow> g_playing g = Some t \<and> session_as (g_pc g t) (g_rtp g) (g_player g)"
    "\<not> owns (g_pc g t) \<Longrightarrow> \<not> g_rtp g \<and> \<not> g_player g" "\<not> never_holds (g_pc g t)"
    using assms(1) True by (auto simp: inv_def)
  show ?thesis
  proof (cases "g_pc g t")
    case (Probe x6) then show ?thesis using assms True own by (auto simp: thread_step_def inv_def split: if_splits)
  next case Own then show ?thesis using assms True own by (auto simp: thread_step_def inv_def split: if_splits)
  next case Setup then show ?thesis using assms True own by (auto simp: thread_step_def inv_def split: if_splits)
  next case Start then show ?thesis using assms True own by (auto simp: thread_step_def inv_def split: if_splits)
  next case Stop_rtp then show ?thesis using assms True own by (auto simp: thread_step_def inv_def split: if_splits)
  next case Stop_player then show ?thesis using assms True own by (auto simp: thread_step_def inv_def split: if_splits)
  next case Reset_flag then show ?thesis using assms True own by (auto simp: thread_step_def inv_def split: if_splits)
  next case Unlock then show ?thesis using assms True own by (auto simp: thread_step_def inv_def split: if_splits)
  next case Reading
    then show ?thesis using assms True own
      by (cases "g_shut g") (auto simp: thread_step_def intro!: inv_owner_move)
  next case Blocked
    then show ?thesis using assms True own
      by (auto simp: thread_step_def split: choice.splits intro!: inv_owner_move)
  next case (Request x4)
    then show ?thesis using assms True own
      by (auto simp: thread_step_def split: request.splits intro!: inv_owner_move)
  next case (Ask x5)
    then show ?thesis using assms True own
      by (auto simp: thread_step_def intro!: inv_owner_move)
  next case (Answer x71 x72)
    then show ?thesis using assms True own
      by (auto simp: thread_step_def after_playing_def inv_shut split: purpose.splits if_splits intro!: inv_owner_move)
  qed (use own(3) in simp_all)
next
  case False
  have free: "\<not> holds_mutex (g_pc g t)" "g_pc g t \<noteq> Done"
    using assms False by (auto simp: inv_def thread_step_def)
  show ?thesis
  proof (cases "g_pc g t")
    case (Ask x5)
    show ?thesis
    proof (cases "g_mutex g")
      case None
      then show ?thesis using assms Ask by (auto simp: thread_step_def inv_def split: if_splits)
    next
      case (Some u)
      have "g_playing g \<noteq> Some t" using assms(1) Ask False by (auto simp: inv_def)
      then show ?thesis using assms Ask Some False by (auto simp: thread_step_def intro!: inv_move)
    qed
  next case Try
    show ?thesis
    proof (cases "g_mutex g")
      case None
      then show ?thesis using assms Try by (auto simp: thread_step_def inv_def split: if_splits)
    next
      case (Some u)
      then show ?thesis using assms False Try by (auto simp: thread_step_def inv_shut intro!: inv_move)
    qed
  next case Wait
    then show ?thesis using assms False free
      by (cases "g_mutex g") (auto simp: thread_step_def inv_def split: if_splits)
  next case Not_started then show ?thesis using assms False free by (auto simp: thread_step_def intro!: inv_move)
  next case Reading then show ?thesis using assms False free by (cases "g_shut g") (auto simp: thread_step_def intro!: inv_move)
  next case Blocked then show ?thesis using assms False free
      by (auto simp: thread_step_def split: choice.splits intro!: inv_move)
  next case (Request x4) then show ?thesis using assms False free
      by (auto simp: thread_step_def split: request.splits intro!: inv_move)
  next case (Answer x71 x72) then show ?thesis using assms False free
      by (auto simp: thread_step_def after_playing_def split: purpose.splits intro!: inv_move)
  qed (use free in simp_all)
qed

lemma inv_reachable: "reachable g \<Longrightarrow> inv g"
proof (induction rule: rtranclp_induct)
  case (step g g')
  from step.hyps(2) show ?case
  proof cases
    case (conn t c)
    with step.IH show ?thesis by (auto intro: inv_step)
  next
    case player
    with step.IH show ?thesis by (auto simp: player_step_def inv_shut split: if_splits)
  qed
qed (rule inv_initial)

lemma inv_facts:
  assumes "inv g"
  shows "holds_mutex (g_pc g t) \<Longrightarrow> g_mutex g = Some t"
    "never_holds (g_pc g t) \<Longrightarrow> g_mutex g \<noteq> Some t"
    "g_mutex g = Some t \<Longrightarrow> owns (g_pc g t) \<Longrightarrow>
       g_playing g = Some t \<and> session_as (g_pc g t) (g_rtp g) (g_player g)"
    "g_player g \<Longrightarrow> \<exists>u. g_mutex g = Some u \<and> owns (g_pc g u)"
  using assms by (auto simp: inv_def split: option.splits if_splits)

text \<open>How a step can end the program.\<close>

lemma step_dies:
  assumes "step g g'" "inv g" "g_dead g' = Some m"
  shows "(\<exists>t. g_mutex g = Some t \<and> g_pc g t = Setup \<and> g_rtp g \<and> g_player g \<and>
      m = ''rtp_setup called with active stream!'') \<or>
    (\<exists>t. g_mutex g = Some t \<and> g_pc g t = Stop_player \<and>
      m = ''rtp_request_resend called without active stream!'')"
  using assms(1)
proof cases
  case (conn t c)
  note f = inv_facts(1,2,3) [OF assms(2), of t]
  show ?thesis
  proof (cases "g_pc g t")
    case Setup
    then show ?thesis using conn assms(3) f(1,3) by (auto simp: thread_step_def split: if_splits)
  next
    case Stop_rtp
    then show ?thesis using conn assms(3) f(1,3) by (auto simp: thread_step_def split: if_splits)
  qed (use conn assms(3) in \<open>auto simp: thread_step_def after_playing_def split: option.splits purpose.splits if_splits\<close>)
next
  case player
  then have p: "g_player g" "\<not> g_rtp g" "m = ''rtp_request_resend called without active stream!''"
    using assms(3) by (auto simp: player_step_def split: if_splits)
  obtain u where u: "g_mutex g = Some u" "owns (g_pc g u)" using inv_facts(4) [OF assms(2) p(1)] by auto
  then have "session_as (g_pc g u) (g_rtp g) (g_player g)" using inv_facts(3) [OF assms(2)] by simp
  then have "g_pc g u = Stop_player" using p(1,2) by (cases "g_pc g u") auto
  then show ?thesis using u p(3) by auto
qed

text \<open>
  C12: in every state the threads can reach, the player and the RTP session are set up and shut down
  only by the thread that has the mutex and is the playing thread, a running player has such an
  owner, and \<open>rtsp_playing\<close> answers yes to the owner alone; the program can die only when the owner
  sets up a second time, or in the player thread between the owner's \<open>rtp_shutdown\<close> and
  \<open>player_stop\<close>.
\<close>

theorem player_has_one_owner:
  assumes "reachable g"
  shows "(\<forall>t. g_pc g t \<in> {Setup, Start, Stop_rtp, Stop_player, Reset_flag, Unlock} \<longrightarrow>
      g_mutex g = Some t \<and> g_playing g = Some t) \<and>
    (g_player g \<longrightarrow> (\<exists>t. g_mutex g = Some t \<and> g_playing g = Some t)) \<and>
    (\<forall>t why yes. g_pc g t = Answer why yes \<longrightarrow> yes = (g_mutex g = Some t)) \<and>
    (\<forall>g' m. step g g' \<and> g_dead g' = Some m \<longrightarrow>
      (\<exists>t. g_mutex g = Some t \<and> (g_pc g t = Setup \<and> g_rtp g \<or> g_pc g t = Stop_player)))"
proof -
  have i: "inv g" by (rule inv_reachable [OF assms])
  note f = inv_facts [OF i]
  have "g_mutex g = Some t \<and> g_playing g = Some t"
    if "g_pc g t \<in> {Setup, Start, Stop_rtp, Stop_player, Reset_flag, Unlock}" for t
    using that f(1,3) [of t] by auto
  moreover have "yes = (g_mutex g = Some t)" if "g_pc g t = Answer why yes" for t why yes
    using that f(1,2) [of t] by (cases yes) auto
  moreover have "\<exists>t. g_mutex g = Some t \<and> g_playing g = Some t" if "g_player g"
    using f(4) [OF that] f(3) by blast
  ultimately show ?thesis using step_dies [OF _ i] by blast
qed

section \<open>Runs\<close>

datatype turn =
    Conn nat choice
  | Player

fun run :: "turn list \<Rightarrow> threads \<Rightarrow> threads option" where
  "run [] g = Some g"
| "run (x # xs) g =
     (if g_dead g \<noteq> None then None
      else
        case (case x of Conn t c \<Rightarrow> thread_step t c g | Player \<Rightarrow> player_step g) of
          None \<Rightarrow> None
        | Some g' \<Rightarrow> run xs g')"

lemma run_steps: "run xs g = Some g' \<Longrightarrow> step\<^sup>*\<^sup>* g g'"
proof (induction xs arbitrary: g)
  case (Cons x xs)
  then obtain h where h: "g_dead g = None" "run xs h = Some g'"
    "(case x of Conn t c \<Rightarrow> thread_step t c g | Player \<Rightarrow> player_step g) = Some h"
    by (auto split: if_splits option.splits)
  then have "step g h" by (cases x) (auto intro: step.intros)
  with Cons.IH [OF h(2)] show ?case by (rule converse_rtranclp_into_rtranclp [rotated])
qed simp

lemma run_keeps:
  "run xs g = Some g' \<Longrightarrow> \<forall>c. Conn t c \<notin> set xs \<Longrightarrow> g_pc g' t = g_pc g t"
proof (induction xs arbitrary: g)
  case (Cons x xs)
  then obtain h where h: "run xs h = Some g'"
    "(case x of Conn t c \<Rightarrow> thread_step t c g | Player \<Rightarrow> player_step g) = Some h"
    by (auto split: if_splits option.splits)
  have "g_pc h t = g_pc g t"
  proof (cases x)
    case (Conn u c)
    then have "u \<noteq> t" "thread_step u c g = Some h" using Cons.prems(2) h(2) by auto
    then show ?thesis
      by (cases "g_pc g u") (auto simp: thread_step_def after_playing_def split: option.splits purpose.splits if_splits)
  qed (use h(2) in \<open>auto simp: player_step_def split: if_splits\<close>)
  then show ?case using Cons.IH [OF h(1)] Cons.prems(2) by simp
qed simp

theorem player_has_one_owner_witness:
  "\<exists>g. run (map (\<lambda>c. Conn 1 c) ([Again, Again, Get Q_setup] @ replicate 8 Again)) threads_initial = Some g \<and>
    g_player g \<and> (\<exists>t. g_mutex g = Some t \<and> g_playing g = Some t)"
proof -
  let ?xs = "map (\<lambda>c. Conn 1 c) ([Again, Again, Get Q_setup] @ replicate 8 Again)"
  have "(case run ?xs threads_initial of Some g \<Rightarrow> g_player g | None \<Rightarrow> False)" by code_simp
  then obtain g where g: "run ?xs threads_initial = Some g" "g_player g" by (auto split: option.splits)
  from player_has_one_owner [OF run_steps [OF g(1)]] g show ?thesis by blast
qed

section \<open>A new owner\<close>

lemma no_deadlock:
  assumes "inv g" "g_pc g u = Wait" "g_mutex g = Some t"
  shows "t \<noteq> u \<and> thread_step t c g \<noteq> None"
proof -
  note f = inv_facts [OF assms(1)]
  have n: "\<not> never_holds (g_pc g t)" using f(2) assms(3) by blast
  then have "thread_step t c g \<noteq> None"
    by (cases "g_pc g t") (auto simp: thread_step_def split: option.splits)
  moreover have "t \<noteq> u" using n assms(2) by auto
  ultimately show ?thesis by simp
qed


text \<open>Two connections up to the point where the second waits for the player.\<close>

definition first_plays :: "turn list" where
  "first_plays = map (\<lambda>c. Conn 1 c) ([Again, Again, Get Q_setup] @ replicate 9 Again)"

definition second_asks :: "turn list" where
  "second_asks = map (\<lambda>c. Conn 2 c) ([Again, Again, Get Q_setup] @ replicate 3 Again)"


text \<open>
  C36: the two races of the shutdown. The request of a second connection can come between the
  owner's reset of \<open>please_shutdown\<close> and its release of the mutex; then the flag is still up when
  the second connection plays, with nobody waiting, and that connection closes itself at its next
  read. And a player thread that misses a packet between \<open>rtp_shutdown\<close> and \<open>player_stop\<close> ends the
  program.
\<close>

theorem shutdown_races:
  "(\<exists>g. reachable g \<and> g_dead g = None \<and> g_mutex g = Some 2 \<and> g_player g \<and> g_pc g 2 = Reading \<and> g_shut g \<and>
      g_pc g ` (UNIV - {2}) \<subseteq> {Not_started, Done}) \<and>
   (\<exists>g. reachable g \<and> g_dead g = Some ''rtp_request_resend called without active stream!'')"
proof -
  let ?close = "Conn 1 Closed # replicate 5 (Conn 1 Again)"
  let ?xs = "first_plays @ second_asks @ ?close @ [Conn 2 Again, Conn 1 Again] @ replicate 4 (Conn 2 Again)"
  let ?ys = "first_plays @ Conn 1 Closed # replicate 3 (Conn 1 Again) @ [Player]"
  have "(case run ?xs threads_initial of
      Some g \<Rightarrow> g_dead g = None \<and> g_mutex g = Some 2 \<and> g_player g \<and> g_pc g 2 = Reading \<and> g_shut g \<and> g_pc g 1 = Done
    | None \<Rightarrow> False)" by code_simp
  then obtain g where g: "run ?xs threads_initial = Some g" "g_dead g = None" "g_mutex g = Some 2" "g_player g"
    "g_pc g 2 = Reading" "g_shut g" "g_pc g 1 = Done" by (auto split: option.splits)
  have "(case run ?ys threads_initial of
      Some g \<Rightarrow> g_dead g = Some ''rtp_request_resend called without active stream!'' | None \<Rightarrow> False)" by code_simp
  then obtain h where h: "run ?ys threads_initial = Some h"
    "g_dead h = Some ''rtp_request_resend called without active stream!''" by (auto split: option.splits)
  have others: "g_pc g t = Not_started" if "t \<noteq> 1" "t \<noteq> 2" for t
    using run_keeps [OF g(1), of t] that by (auto simp: threads_initial_def first_plays_def second_asks_def)
  have others_over: "g_pc g ` (UNIV - {2}) \<subseteq> {Not_started, Done}" using others g(7) by (metis (no_types, lifting) DiffE image_subsetI insertCI)
  show ?thesis
    using run_steps [OF g(1)] run_steps [OF h(1)] g h(2) others_over by blast
qed

end
