(* ===== verification/Rtsp_Listen.thy ===== *)
theory Rtsp_Listen
  imports Prelude "HOL-Library.Multiset"
begin

text \<open>
  The listening side of rtsp.c: the sockets it binds, the connections it accepts, and the list of
  connection threads with \<open>track_thread\<close> and \<open>cleanup_threads\<close>. What the sockets answer are
  arguments.
\<close>

section \<open>The list of connections\<close>

record conn_entry =
  ce_thread :: nat
  ce_running :: bool

text \<open>The used part of the array \<open>conns\<close>; \<open>nconns\<close> is its length.\<close>

definition track_thread :: "conn_entry list \<Rightarrow> conn_entry \<Rightarrow> conn_entry list" where
  "track_thread conns conn = conns @ [conn]"

text \<open>
  An ended thread is joined and the last entry takes its place. The result is what is left, and the
  threads that were joined.
\<close>

function cleanup_loop :: "conn_entry list \<Rightarrow> nat \<Rightarrow> conn_entry list \<times> nat list" where
  "cleanup_loop conns i =
     (if i < length conns then
        if \<not> ce_running (conns ! i) then
          let joined = ce_thread (conns ! i);
              nconns = length conns - 1;
              conns = (if nconns \<noteq> 0 then conns[i := conns ! nconns] else conns);
              (left, js) = cleanup_loop (take nconns conns) i
          in (left, joined # js)
        else cleanup_loop conns (i + 1)
      else (conns, []))"
  by pat_completeness auto
termination by (relation "measure (\<lambda>(conns, i). length conns - i)") auto

declare cleanup_loop.simps [simp del]

definition cleanup_threads :: "conn_entry list \<Rightarrow> conn_entry list \<times> nat list" where
  "cleanup_threads conns = cleanup_loop conns 0"

section \<open>Listening\<close>

text \<open>One address of \<open>getaddrinfo\<close>: can its socket be set up and bound?\<close>

fun bind_sockets :: "bool list \<Rightarrow> nat" where
  "bind_sockets [] = 0"
| "bind_sockets (ok # infos) = (if ok then Suc (bind_sockets infos) else bind_sockets infos)"

text \<open>What happens to the loop: \<open>select\<close> returns, or a connection thread ends.\<close>

datatype listen_event =
    Select_interrupted
  | Select_failed
  | Select_timeout
  | Accept_failed
  | Accepted nat bool
  | Conversation_over nat

definition mark_over :: "nat \<Rightarrow> conn_entry list \<Rightarrow> conn_entry list" where
  "mark_over t conns = map (\<lambda>c. if ce_thread c = t then c\<lparr>ce_running := False\<rparr> else c) conns"

fun listen_loop :: "conn_entry list \<Rightarrow> listen_event list \<Rightarrow> fault + (conn_entry list \<times> nat list)" where
  "listen_loop conns [] = Inr (conns, [])"
| "listen_loop conns (ev # evs) =
     (case ev of
        Conversation_over t \<Rightarrow> listen_loop (mark_over t conns) evs
      | Select_interrupted \<Rightarrow> listen_loop conns evs
      | Select_failed \<Rightarrow> Inl (Die ''fell out of the RTSP select loop'')
      | _ \<Rightarrow>
          let (conns, joined) = cleanup_threads conns;
              next_turn = (\<lambda>conns. case listen_loop conns evs of
                 Inl e \<Rightarrow> Inl e
               | Inr (conns, js) \<Rightarrow> Inr (conns, joined @ js))
          in
            case ev of
              Accepted t created \<Rightarrow>
                if \<not> created then Inl (Die ''Failed to create RTSP receiver thread!'')
                else next_turn (track_thread conns \<lparr>ce_thread = t, ce_running = True\<rparr>)
            | _ \<Rightarrow> next_turn conns)"

definition rtsp_listen_loop :: "int \<Rightarrow> bool list \<Rightarrow> listen_event list \<Rightarrow> fault + (conn_entry list \<times> nat list)" where
  "rtsp_listen_loop gai_ret infos evs =
     (if gai_ret \<noteq> 0 then Inl (Die ''getaddrinfo failed'')
      else if bind_sockets infos = 0 then Inl (Die ''could not bind any listen sockets!'')
      else listen_loop [] evs)"

section \<open>The property\<close>

lemma mset_remove_last:
  assumes "i < length xs"
  shows "mset (take (length xs - 1) (if length xs - 1 \<noteq> 0 then xs[i := xs ! (length xs - 1)] else xs)) =
    mset xs - {#xs ! i#}"
proof (cases xs rule: rev_cases)
  case (snoc ys y)
  show ?thesis
  proof (cases "i < length ys")
    case True
    then have "take (length ys) ((ys @ [y])[i := y]) = ys[i := y]" by (simp add: list_update_append)
    moreover have "mset (ys[i := y]) = add_mset y (mset ys - {#ys ! i#})" using True by (rule mset_update)
    ultimately show ?thesis using snoc True by (auto simp: nth_append)
  next
    case False
    then have "i = length ys" using assms snoc by simp
    then show ?thesis using snoc by (auto simp: list_update_append)
  qed
qed (use assms in simp)

lemma cleanup_loop_mset:
  "cleanup_loop conns i = (left, js) \<Longrightarrow> \<forall>c \<in> set (take i conns). ce_running c \<Longrightarrow>
    mset left = filter_mset ce_running (mset conns) \<and>
    mset js = image_mset ce_thread (filter_mset (\<lambda>c. \<not> ce_running c) (mset conns))"
proof (induction conns i arbitrary: left js rule: cleanup_loop.induct)
  case (1 conns i)
  show ?case
  proof (cases "i < length conns")
    case lt: True
    show ?thesis
    proof (cases "ce_running (conns ! i)")
      case False
      let ?c = "if length conns - 1 \<noteq> 0 then conns[i := conns ! (length conns - 1)] else conns"
      let ?rest = "take (length conns - 1) ?c"
      have "cleanup_loop conns i = (case cleanup_loop ?rest i of (left, js) \<Rightarrow> (left, ce_thread (conns ! i) # js))"
        using lt False by (subst cleanup_loop.simps) (simp only: Let_def if_True simp_thms)
      then obtain js' where js: "js = ce_thread (conns ! i) # js'" "cleanup_loop ?rest i = (left, js')"
        using 1(3) by (cases "cleanup_loop ?rest i") (simp only: prod.case prod.inject)
      have t: "take i ?rest = take i conns" using lt by (auto simp: min_def)
      have m: "mset ?rest = mset conns - {#conns ! i#}" by (rule mset_remove_last [OF lt])
      have "mset left = filter_mset ce_running (mset ?rest) \<and>
          mset js' = image_mset ce_thread (filter_mset (\<lambda>c. \<not> ce_running c) (mset ?rest))"
        using 1(1) [OF lt False refl refl refl js(2)] 1(4) unfolding t by blast
      moreover have "mset conns = add_mset (conns ! i) (mset conns - {#conns ! i#})"
        using insert_DiffM [OF nth_mem_mset [OF lt]] by simp
      ultimately show ?thesis using False js(1) m
        by (metis (no_types, lifting) filter_mset_add_mset image_mset_add_mset mset.simps(2))
    next
      case True
      have "take (i + 1) conns = take i conns @ [conns ! i]" using lt by (simp add: take_Suc_conv_app_nth)
      then have "\<forall>c \<in> set (take (i + 1) conns). ce_running c" using 1(4) True by auto
      moreover have "cleanup_loop conns (i + 1) = (left, js)"
        using 1(3) [unfolded cleanup_loop.simps [of conns i]] lt True by simp
      ultimately show ?thesis using 1(2) lt True by blast
    qed
  next
    case False
    then have "left = conns" "js = []" using 1(3) [unfolded cleanup_loop.simps [of conns i]] by simp_all
    moreover have "\<forall>c \<in> set conns. ce_running c" using 1(4) False by simp
    ultimately show ?thesis by (simp flip: mset_filter)
  qed
qed

lemma cleanup_threads_mset:
  "mset (fst (cleanup_threads conns)) = filter_mset ce_running (mset conns)"
  "mset (snd (cleanup_threads conns)) = image_mset ce_thread (filter_mset (\<lambda>c. \<not> ce_running c) (mset conns))"
  using cleanup_loop_mset [of conns 0 "fst (cleanup_threads conns)" "snd (cleanup_threads conns)"]
  by (simp_all add: cleanup_threads_def)

text \<open>The threads that were created.\<close>

definition accepted :: "listen_event list \<Rightarrow> nat list" where
  "accepted evs = concat (map (\<lambda>ev. case ev of Accepted t created \<Rightarrow> [t] | _ \<Rightarrow> []) evs)"

lemma cleanup_threads_all:
  "cleanup_threads conns = (left, js) \<Longrightarrow> mset (map ce_thread left) + mset js = mset (map ce_thread conns)"
  using cleanup_threads_mset [of conns] multiset_partition [of "mset conns" ce_running]
  by (simp flip: image_mset_union)

lemma account:
  fixes l :: "nat multiset"
  assumes "l + j' = c + x + a" "c + j = k"
  shows "l + (j + j') = k + (x + a)"
proof -
  have "l + (j + j') = j + (l + j')" by (simp add: ac_simps)
  also have "\<dots> = (c + j) + (x + a)" unfolding assms(1) by (simp add: ac_simps)
  finally show ?thesis by (simp only: assms(2))
qed

lemma accepted_simps [simp]:
  "accepted [] = []" "accepted (Accepted t b # evs) = t # accepted evs"
  "accepted (Conversation_over t # evs) = accepted evs" "accepted (Select_timeout # evs) = accepted evs"
  "accepted (Accept_failed # evs) = accepted evs" "accepted (Select_interrupted # evs) = accepted evs"
  "accepted (Select_failed # evs) = accepted evs"
  by (simp_all add: accepted_def)

lemma listen_loop_accounts:
  "listen_loop conns evs = Inr (left, joined) \<Longrightarrow>
    mset (map ce_thread left) + mset joined = mset (map ce_thread conns) + mset (accepted evs)"
proof (induction evs arbitrary: conns left joined)
  case (Cons ev evs)
  obtain c js where c: "cleanup_threads conns = (c, js)" by fastforce
  note all = cleanup_threads_all [OF c]
  have over: "map ce_thread (mark_over t conns) = map ce_thread conns" for t
    by (simp add: mark_over_def comp_def)
  show ?case
  proof (cases ev)
    case (Accepted t created)
    then obtain js' where l: "listen_loop (track_thread c \<lparr>ce_thread = t, ce_running = True\<rparr>) evs = Inr (left, js')"
      "joined = js @ js'" using Cons.prems c by (auto split: if_splits sum.splits)
    have "mset (map ce_thread left) + mset js' = mset (map ce_thread c) + {#t#} + mset (accepted evs)"
      using Cons.IH [OF l(1)] by (simp add: track_thread_def)
    from account [OF this all] l(2) Accepted show ?thesis by simp
  next
    case (Conversation_over t)
    then show ?thesis using Cons.IH [of "mark_over t conns"] Cons.prems over [of t] by simp
  next
    case Select_timeout
    then obtain js' where l: "listen_loop c evs = Inr (left, js')" "joined = js @ js'"
      using Cons.prems c by (auto split: sum.splits)
    from account [of _ _ _ "{#}", OF _ all] Cons.IH [OF l(1)] l(2) Select_timeout show ?thesis by simp
  next
    case Accept_failed
    then obtain js' where l: "listen_loop c evs = Inr (left, js')" "joined = js @ js'"
      using Cons.prems c by (auto split: sum.splits)
    from account [of _ _ _ "{#}", OF _ all] Cons.IH [OF l(1)] l(2) Accept_failed show ?thesis by simp
  qed (use Cons in simp_all)
qed simp



end
