(* ===== verification/Rtsp_Dmap.thy ===== *)
theory Rtsp_Dmap
  imports Rtsp_Params
begin

text \<open>
  The DMAP metadata of SET\_PARAMETER, the handler of Rtsp\_Params, against the format it reads: an
  item is a tag of four characters, the length of its value as a big-endian number, and the value.
  Well-formed items are read to their end; an item whose length wraps the offset is read for ever.
\<close>

section \<open>The format\<close>

definition byte_char :: "u8 \<Rightarrow> char" where
  "byte_char b = char_of (unat b)"

definition dmap_bytes :: "string \<times> string \<Rightarrow> string" where
  "dmap_bytes item = fst item @ map byte_char (be32_bytes (of_nat (length (snd item)))) @ snd item"

definition dmap_ok :: "string \<times> string \<Rightarrow> bool" where
  "dmap_ok item \<longleftrightarrow> length (fst item) = 4 \<and> NUL \<notin> set (fst item) \<and> NUL \<notin> set (snd item)"

lemma of_byte_char [simp]: "(of_char (byte_char b) :: u8) = b"
proof -
  have "(of_char (byte_char b) :: u8) = of_nat (of_char (byte_char b) :: nat)" by (simp only: of_nat_of_char)
  also have "\<dots> = of_nat (unat b mod 256)" by (simp add: byte_char_def)
  also have "unat b mod 256 = unat b"
  proof -
    have "unat b < 256" by (rule order_less_le_trans [OF unsigned_less]) simp
    then show ?thesis by simp
  qed
  finally show ?thesis by simp
qed

lemma load_be32_bytes:
  "load_be32 (pre @ map byte_char (be32_bytes v) @ t) (length pre) = Inr v"
  by (simp add: load_be32_def be32_bytes_def ntohl_load32)

lemma strncpy_at_text: "NUL \<notin> set s \<Longrightarrow> strncpy_at (pre @ s @ t) (length pre) (length s) = Inr s"
  by (simp add: strncpy_at_def Let_def)

section \<open>One item\<close>

lemma unat_off: "n < 2 ^ 32 \<Longrightarrow> unat (of_nat n :: u32) = n"
  by (rule unat_of_nat_small) simp

lemma dmap_item_read:
  assumes "dmap_ok item" "length (pre @ dmap_bytes item) < 2 ^ 31" "\<And>n. enough n"
  shows "dmap_item (pre @ dmap_bytes item @ t) enough (of_nat (length pre)) =
    Inr (fst item, snd item, of_nat (length (pre @ dmap_bytes item)))"
proof -
  obtain tag val where i: "item = (tag, val)" by (cases item)
  have ok: "length tag = 4" "NUL \<notin> set tag" "NUL \<notin> set val" using assms(1) i by (simp_all add: dmap_ok_def)
  let ?L = "map byte_char (be32_bytes (of_nat (length val)))" and ?n = "length pre"
  have len: "?n + 8 + length val < 2 ^ 31" using assms(2) i ok(1) by (simp add: dmap_bytes_def)
  have b: "pre @ dmap_bytes item @ t = pre @ tag @ ?L @ val @ t" by (simp add: i dmap_bytes_def)
  have offs: "(of_nat ?n :: u32) + 4 = of_nat (?n + 4)" "(of_nat (?n + 4) :: u32) + 4 = of_nat (?n + 8)"
    "(of_nat (?n + 8) :: u32) + of_nat (length val) = of_nat (?n + 8 + length val)" by simp_all
  have un: "unat (of_nat ?n :: u32) = ?n" "unat (of_nat (?n + 4) :: u32) = ?n + 4"
    "unat (of_nat (?n + 8) :: u32) = ?n + 8" "unat (of_nat (length val) :: u32) = length val"
    by (rule unat_off, use len in simp)+
  have t1: "strncpy_at (pre @ tag @ ?L @ val @ t) ?n 4 = Inr tag"
    using strncpy_at_text [OF ok(2), of pre "?L @ val @ t"] ok(1) by simp
  have t2: "load_be32 (pre @ tag @ ?L @ val @ t) (?n + 4) = Inr (of_nat (length val))"
    using load_be32_bytes [of "pre @ tag" "of_nat (length val)" "val @ t"] ok(1) by simp
  have t3: "strncpy_at (pre @ tag @ ?L @ val @ t) (?n + 8) (length val) = Inr val"
    using strncpy_at_text [OF ok(3), of "pre @ tag @ ?L" t] ok(1) by (simp add: add.assoc)
  have "unat (of_nat (length val) + 1 :: u32) = length val + 1"
    using unat_off [of "length val + 1"] len by (simp add: ac_simps)
  then have nz: "(of_nat (length val) + 1 :: u32) \<noteq> 0" by (metis unat_0 add_is_0 one_neq_zero)
  have "dmap_item (pre @ tag @ ?L @ val @ t) enough (of_nat ?n) = Inr (tag, val, of_nat (?n + 8 + length val))"
    unfolding dmap_item_def Let_def offs un t1 sum.case t2 t3 using nz assms(3) offs by simp
  moreover have "length (pre @ dmap_bytes item) = ?n + 8 + length val" using ok(1) by (simp add: i dmap_bytes_def)
  ultimately show ?thesis unfolding b by (simp only: i fst_conv snd_conv)
qed

lemma dmap_loop_read:
  assumes "\<forall>item \<in> set items. dmap_ok item" "length (pre @ concat (map dmap_bytes items)) < 2 ^ 31" "\<And>n. enough n"
    and "cl = length (pre @ concat (map dmap_bytes items))"
  shows "dmap_loop (pre @ concat (map dmap_bytes items) @ t) (of_nat cl) enough (of_nat (length pre)) st =
    Some (Inr (fold (\<lambda>item. dmap_store (fst item) (snd item)) items st))"
  using assms
proof (induction items arbitrary: pre st)
  case Nil
  then show ?case by (subst dmap_loop.simps) simp
next
  case (Cons item items)
  let ?rest = "concat (map dmap_bytes items)"
  have ok: "dmap_ok item" using Cons.prems(1) by simp
  have len: "length (pre @ dmap_bytes item) < 2 ^ 31" using Cons.prems(2) by simp
  have r: "dmap_item (pre @ dmap_bytes item @ ?rest @ t) enough (of_nat (length pre)) =
      Inr (fst item, snd item, of_nat (length (pre @ dmap_bytes item)))"
    by (rule dmap_item_read [OF ok len Cons.prems(3)])
  have "0 < length (dmap_bytes item)" using ok by (simp add: dmap_bytes_def dmap_ok_def)
  then have "length pre < cl" "cl < 2 ^ 32" using Cons.prems(2,4) by simp_all
  then have lt: "(of_nat (length pre) :: u32) < of_nat cl"
    by (simp add: word_less_nat_alt unat_off)
  have "dmap_loop ((pre @ dmap_bytes item) @ ?rest @ t) (of_nat cl) enough (of_nat (length (pre @ dmap_bytes item)))
      (dmap_store (fst item) (snd item) st) =
      Some (Inr (fold (\<lambda>item. dmap_store (fst item) (snd item)) items (dmap_store (fst item) (snd item) st)))"
    by (rule Cons.IH) (use Cons.prems in simp_all)
  then show ?case using lt r by (subst dmap_loop.simps) simp
qed

section \<open>The offset that comes back\<close>

lemma dmap_loop_diverges:
  assumes "dmap_item buf enough off = Inr (tag, val, off)" "off < cl"
  shows "dmap_loop buf cl enough off st = None"
proof -
  have "b = buf \<longrightarrow> c = cl \<longrightarrow> en = enough \<longrightarrow> p = off \<longrightarrow> False"
    if h: "dmap_loop b c en p s = Some r" for b c en p s r
    by (rule dmap_loop.raw_induct [OF _ h]) (clarsimp simp: assms, blast)
  then show ?thesis by (metis not_None_eq)
qed

section \<open>Properties\<close>



text \<open>
  C32: an item with the length 4294967288 brings the 32-bit offset back to its own start: a request
  with such an item first, whatever its tag, is never answered, unless memory for its value is
  refused; the connection's thread loops for ever.
\<close>

theorem wrapping_item_never_ends:
  assumes "length head = 8" "length tag = 4" "NUL \<notin> set tag"
    and "content req = Some (head @ tag @ map byte_char [0xff, 0xff, 0xff, 0xf8] @ NUL # rest)"
    and "8 < contentlength req" "contentlength req < 2 ^ 31" "enough 0xfffffff9"
  shows "handle_set_parameter_metadata enough env req st = None"
proof -
  let ?buf = "head @ tag @ map byte_char [0xff, 0xff, 0xff, 0xf8] @ NUL # rest"
  have be: "be32_bytes 0xfffffff8 = [0xff, 0xff, 0xff, 0xf8]" by (simp add: be32_bytes_def)
  have t1: "strncpy_at ?buf 8 4 = Inr tag"
    using strncpy_at_text [OF assms(3), of head "map byte_char [0xff, 0xff, 0xff, 0xf8] @ NUL # rest"] assms(1,2) by simp
  have t2: "load_be32 ?buf 12 = Inr 0xfffffff8"
    using load_be32_bytes [of "head @ tag" "0xfffffff8" "NUL # rest"] assms(1,2) be by simp
  have d: "drop 16 ?buf = NUL # rest" using assms(1,2) by simp
  have t3: "strncpy_at ?buf 16 4294967288 = Inr ''''"
    unfolding strncpy_at_def Let_def d by (simp add: cstr_def take_Cons')
  have "dmap_item ?buf enough 8 = Inr (tag, '''', 8)"
    unfolding dmap_item_def Let_def using t1 t2 t3 assms(7) by simp
  moreover have "(8 :: u32) < word_of_int (contentlength req)"
  proof -
    have "uint (word_of_int (contentlength req) :: u32) = contentlength req"
      using assms(5,6) by (simp add: uint_word_of_int_eq take_bit_int_eq_self)
    then show ?thesis using assms(5) by (simp add: word_less_def)
  qed
  ultimately have "dmap_loop ?buf (word_of_int (contentlength req)) enough 8 st = None"
    by (rule dmap_loop_diverges)
  then show ?thesis using assms(4) by (simp add: handle_set_parameter_metadata_def content_of_def)
qed

theorem wrapping_item_never_ends_witness:
  "handle_set_parameter_metadata (\<lambda>n. True)
     \<lparr>meta_dir = None, mkfifo_fails = False, mkfifo_exists = False, open_fails = False, has_reader = False\<rparr>
     (msg_init\<lparr>content := Some (''12345678'' @ ''asal'' @ map byte_char [0xff, 0xff, 0xff, 0xf8] @ [NUL]),
               contentlength := 16\<rparr>) meta_initial = None"
  by (rule wrapping_item_never_ends [of "''12345678''" "''asal''"]) simp_all

end
