(* ===== verification/Audio_Devices.thy ===== *)
theory Audio_Devices
  imports Player_Output
begin

text \<open>
  The output backends that drive a sound library: audio_alsa.c, audio_ao.c, audio_pulse.c and
  audio_sndio.c behind the interface \<open>audio_output\<close> of audio.h, the C library's \<open>getopt\<close> their
  options are read with, and the contract between the player and a backend, a locale: what one
  session opens its stop releases.

  What the sound libraries answer is an argument of the operations: a number below 0 or a NULL is
  a failure. The state of a backend has its static variables, and the handles the library has
  open. Output to the terminal is left out.
\<close>

section \<open>getopt of the C library\<close>

text \<open>
  Every option letter of the backends takes an argument. \<open>audio_getopt letters argv\<close> is what the
  calls of \<open>getopt\<close> return in turn: the options with their arguments, and at the end \<open>None\<close> for
  a \<open>?\<close>, an unknown letter or a missing argument, or the words \<open>optind\<close> is left before. The
  first word that is no option ends the options, as POSIX has it.
\<close>

fun audio_getopt :: "string \<Rightarrow> string list \<Rightarrow> (char \<times> string) list \<times> string list option" where
  "audio_getopt letters [] = ([], Some [])"
| "audio_getopt letters (w # ws) =
     (if w = [] \<or> hd w \<noteq> CHR ''-'' \<or> tl w = [] then ([], Some (w # ws))
      else if w = ''--'' then ([], Some ws)
      else if hd (tl w) \<notin> set letters then ([], None)
      else if tl (tl w) \<noteq> [] then
        (let (opts, end) = audio_getopt letters ws in ((hd (tl w), tl (tl w)) # opts, end))
      else
        (case ws of
           [] \<Rightarrow> ([], None)
         | a # ws' \<Rightarrow> (let (opts, end) = audio_getopt letters ws' in ((hd (tl w), a) # opts, end))))"

text \<open>
  The loop over the options that all the \<open>init\<close> functions have, with their switch as \<open>set\<close>. The
  message for a bad option prints what \<open>getopt\<close> returned, the question mark.
\<close>

fun set_options :: "(char \<Rightarrow> string \<Rightarrow> 's \<Rightarrow> fault + 's) \<Rightarrow> (char \<times> string) list \<Rightarrow> 's \<Rightarrow> fault + 's" where
  "set_options sw [] st = Inr st"
| "set_options sw ((c, a) # opts) st = bind_fault (sw c a st) (set_options sw opts)"

definition audio_options ::
    "string \<Rightarrow> (char \<Rightarrow> string \<Rightarrow> 's \<Rightarrow> fault + 's) \<Rightarrow> string list \<Rightarrow> 's \<Rightarrow> fault + 's" where
  "audio_options letters sw argv st =
     (let (opts, end) = audio_getopt letters argv in
      bind_fault (set_options sw opts st)
        (\<lambda>st. case end of
           None \<Rightarrow> Inl (Die ''Invalid audio option -? specified'')
         | Some [] \<Rightarrow> Inr st
         | Some (w # _) \<Rightarrow> Inl (Die (''Invalid audio argument: '' @ w))))"

text \<open>The two ways to write an option, and the words of a list of them.\<close>

definition option_words :: "bool \<Rightarrow> char \<Rightarrow> string \<Rightarrow> string list" where
  "option_words joined c a = (if joined \<and> a \<noteq> [] then [CHR ''-'' # c # a] else [[CHR ''-'', c], a])"

lemma audio_getopt_option:
  assumes "c \<in> set letters" "c \<noteq> CHR ''-''"
  shows "audio_getopt letters (option_words joined c a @ ws) =
    (let (opts, end) = audio_getopt letters ws in ((c, a) # opts, end))"
  using assms by (auto simp: option_words_def)

lemma audio_getopt_options:
  assumes "\<forall>(joined, c, a) \<in> set os. c \<in> set letters \<and> c \<noteq> CHR ''-''"
  shows "audio_getopt letters (concat (map (\<lambda>(joined, c, a). option_words joined c a) os)) =
    (map snd os, Some [])"
  using assms
proof (induction os)
  case (Cons o' os)
  obtain joined c a where "o' = (joined, c, a)" by (cases o')
  with Cons audio_getopt_option [of c letters joined a] show ?case by simp
qed simp

lemma audio_options_ok:
  assumes "\<forall>(joined, c, a) \<in> set os. c \<in> set letters \<and> c \<noteq> CHR ''-''"
  shows "audio_options letters sw (concat (map (\<lambda>(joined, c, a). option_words joined c a) os)) st =
    set_options sw (map snd os) st"
  by (cases "set_options sw (map snd os) st") (simp_all add: audio_options_def audio_getopt_options [OF assms])

section \<open>ALSA\<close>

record alsa =
  alsa_out_dev :: string
  alsa_mix_dev :: "string option"
  alsa_mix_ctrl :: string
  alsa_mix_index :: int
  alsa_has_volume :: bool
  alsa_mix_open :: bool
  alsa_mix_minv :: int
  alsa_mix_range :: int
  alsa_handle :: "nat option"
  alsa_open_pcms :: "nat list"

definition alsa_initial :: alsa where
  "alsa_initial = \<lparr>alsa_out_dev = ''default'', alsa_mix_dev = None, alsa_mix_ctrl = ''Master'',
     alsa_mix_index = 0, alsa_has_volume = False, alsa_mix_open = False, alsa_mix_minv = 0,
     alsa_mix_range = 0, alsa_handle = None, alsa_open_pcms = []\<rparr>"

text \<open>The answers of the mixer calls; the element's volume range is \<open>None\<close> if there is no element.\<close>

record mixer_lib =
  mixer_open_ret :: int
  mixer_attach_ret :: "string \<Rightarrow> int"
  mixer_register_ret :: int
  mixer_load_ret :: int
  mixer_find :: "string \<Rightarrow> int \<Rightarrow> (int \<times> int) option"

definition alsa_option :: "char \<Rightarrow> string \<Rightarrow> alsa \<times> bool \<Rightarrow> fault + alsa \<times> bool" where
  "alsa_option opt arg s =
     (let (st, hardware_mixer) = s in
      if opt = CHR ''d'' then Inr (st\<lparr>alsa_out_dev := arg\<rparr>, hardware_mixer)
      else if opt = CHR ''t'' then Inr (st, hardware_mixer \<or> arg = ''hardware'')
      else if opt = CHR ''m'' then Inr (st\<lparr>alsa_mix_dev := Some arg\<rparr>, hardware_mixer)
      else if opt = CHR ''c'' then Inr (st\<lparr>alsa_mix_ctrl := arg\<rparr>, hardware_mixer)
      else Inr (st\<lparr>alsa_mix_index := atoi arg\<rparr>, hardware_mixer))"

definition alsa_mixer :: "mixer_lib \<Rightarrow> alsa \<Rightarrow> fault + alsa" where
  "alsa_mixer lib st =
     (let mdev = (case alsa_mix_dev st of None \<Rightarrow> alsa_out_dev st | Some d \<Rightarrow> d);
          st = st\<lparr>alsa_mix_dev := Some mdev, alsa_has_volume := True\<rparr>
      in
        if mixer_open_ret lib < 0 then Inl (Die ''Failed to open mixer'')
        else let st = st\<lparr>alsa_mix_open := True\<rparr> in
        if mixer_attach_ret lib mdev < 0 then Inl (Die ''Failed to attach mixer'')
        else if mixer_register_ret lib < 0 then Inl (Die ''Failed to register mixer element'')
        else if mixer_load_ret lib < 0 then Inl (Die ''Failed to load mixer element'')
        else case mixer_find lib (alsa_mix_ctrl st) (alsa_mix_index st) of
          None \<Rightarrow> Inl (Die ''Failed to find mixer element'')
        | Some (minv, maxv) \<Rightarrow> Inr (st\<lparr>alsa_mix_minv := minv, alsa_mix_range := maxv - minv\<rparr>))"

definition alsa_init :: "mixer_lib \<Rightarrow> string list \<Rightarrow> alsa \<Rightarrow> fault + alsa" where
  "alsa_init lib argv st =
     bind_fault (audio_options ''dtmci'' alsa_option argv (st, False))
       (\<lambda>(st, hardware_mixer). if hardware_mixer then alsa_mixer lib st else Inr st)"

text \<open>\<open>pcm\<close> is the handle \<open>snd_pcm_open\<close> makes, if it can; \<open>hw_ret\<close> what \<open>snd_pcm_hw_params\<close> returns.\<close>

definition alsa_start :: "nat option \<times> int \<Rightarrow> int \<Rightarrow> alsa \<Rightarrow> fault + alsa" where
  "alsa_start answer sample_rate st =
     (let (pcm, hw_ret) = answer in
      if sample_rate \<noteq> 44100 then Inl (Die ''Unexpected sample rate!'')
      else case pcm of
        None \<Rightarrow> Inl (Die ''Alsa initialization failed: unable to open pcm device'')
      | Some h \<Rightarrow>
          let st = st\<lparr>alsa_handle := Some h, alsa_open_pcms := h # alsa_open_pcms st\<rparr> in
          if hw_ret < 0 then Inl (Die ''unable to set hw parameters'') else Inr st)"

text \<open>What \<open>snd_pcm_writei\<close> returns, and \<open>snd_pcm_recover\<close> if it is called; the samples are read.\<close>

definition alsa_play :: "(int \<times> int) \<Rightarrow> u16 list \<times> nat \<Rightarrow> alsa \<Rightarrow> fault + alsa" where
  "alsa_play answer frame st =
     (let (write_ret, recover_ret) = answer; (buf, samples) = frame in
      if alsa_handle st = None then Inl Null_pointer
      else if length buf < 2 * samples then Inl Out_of_bounds
      else let err = (if write_ret < 0 then recover_ret else write_ret) in
        if err < 0 then Inl (Die ''Failed to write to PCM device'') else Inr st)"

definition alsa_stop :: "alsa \<Rightarrow> alsa" where
  "alsa_stop st =
     (case alsa_handle st of
        None \<Rightarrow> st
      | Some h \<Rightarrow> st\<lparr>alsa_open_pcms := remove1 h (alsa_open_pcms st), alsa_handle := None\<rparr>)"

definition alsa_deinit :: "alsa \<Rightarrow> alsa" where
  "alsa_deinit st = (let st = alsa_stop st in st\<lparr>alsa_mix_open := False\<rparr>)"

text \<open>A double stored in an integer is cut at the point.\<close>

definition double_to_int :: "real \<Rightarrow> int" where
  "double_to_int x = (if 0 \<le> x then \<lfloor>x\<rfloor> else \<lceil>x\<rceil>)"

text \<open>\<open>set_ret\<close> is what setting the mixer element to the volume returns; the result is that volume.\<close>

definition alsa_volume :: "(int \<Rightarrow> int) \<Rightarrow> alsa \<Rightarrow> real \<Rightarrow> fault + int" where
  "alsa_volume set_ret st v =
     (let alsa_vol = double_to_int (v * of_int (alsa_mix_range st) + of_int (alsa_mix_minv st)) in
      if set_ret alsa_vol \<noteq> 0 then Inl (Die ''Failed to set playback volume'') else Inr alsa_vol)"

section \<open>libao\<close>

record ao =
  ao_dev :: bool
  ao_format :: "nat \<times> nat \<times> nat"

record ao_lib =
  ao_default_driver_id :: int
  ao_driver_id :: "string \<Rightarrow> int"
  ao_open_live :: "int \<Rightarrow> (string \<times> string) list \<Rightarrow> bool"

text \<open>The switch on an option: the driver and the list \<open>ao_opts\<close>.\<close>

definition ao_option ::
    "ao_lib \<Rightarrow> char \<Rightarrow> string \<Rightarrow> int \<times> (string \<times> string) list \<Rightarrow> fault + int \<times> (string \<times> string) list" where
  "ao_option lib opt arg s =
     (let (driver, ao_opts) = s in
      if opt = CHR ''d'' then
        (if ao_driver_id lib arg < 0 then Inl (Die (''could not find ao driver '' @ arg))
         else Inr (ao_driver_id lib arg, ao_opts))
      else if opt = CHR ''i'' then Inr (driver, ao_opts @ [(''id'', arg)])
      else if opt = CHR ''n'' then Inr (driver, ao_opts @ [(''dev'', arg), (''dsp'', arg)])
      else
        (case strchr arg (CHR ''='') of
           None \<Rightarrow> Inl (Die (''Expected an = in audio option '' @ arg))
         | Some mid \<Rightarrow> Inr (driver, ao_opts @ [(takeWhile (\<lambda>c. c \<noteq> CHR ''='') arg, tl mid)])))"

text \<open>The result of \<open>init\<close> is 1 when the device cannot be opened; \<open>main\<close> does not look at it.\<close>

definition ao_init :: "ao_lib \<Rightarrow> string list \<Rightarrow> fault + int \<times> ao" where
  "ao_init lib argv =
     bind_fault (audio_options ''dino'' (ao_option lib) argv (ao_default_driver_id lib, []))
       (\<lambda>(driver, ao_opts).
          let dev = ao_open_live lib driver ao_opts in
          Inr (if dev then 0 else 1, \<lparr>ao_dev = dev, ao_format = (16, 44100, 2)\<rparr>))"

definition ao_deinit :: "ao \<Rightarrow> ao" where
  "ao_deinit st = st\<lparr>ao_dev := False\<rparr>"

definition ao_start :: "int \<Rightarrow> ao \<Rightarrow> fault + ao" where
  "ao_start sample_rate st =
     (if sample_rate \<noteq> 44100 then Inl (Die ''unexpected sample rate!'') else Inr st)"

text \<open>The bytes given to \<open>ao_play\<close>, as shorts; libao does nothing when there is no device.\<close>

definition ao_play :: "u16 list \<Rightarrow> nat \<Rightarrow> ao \<Rightarrow> fault + u16 list" where
  "ao_play buf samples st =
     (if \<not> ao_dev st then Inr []
      else if length buf < 2 * samples then Inl Out_of_bounds
      else Inr (take (2 * samples) buf))"

section \<open>PulseAudio\<close>

record pulse_args =
  pa_server :: "string option"
  pa_sink :: "string option"
  pa_appname :: string

definition pulse_option :: "char \<Rightarrow> string \<Rightarrow> pulse_args \<Rightarrow> fault + pulse_args" where
  "pulse_option opt arg pa =
     (if opt = CHR ''a'' then Inr (pa\<lparr>pa_server := Some arg\<rparr>)
      else if opt = CHR ''s'' then Inr (pa\<lparr>pa_sink := Some arg\<rparr>)
      else Inr (pa\<lparr>pa_appname := arg\<rparr>))"

text \<open>\<open>connects\<close> is whether \<open>pa_simple_new\<close> returns a connection; the state is whether \<open>pa_dev\<close> is set.\<close>

definition pulse_init :: "(pulse_args \<Rightarrow> bool) \<Rightarrow> string \<Rightarrow> string list \<Rightarrow> fault + bool" where
  "pulse_init connects apname argv =
     bind_fault (audio_options ''asn'' pulse_option argv
         \<lparr>pa_server = None, pa_sink = None, pa_appname = apname\<rparr>)
       (\<lambda>pa. if connects pa then Inr True else Inl (Die ''Could not connect to pulseaudio server''))"

definition pulse_deinit :: "bool \<Rightarrow> bool" where
  "pulse_deinit pa_dev = False"

definition pulse_start :: "int \<Rightarrow> bool \<Rightarrow> fault + bool" where
  "pulse_start sample_rate pa_dev =
     (if sample_rate \<noteq> 44100 then Inl (Die ''unexpected sample rate!'') else Inr pa_dev)"

text \<open>A failed write or drain is only reported.\<close>

definition pulse_play :: "u16 list \<Rightarrow> nat \<Rightarrow> bool \<Rightarrow> fault + u16 list" where
  "pulse_play buf samples pa_dev =
     (if length buf < 2 * samples then Inl Out_of_bounds else Inr (take (2 * samples) buf))"

section \<open>sndio\<close>

record sio_par =
  sio_bits :: u32
  sio_bps :: u32
  sio_sig :: u32
  sio_le :: u32
  sio_rate :: u32
  sio_pchan :: u32

text \<open>
  \<open>initpar\<close> is what \<open>sio_initpar\<close> leaves, \<open>SIO_LE_NATIVE\<close> is 1. \<open>sio_open\<close> connects or not;
  \<open>sio_getpar\<close> fails or says which parameters the device has, which need not be the ones that were
  set. The state is the parameters, \<open>None\<close> while \<open>sio\<close> is NULL.
\<close>

definition sndio_wanted :: "sio_par \<Rightarrow> sio_par" where
  "sndio_wanted initpar =
     initpar\<lparr>sio_bits := 16, sio_rate := 44100, sio_pchan := 2, sio_le := 1, sio_sig := 1\<rparr>"

definition sndio_init ::
    "bool \<Rightarrow> sio_par \<Rightarrow> (sio_par \<Rightarrow> bool) \<Rightarrow> (sio_par \<Rightarrow> sio_par option) \<Rightarrow> fault + sio_par option" where
  "sndio_init connects initpar setpar getpar =
     (if \<not> connects then Inl (Die ''sndio: cannot connect to sound server'')
      else if \<not> setpar (sndio_wanted initpar) then Inl (Die ''sndio: failed to set audio parameters'')
      else case getpar (sndio_wanted initpar) of
        None \<Rightarrow> Inl (Die ''sndio: failed to get audio parameters'')
      | Some par \<Rightarrow> Inr (Some par))"

text \<open>\<open>sio_close\<close> is called on whatever \<open>sio\<close> is; it follows the pointer.\<close>

definition sndio_deinit :: "sio_par option \<Rightarrow> fault + sio_par option" where
  "sndio_deinit sio = (case sio of None \<Rightarrow> Inl Null_pointer | Some par \<Rightarrow> Inr None)"

text \<open>The rate is compared as an unsigned number.\<close>

definition sndio_start :: "int \<Rightarrow> sio_par \<Rightarrow> fault + sio_par" where
  "sndio_start sample_rate par =
     (if word_of_int sample_rate \<noteq> sio_rate par then Inl (Die ''unexpected sample rate!'') else Inr par)"

text \<open>\<open>samples * par.bps * par.pchan\<close> bytes are read from the buffer.\<close>

definition sndio_play :: "u16 list \<Rightarrow> nat \<Rightarrow> sio_par \<Rightarrow> fault + u16 list" where
  "sndio_play buf samples par =
     (let bytes = unat (of_nat samples * sio_bps par * sio_pchan par) in
      if 2 * length buf < bytes then Inl Out_of_bounds
      else Inr (take (bytes div 2) buf))"

definition SIO_MAXVOL :: int where
  "SIO_MAXVOL = 127"

definition sndio_volume :: "real \<Rightarrow> u32" where
  "sndio_volume v = word_of_int (double_to_int (v * of_int SIO_MAXVOL))"

section \<open>The contract of a backend with the player\<close>

text \<open>
  What the player calls: a session starts the output, plays frames, stops it. The answers of the
  library are part of the call.
\<close>

datatype ('a, 'b) output_call =
    Call_start 'a
  | Call_play 'b
  | Call_stop

fun run_calls ::
    "('a \<Rightarrow> 's \<Rightarrow> fault + 's) \<Rightarrow> ('b \<Rightarrow> 's \<Rightarrow> fault + 's) \<Rightarrow> ('s \<Rightarrow> 's) \<Rightarrow>
     ('a, 'b) output_call list \<Rightarrow> 's \<Rightarrow> fault + 's" where
  "run_calls start play stop [] st = Inr st"
| "run_calls start play stop (Call_start a # cs) st = bind_fault (start a st) (run_calls start play stop cs)"
| "run_calls start play stop (Call_play b # cs) st = bind_fault (play b st) (run_calls start play stop cs)"
| "run_calls start play stop (Call_stop # cs) st = run_calls start play stop cs (stop st)"

text \<open>Calls that alternate: no start before the stop of the last one, frames only in between.\<close>

fun alternate :: "bool \<Rightarrow> ('a, 'b) output_call list \<Rightarrow> bool" where
  "alternate playing [] \<longleftrightarrow> \<not> playing"
| "alternate playing (Call_start a # cs) \<longleftrightarrow> \<not> playing \<and> alternate True cs"
| "alternate playing (Call_play b # cs) \<longleftrightarrow> playing \<and> alternate True cs"
| "alternate playing (Call_stop # cs) \<longleftrightarrow> playing \<and> alternate False cs"

text \<open>
  The laws: \<open>idle\<close> is the state between sessions, in which nothing is open; \<open>busy\<close> the state in
  one. \<open>held\<close> counts what the backend has open.
\<close>

locale output_backend =
  fixes idle busy :: "'s \<Rightarrow> bool" and held :: "'s \<Rightarrow> nat"
    and start :: "'a \<Rightarrow> 's \<Rightarrow> fault + 's" and play :: "'b \<Rightarrow> 's \<Rightarrow> fault + 's" and stop :: "'s \<Rightarrow> 's"
  assumes idle_held: "idle st \<Longrightarrow> held st = 0"
    and busy_held: "busy st \<Longrightarrow> held st \<le> 1"
    and start_busy: "idle st \<Longrightarrow> start a st = Inr st' \<Longrightarrow> busy st'"
    and play_busy: "busy st \<Longrightarrow> play b st = Inr st' \<Longrightarrow> busy st'"
    and stop_idle: "busy st \<Longrightarrow> idle (stop st)"
begin

lemma calls_state:
  assumes "run_calls start play stop cs st = Inr st'"
    and "alternate playing (cs @ ds)" and "if playing then busy st else idle st"
  shows "\<exists>p. alternate p ds \<and> (if p then busy st' else idle st')"
  using assms
proof (induction cs arbitrary: playing st)
  case Nil
  then show ?case by (intro exI [of _ playing]) auto
next
  case (Cons c cs)
  show ?case
  proof (cases c)
    case (Call_start a)
    with Cons.prems obtain s where s: "start a st = Inr s" "run_calls start play stop cs s = Inr st'"
      by (auto elim: bind_fault_Inr)
    with Call_start Cons.prems start_busy [OF _ s(1)] Cons.IH [OF s(2), of True] show ?thesis by simp
  next
    case (Call_play b)
    with Cons.prems obtain s where s: "play b st = Inr s" "run_calls start play stop cs s = Inr st'"
      by (auto elim: bind_fault_Inr)
    with Call_play Cons.prems play_busy [OF _ s(1)] Cons.IH [OF s(2), of True] show ?thesis by simp
  next
    case Call_stop
    with Cons.prems stop_idle [of st] Cons.IH [of "stop st" False] show ?thesis by simp
  qed
qed

lemma calls_hold_one:
  assumes "run_calls start play stop cs st = Inr st'" "alternate False (cs @ ds)" "idle st"
  shows "held st' \<le> 1"
proof -
  from calls_state [OF assms(1,2)] assms(3) obtain p where "if p then busy st' else idle st'" by auto
  then show ?thesis using busy_held [of st'] idle_held [of st'] by (cases p) simp_all
qed

lemma calls_release:
  assumes "run_calls start play stop cs st = Inr st'" "alternate False cs" "idle st"
  shows "held st' = 0"
proof -
  from calls_state [of cs st st' False "[]"] assms obtain p
    where "alternate p ([] :: ('a, 'b) output_call list)" "if p then busy st' else idle st'" by auto
  then show ?thesis using idle_held [of st'] by simp
qed

end

definition alsa_idle :: "alsa \<Rightarrow> bool" where
  "alsa_idle st \<longleftrightarrow> alsa_handle st = None \<and> alsa_open_pcms st = []"

definition alsa_busy :: "alsa \<Rightarrow> bool" where
  "alsa_busy st \<longleftrightarrow> (\<exists>h. alsa_handle st = Some h \<and> alsa_open_pcms st = [h])"

interpretation alsa_out: output_backend alsa_idle alsa_busy "\<lambda>st. length (alsa_open_pcms st)"
    "\<lambda>(answer, rate). alsa_start answer rate" "\<lambda>(answer, frame). alsa_play answer frame" alsa_stop
proof (unfold_locales, goal_cases)
  case (3 st a st')
  then show ?case
    by (auto simp: alsa_start_def alsa_idle_def alsa_busy_def Let_def split: if_splits option.splits prod.splits)
next
  case (4 st b st')
  then have "st' = st"
    by (auto simp: alsa_play_def Let_def split: if_splits prod.splits)
  with 4 show ?case by simp
qed (auto simp: alsa_idle_def alsa_busy_def alsa_stop_def)

section \<open>Properties\<close>

text \<open>The last argument given with a letter, or the default.\<close>

definition last_arg :: "char \<Rightarrow> 'a \<Rightarrow> (char \<times> 'a) list \<Rightarrow> 'a" where
  "last_arg c dflt opts = fold (\<lambda>(d, a) r. if d = c then a else r) opts dflt"

lemma last_arg_simps [simp]:
  "last_arg c dflt [] = dflt"
  "last_arg c dflt ((d, a) # opts) = last_arg c (if d = c then a else dflt) opts"
  by (simp_all add: last_arg_def)

lemma alsa_option_simps:
  "alsa_option (CHR ''d'') a (st, hw) = Inr (st\<lparr>alsa_out_dev := a\<rparr>, hw)"
  "alsa_option (CHR ''t'') a (st, hw) = Inr (st, hw \<or> a = ''hardware'')"
  "alsa_option (CHR ''m'') a (st, hw) = Inr (st\<lparr>alsa_mix_dev := Some a\<rparr>, hw)"
  "alsa_option (CHR ''c'') a (st, hw) = Inr (st\<lparr>alsa_mix_ctrl := a\<rparr>, hw)"
  "alsa_option (CHR ''i'') a (st, hw) = Inr (st\<lparr>alsa_mix_index := atoi a\<rparr>, hw)"
  by (simp_all add: alsa_option_def)

lemma alsa_switch:
  assumes "\<forall>(c, a) \<in> set opts. c \<in> set ''dtmci''"
  shows "set_options alsa_option opts (st, hw) =
    Inr (st\<lparr>alsa_out_dev := last_arg (CHR ''d'') (alsa_out_dev st) opts,
            alsa_mix_dev := last_arg (CHR ''m'') (alsa_mix_dev st) (map (map_prod id Some) opts),
            alsa_mix_ctrl := last_arg (CHR ''c'') (alsa_mix_ctrl st) opts,
            alsa_mix_index := last_arg (CHR ''i'') (alsa_mix_index st) (map (map_prod id atoi) opts)\<rparr>,
         hw \<or> (CHR ''t'', ''hardware'') \<in> set opts)"
  using assms
proof (induction opts arbitrary: st hw)
  case (Cons o' opts)
  obtain c a where o': "o' = (c, a)" by (cases o')
  with Cons.prems have "c = CHR ''d'' \<or> c = CHR ''t'' \<or> c = CHR ''m'' \<or> c = CHR ''c'' \<or> c = CHR ''i''"
    and r: "\<forall>(c, a) \<in> set opts. c \<in> set ''dtmci''" by auto
  then show ?case
    by (elim disjE) (simp_all add: o' alsa_option_simps Cons.IH [OF r] eq_commute [of "''hardware''" a])
qed simp

text \<open>
  Any list of ALSA options, each written joined or separate, sets what it says, the last one of
  a letter counting; with \<open>-t hardware\<close> among them the mixer is opened on the given device, or the
  output device, and its volume becomes the backend's, else the mixer is left alone.
\<close>

theorem alsa_options_are_set:
  assumes "\<forall>(joined, c, a) \<in> set os. c \<in> set ''dtmci''"
  shows "let opts = map snd os;
      st = alsa_initial\<lparr>alsa_out_dev := last_arg (CHR ''d'') ''default'' opts,
             alsa_mix_dev := last_arg (CHR ''m'') None (map (map_prod id Some) opts),
             alsa_mix_ctrl := last_arg (CHR ''c'') ''Master'' opts,
             alsa_mix_index := last_arg (CHR ''i'') 0 (map (map_prod id atoi) opts)\<rparr>
    in alsa_init lib (concat (map (\<lambda>(joined, c, a). option_words joined c a) os)) alsa_initial =
      (if (CHR ''t'', ''hardware'') \<in> set opts then alsa_mixer lib st else Inr st)"
proof -
  have v: "\<forall>(joined, c, a) \<in> set os. c \<in> set ''dtmci'' \<and> c \<noteq> CHR ''-''" using assms by auto
  have w: "\<forall>(c, a) \<in> set (map snd os). c \<in> set ''dtmci''" using assms by auto
  show ?thesis
    unfolding Let_def alsa_init_def audio_options_ok [OF v] alsa_switch [OF w]
    by (simp add: alsa_initial_def)
qed

theorem alsa_options_are_set_witness:
  "alsa_init lib [''-dhw:0'', ''-i'', ''12'', ''-dhw:1''] alsa_initial =
     Inr (alsa_initial\<lparr>alsa_out_dev := ''hw:1'', alsa_mix_index := 12\<rparr>)"
proof -
  let ?os = "[(True, CHR ''d'', ''hw:0''), (False, CHR ''i'', ''12''), (True, CHR ''d'', ''hw:1'')]"
  have h: "\<forall>(joined, c, a) \<in> set ?os. c \<in> set ''dtmci''" by simp
  have i: "atoi ''12'' = 12" by code_simp
  show ?thesis
    using alsa_options_are_set [OF h, of lib]
    by (simp add: Let_def option_words_def i alsa_initial_def)
qed

lemma double_to_int_between:
  "of_int a \<le> x \<Longrightarrow> x \<le> of_int b \<Longrightarrow> a \<le> double_to_int x \<and> double_to_int x \<le> b"
  unfolding double_to_int_def by (auto simp: le_floor_iff floor_le_iff ceiling_le_iff le_ceiling_iff)

text \<open>
  Whatever volume from the AirPlay range a client sets, a backend with a hardware volume sets
  one in its own range: the ALSA mixer element between its bounds, so that it accepts it, sndio
  between 0 and its maximum; and the loudest AirPlay volume gives the loudest of both.
\<close>

theorem hardware_volume_in_range:
  assumes "f \<le> 0" "0 \<le> alsa_mix_range st"
    and "\<forall>k. alsa_mix_minv st \<le> k \<and> k \<le> alsa_mix_minv st + alsa_mix_range st \<longrightarrow> set_ret k = 0"
  shows "\<exists>v k. player_volume True f vs = Inr (Some v, vs) \<and> alsa_volume set_ret st v = Inr k \<and>
    alsa_mix_minv st \<le> k \<and> k \<le> alsa_mix_minv st + alsa_mix_range st \<and> sndio_volume v \<le> 127 \<and>
    (f = 0 \<longrightarrow> k = alsa_mix_minv st + alsa_mix_range st \<and> sndio_volume v = 127)"
proof -
  define v :: real where "v = 10 powr (5 / 100 * f)"
  have v: "0 < v" "v \<le> 1" using assms(1) powr_mono [of "5 / 100 * f" 0 "10 :: real"] by (simp_all add: v_def)
  let ?r = "of_int (alsa_mix_range st) :: real" and ?m = "of_int (alsa_mix_minv st) :: real"
  have "0 \<le> v * ?r" "v * ?r \<le> ?r" using v assms(2) by (simp_all add: mult_left_le_one_le)
  then have k: "alsa_mix_minv st \<le> double_to_int (v * ?r + ?m) \<and>
      double_to_int (v * ?r + ?m) \<le> alsa_mix_minv st + alsa_mix_range st"
    by (intro double_to_int_between) simp_all
  then have a: "alsa_volume set_ret st v = Inr (double_to_int (v * ?r + ?m))"
    using assms(3) by (simp add: alsa_volume_def)
  have s: "0 \<le> double_to_int (v * 127) \<and> double_to_int (v * 127) \<le> 127"
    using v by (intro double_to_int_between) simp_all
  have one: "f = 0 \<Longrightarrow> v = 1" by (simp add: v_def)
  have "double_to_int (?r + ?m) = alsa_mix_minv st + alsa_mix_range st"
    using double_to_int_between [of "alsa_mix_range st + alsa_mix_minv st" "?r + ?m"
        "alsa_mix_range st + alsa_mix_minv st"] by simp
  moreover have "double_to_int 127 = 127" by (simp add: double_to_int_def)
  moreover have "sndio_volume v \<le> 127"
    using s by (simp add: sndio_volume_def SIO_MAXVOL_def word_le_def uint_word_of_int_eq take_bit_int_eq_self)
  ultimately show ?thesis
    using k a one
    by (intro exI [of _ v] exI [of _ "double_to_int (v * ?r + ?m)"])
      (auto simp: player_volume_def v_def sndio_volume_def SIO_MAXVOL_def)
qed

theorem hardware_volume_in_range_witness:
  "\<exists>v k. player_volume True (-15) \<lparr>volume = 1, fix_volume = 65536\<rparr> =
       Inr (Some v, \<lparr>volume = 1, fix_volume = 65536\<rparr>) \<and>
     alsa_volume (\<lambda>k. if k < -5000 \<or> 0 < k then -1 else 0)
       (alsa_initial\<lparr>alsa_mix_minv := -5000, alsa_mix_range := 5000\<rparr>) v = Inr k \<and> k \<le> 0"
proof -
  let ?st = "alsa_initial\<lparr>alsa_mix_minv := -5000, alsa_mix_range := 5000\<rparr>"
    and ?set = "\<lambda>k. if k < -5000 \<or> 0 < k then -1 else 0 :: int"
  have s: "\<forall>k. alsa_mix_minv ?st \<le> k \<and> k \<le> alsa_mix_minv ?st + alsa_mix_range ?st \<longrightarrow> ?set k = 0"
    by simp
  show ?thesis
    using hardware_volume_in_range [of "-15" ?st ?set "\<lparr>volume = 1, fix_volume = 65536\<rparr>", OF _ _ s] by auto
qed

lemma unat_product3:
  assumes "n * (unat a * unat b) < 2 ^ 32"
  shows "unat (of_nat n * a * b :: u32) = n * (unat a * unat b)"
proof -
  have "of_nat n * a * b = (of_nat (n * (unat a * unat b)) :: u32)" by (simp add: mult.assoc)
  then show ?thesis using assms by (simp only: unat_of_nat) simp
qed

text \<open>
  Sndio opens with whatever parameters the device has, for \<open>init\<close> does not compare what
  \<open>sio_getpar\<close> returns with what it asked for: with 4 bytes per stereo sample \<open>play\<close> writes the frame,
  with more, 24-bit samples for one, it reads behind the end of the player's buffer.
\<close>

theorem sndio_plays_what_device_has:
  assumes "length buf = 2 * samples" "0 < samples" "sio_rate par = 44100"
    and "samples * (unat (sio_bps par) * unat (sio_pchan par)) < 2 ^ 32"
  shows "sndio_init True initpar (\<lambda>p. True) (\<lambda>p. Some par) = Inr (Some par) \<and> sndio_start 44100 par = Inr par \<and>
    sndio_play buf samples par =
      (if unat (sio_bps par) * unat (sio_pchan par) \<le> 4
       then Inr (take (samples * (unat (sio_bps par) * unat (sio_pchan par)) div 2) buf)
       else Inl Out_of_bounds)"
proof -
  let ?m = "unat (sio_bps par) * unat (sio_pchan par)"
  have b: "unat (of_nat samples * sio_bps par * sio_pchan par) = samples * ?m"
    by (rule unat_product3 [OF assms(4)])
  have "4 * samples < samples * ?m \<longleftrightarrow> 4 < ?m" using assms(2) by (simp add: mult.commute)
  then have "sndio_play buf samples par = (if ?m \<le> 4 then Inr (take (samples * ?m div 2) buf) else Inl Out_of_bounds)"
    unfolding sndio_play_def Let_def b assms(1) by (auto simp: not_less)
  then show ?thesis using assms(3) by (simp add: sndio_init_def sndio_start_def)
qed

theorem sndio_plays_what_device_has_witness:
  "sndio_play (replicate 704 0) 352
       \<lparr>sio_bits = 24, sio_bps = 4, sio_sig = 1, sio_le = 1, sio_rate = 44100, sio_pchan = 2\<rparr> = Inl Out_of_bounds \<and>
   sndio_play (replicate 704 0) 352
       \<lparr>sio_bits = 16, sio_bps = 2, sio_sig = 1, sio_le = 1, sio_rate = 44100, sio_pchan = 2\<rparr> = Inr (replicate 704 0)"
  using sndio_plays_what_device_has [of "replicate 704 0" 352
      "\<lparr>sio_bits = 24, sio_bps = 4, sio_sig = 1, sio_le = 1, sio_rate = 44100, sio_pchan = 2\<rparr>"]
    sndio_plays_what_device_has [of "replicate 704 0" 352
      "\<lparr>sio_bits = 16, sio_bps = 2, sio_sig = 1, sio_le = 1, sio_rate = 44100, sio_pchan = 2\<rparr>"]
  by simp

end
