(* ===== verification/Audio_Pacing.thy ===== *)
theory Audio_Pacing
  imports Audio_Devices
begin

text \<open>
  The two backends without a sound library: audio_dummy.c, which only keeps time, and
  audio_pipe.c, which writes to a FIFO and keeps time while nobody reads it. What
  \<open>gettimeofday\<close> says, in microseconds, and what \<open>open\<close> and \<open>write\<close> return are arguments; the state
  of the pipe has the descriptors that are open. Doubles are real numbers.
\<close>

section \<open>Keeping time\<close>

record pace =
  Fs :: int
  starttime :: int
  samples_played :: int

definition pace_start :: "int \<Rightarrow> pace" where
  "pace_start sample_rate = \<lparr>Fs = sample_rate, starttime = 0, samples_played = 0\<rparr>"

text \<open>
  One block of samples: the argument \<open>usleep\<close> is called with, an unsigned int, and the new state.
  With a rate of 0 the quotient is no number an integer can hold.
\<close>

definition wait_samples :: "int \<Rightarrow> nat \<Rightarrow> pace \<Rightarrow> fault + u32 \<times> pace" where
  "wait_samples nowtime samples p =
     (let p = (if starttime p = 0 then p\<lparr>starttime := nowtime\<rparr> else p);
          p = p\<lparr>samples_played := samples_played p + int samples\<rparr>
      in
        if Fs p = 0 then Inl Div_by_zero
        else
          let finishtime = double_to_int (of_int (starttime p) + of_int (samples_played p) * 10 ^ 6 / of_int (Fs p))
          in Inr (word_of_int (finishtime - nowtime), p))"

text \<open>The dummy backend: \<open>start\<close> and \<open>play\<close>; the other functions do nothing.\<close>

definition dummy_start :: "int \<Rightarrow> pace" where
  "dummy_start sample_rate = pace_start sample_rate"

definition dummy_play :: "int \<Rightarrow> u16 list \<Rightarrow> nat \<Rightarrow> pace \<Rightarrow> fault + u32 \<times> pace" where
  "dummy_play nowtime buf samples p = wait_samples nowtime samples p"

section \<open>The FIFO\<close>

record pipe_out =
  pipe_fd :: int
  pipename :: "string option"
  pipe_pace :: pace
  open_fds :: "int list"

definition pipe_initial :: pipe_out where
  "pipe_initial = \<lparr>pipe_fd = -1, pipename = None, pipe_pace = pace_start 0, open_fds = []\<rparr>"

text \<open>
  \<open>open\<close> without blocking, whether it failed for lack of a reader (\<open>ENXIO\<close>), and the second \<open>open\<close>.
\<close>

record open_answer =
  open_nonblock :: int
  no_reader :: bool
  open_again :: int

definition opened :: "int \<Rightarrow> pipe_out \<Rightarrow> pipe_out" where
  "opened ret st =
     st\<lparr>pipe_fd := ret, open_fds := (if ret < 0 then open_fds st else ret # open_fds st)\<rparr>"

definition pipe_stop :: "pipe_out \<Rightarrow> pipe_out" where
  "pipe_stop st = st\<lparr>open_fds := remove1 (pipe_fd st) (open_fds st), pipe_fd := -1\<rparr>"

definition pipe_start :: "open_answer \<Rightarrow> int \<Rightarrow> pipe_out \<Rightarrow> fault + pipe_out" where
  "pipe_start ans sample_rate st =
     (let st = (if pipe_fd st \<ge> 0 then pipe_stop st else st);
          st = opened (open_nonblock ans) st
      in
        if pipe_fd st < 0 \<and> \<not> no_reader ans then Inl (Die ''could not open specified pipe for writing'')
        else
          let st = (if pipe_fd st \<ge> 0
                    then opened (open_again ans) (st\<lparr>open_fds := remove1 (pipe_fd st) (open_fds st)\<rparr>)
                    else st)
          in Inr (st\<lparr>pipe_pace := pace_start sample_rate\<rparr>))"

datatype pipe_effect =
    Slept u32
  | Wrote "u16 list"
  | Write_failed

text \<open>
  \<open>play\<close>: the clock, the answers of \<open>open\<close> should it try again, and whether \<open>write\<close> works.
\<close>

definition pipe_play ::
    "int \<times> open_answer \<times> bool \<Rightarrow> u16 list \<Rightarrow> nat \<Rightarrow> pipe_out \<Rightarrow> fault + pipe_effect \<times> pipe_out" where
  "pipe_play answer buf samples st =
     (let (nowtime, ans, write_ok) = answer in
      if pipe_fd st < 0 then
        bind_fault (wait_samples nowtime samples (pipe_pace st))
          (\<lambda>(us, p).
             let st = st\<lparr>pipe_pace := p\<rparr> in
             if samples_played p > 5 * Fs p
             then bind_fault (pipe_start ans (Fs p) st) (\<lambda>st. Inr (Slept us, st))
             else Inr (Slept us, st))
      else if length buf < 2 * samples then Inl Out_of_bounds
      else if write_ok then Inr (Wrote (take (2 * samples) buf), st)
      else Inr (Write_failed, pipe_stop st))"

text \<open>\<open>is_fifo\<close> is what \<open>stat\<close> says of the name: nothing, or whether it is a FIFO.\<close>

definition pipe_init :: "(string \<Rightarrow> bool option) \<Rightarrow> string list \<Rightarrow> pipe_out \<Rightarrow> fault + pipe_out" where
  "pipe_init is_fifo argv st =
     (case argv of
        [name] \<Rightarrow>
          (case is_fifo name of
             None \<Rightarrow> Inl (Die ''could not stat() pipe'')
           | Some f \<Rightarrow> if \<not> f then Inl (Die ''not a pipe'') else Inr (st\<lparr>pipename := Some name\<rparr>))
      | _ \<Rightarrow> Inl (Die ''bad argument(s) to pipe''))"

definition pipe_deinit :: "pipe_out \<Rightarrow> pipe_out" where
  "pipe_deinit st = (if pipe_fd st \<ge> 0 then pipe_stop st else st)"

text \<open>The contract: outside a session nothing is open, in one at most the descriptor \<open>fd\<close>.\<close>

definition pipe_idle :: "pipe_out \<Rightarrow> bool" where
  "pipe_idle st \<longleftrightarrow> pipe_fd st < 0 \<and> open_fds st = []"

definition pipe_busy :: "pipe_out \<Rightarrow> bool" where
  "pipe_busy st \<longleftrightarrow> open_fds st = (if pipe_fd st < 0 then [] else [pipe_fd st])"

lemma pipe_stop_idle: "pipe_busy st \<Longrightarrow> pipe_idle (pipe_stop st)"
  by (simp add: pipe_busy_def pipe_idle_def pipe_stop_def split: if_splits)

lemma pipe_start_busy: "pipe_busy st \<Longrightarrow> pipe_start ans r st = Inr st' \<Longrightarrow> pipe_busy st'"
  by (auto simp: pipe_start_def pipe_busy_def pipe_stop_def opened_def Let_def split: if_splits)

lemma pipe_play_busy:
  assumes "pipe_busy st" "pipe_play answer buf n st = Inr (e, st')"
  shows "pipe_busy st'"
proof -
  obtain now ans ok where a: "answer = (now, ans, ok)" by (cases answer)
  show ?thesis
  proof (cases "pipe_fd st < 0")
    case True
    with assms(2) a obtain us p where w: "wait_samples now n (pipe_pace st) = Inr (us, p)"
      by (auto simp: pipe_play_def elim: bind_fault_Inr)
    have b: "pipe_busy (st\<lparr>pipe_pace := p\<rparr>)" using assms(1) by (simp add: pipe_busy_def)
    from True assms(2) a w show ?thesis
      by (auto simp: pipe_play_def Let_def b split: if_splits elim!: bind_fault_Inr intro: pipe_start_busy [OF b])
  next
    case False
    then show ?thesis
      using assms a pipe_stop_idle [of st]
      by (auto simp: pipe_play_def pipe_busy_def pipe_idle_def pipe_stop_def split: if_splits)
  qed
qed

definition pipe_play_state ::
    "(int \<times> open_answer \<times> bool) \<times> u16 list \<times> nat \<Rightarrow> pipe_out \<Rightarrow> fault + pipe_out" where
  "pipe_play_state c st = (case c of (answer, buf, samples) \<Rightarrow>
     bind_fault (pipe_play answer buf samples st) (\<lambda>(e, st). Inr st))"

interpretation pipe_output: output_backend pipe_idle pipe_busy "\<lambda>st. length (open_fds st)"
    "\<lambda>(ans, rate). pipe_start ans rate" pipe_play_state pipe_stop
proof (unfold_locales, goal_cases)
  case (3 st a st')
  then show ?case using pipe_start_busy [of st] by (auto simp: pipe_idle_def pipe_busy_def split: prod.splits)
next
  case (4 st b st')
  then show ?case
    by (auto simp: pipe_play_state_def split: prod.splits elim!: bind_fault_Inr intro: pipe_play_busy [of st])
next
  case (5 st)
  then show ?case by (rule pipe_stop_idle)
qed (simp_all add: pipe_idle_def pipe_busy_def)

section \<open>The time kept\<close>

definition due :: "int \<Rightarrow> int \<Rightarrow> int \<Rightarrow> int" where
  "due rate start played = start + played * 10 ^ 6 div rate"

lemma double_to_int_due:
  assumes "0 < rate" "0 \<le> start" "0 \<le> played"
  shows "double_to_int (of_int start + of_int played * 10 ^ 6 / of_int rate) = due rate start played"
proof -
  have "\<lfloor>of_int (played * 10 ^ 6) / (of_int rate :: real)\<rfloor> = played * 10 ^ 6 div rate"
    by (rule floor_divide_of_int_eq)
  moreover have "0 \<le> of_int start + of_int played * 10 ^ 6 / (of_int rate :: real)"
    using assms by simp
  ultimately show ?thesis by (simp add: double_to_int_def due_def)
qed

lemma wait_samples_started:
  assumes "0 < Fs p" "0 < starttime p" "0 \<le> samples_played p"
  shows "wait_samples now n p =
    Inr (word_of_int (due (Fs p) (starttime p) (samples_played p + int n) - now),
         p\<lparr>samples_played := samples_played p + int n\<rparr>)"
proof -
  let ?played = "samples_played p + int n"
  have "wait_samples now n p =
      Inr (word_of_int (double_to_int (of_int (starttime p) + of_int ?played * 10 ^ 6 / of_int (Fs p)) - now),
           p\<lparr>samples_played := ?played\<rparr>)"
    using assms(1,2) unfolding wait_samples_def Let_def by simp
  moreover have "double_to_int (of_int (starttime p) + of_int ?played * 10 ^ 6 / of_int (Fs p)) =
      due (Fs p) (starttime p) ?played"
    by (rule double_to_int_due) (use assms in simp_all)
  ultimately show ?thesis by metis
qed

lemma wait_samples_first:
  assumes "starttime p = 0" "now \<noteq> 0"
  shows "wait_samples now n p = wait_samples now n (p\<lparr>starttime := now\<rparr>)"
  using assms by (simp add: wait_samples_def)

text \<open>
  A run of the dummy output: before each block the player takes some time to make it. The clock
  moves by that time and by what \<open>usleep\<close> sleeps.
\<close>

fun pace_run :: "int \<Rightarrow> pace \<Rightarrow> (int \<times> nat) list \<Rightarrow> fault + int \<times> pace" where
  "pace_run t p [] = Inr (t, p)"
| "pace_run t p ((d, n) # blocks) =
     bind_fault (dummy_play (t + d) [] n p) (\<lambda>(us, p). pace_run (t + d + int (unat us)) p blocks)"

text \<open>A block that takes no longer to make than it lasts, and lasts less than the range of \<open>usleep\<close>.\<close>

definition timely :: "int \<Rightarrow> int \<times> nat \<Rightarrow> bool" where
  "timely rate b \<longleftrightarrow> 0 \<le> fst b \<and> fst b * rate \<le> int (snd b) * 10 ^ 6 \<and> int (snd b) * 10 ^ 6 < (2 ^ 32 - 1) * rate"

lemma due_step:
  assumes "0 < rate" "timely rate (d, n)" "0 \<le> played"
  shows "due rate s played + d \<le> due rate s (played + int n)"
    and "due rate s (played + int n) - (due rate s played + d) < 2 ^ 32"
proof -
  let ?a = "played * 10 ^ 6" and ?b = "int n * 10 ^ 6"
  have b: "d * rate \<le> ?b" "?b < (2 ^ 32 - 1) * rate" "0 \<le> d" using assms(2) by (simp_all add: timely_def)
  have "d + ?a div rate = (?a + d * rate) div rate" using assms(1) by simp
  also have "\<dots> \<le> (?a + ?b) div rate" using b(1) assms(1) by (intro zdiv_mono1) simp_all
  finally show "due rate s played + d \<le> due rate s (played + int n)"
    by (simp add: due_def algebra_simps)
  have "(?a + ?b) div rate \<le> (?a + (2 ^ 32 - 1) * rate) div rate" using b(2) assms(1) by (intro zdiv_mono1) simp_all
  also have "\<dots> = 2 ^ 32 - 1 + ?a div rate" using assms(1) by simp
  finally show "due rate s (played + int n) - (due rate s played + d) < 2 ^ 32"
    using b(3) by (simp add: due_def algebra_simps)
qed

lemma unat_word_of_int32: "0 \<le> k \<Longrightarrow> k < 2 ^ 32 \<Longrightarrow> int (unat (word_of_int k :: u32)) = k"
  by (simp add: uint_word_of_int_eq take_bit_int_eq_self)

lemma pace_run_started:
  assumes "0 < Fs p" "0 < starttime p" "0 \<le> samples_played p" "\<forall>b \<in> set blocks. timely (Fs p) b"
    and "t = due (Fs p) (starttime p) (samples_played p)"
  shows "pace_run t p blocks =
    (let played = samples_played p + int (sum_list (map snd blocks))
     in Inr (due (Fs p) (starttime p) played, p\<lparr>samples_played := played\<rparr>))"
  using assms
proof (induction blocks arbitrary: t p)
  case (Cons b blocks)
  obtain d n where b: "b = (d, n)" by (cases b)
  let ?played = "samples_played p + int n"
  let ?p = "p\<lparr>samples_played := ?played\<rparr>"
  have tm: "timely (Fs p) (d, n)" using Cons.prems(4) b by simp
  note step = due_step [OF Cons.prems(1) tm Cons.prems(3), of "starttime p"]
  have "int (unat (word_of_int (due (Fs p) (starttime p) ?played - (t + d)) :: u32)) =
      due (Fs p) (starttime p) ?played - (t + d)"
    by (rule unat_word_of_int32) (use step Cons.prems(5) in simp_all)
  then have "pace_run t p (b # blocks) = pace_run (due (Fs p) (starttime p) ?played) ?p blocks"
    using Cons.prems(1-3) by (simp add: b dummy_play_def wait_samples_started)
  also have "\<dots> = (let played = samples_played ?p + int (sum_list (map snd blocks))
     in Inr (due (Fs ?p) (starttime ?p) played, ?p\<lparr>samples_played := played\<rparr>))"
    by (rule Cons.IH) (use Cons.prems in simp_all)
  finally show ?case by (simp add: b Let_def add.assoc)
qed (simp add: Let_def)

section \<open>Properties\<close>



text \<open>
  C35: a block that comes late, when all the samples played should have been over already, makes the
  dummy output sleep for the whole range of an unsigned int, more than an hour, less the delay: the
  difference is negative and \<open>usleep\<close> takes it for a large number. The FIFO without a reader does
  the same.
\<close>

theorem late_block_oversleeps:
  assumes "0 < Fs p" "0 < starttime p" "0 \<le> samples_played p"
    and "late = now - due (Fs p) (starttime p) (samples_played p + int n)" "0 < late" "late < 2 ^ 32"
    and "pipe_fd st < 0" "pipe_pace st = p" "samples_played p + int n \<le> 5 * Fs p"
  shows "\<exists>us p'. dummy_play now buf n p = Inr (us, p') \<and> int (unat us) = 2 ^ 32 - late \<and>
    pipe_play (now, ans, ok) buf n st = Inr (Slept us, st\<lparr>pipe_pace := p'\<rparr>)"
proof -
  let ?us = "word_of_int (due (Fs p) (starttime p) (samples_played p + int n) - now) :: u32"
  have w: "wait_samples now n p = Inr (?us, p\<lparr>samples_played := samples_played p + int n\<rparr>)"
    by (rule wait_samples_started [OF assms(1-3)])
  have "?us = word_of_int (2 ^ 32 - late)"
    by (rule word_of_int_eq_iff [THEN iffD2]) (simp add: assms(4) take_bit_eq_mod mod_eq_dvd_iff)
  then have "int (unat ?us) = 2 ^ 32 - late" using unat_word_of_int32 [of "2 ^ 32 - late"] assms(5,6) by simp
  then show ?thesis
    using w assms(7-9) by (simp add: dummy_play_def pipe_play_def)
qed

theorem late_block_oversleeps_witness:
  "\<exists>us p'. dummy_play 1010000 [] 352 \<lparr>Fs = 44100, starttime = 1000000, samples_played = 0\<rparr> = Inr (us, p') \<and>
    unat us = 4294965277"
proof -
  let ?p = "\<lparr>Fs = 44100, starttime = 1000000, samples_played = 0\<rparr>"
  have d: "due 44100 1000000 352 = 1007981" by (simp add: due_def)
  have "\<exists>us p'. dummy_play 1010000 [] 352 ?p = Inr (us, p') \<and> int (unat us) = 2 ^ 32 - 2019 \<and>
      pipe_play (1010000, \<lparr>open_nonblock = -1, no_reader = True, open_again = -1\<rparr>, True) [] 352
        (pipe_initial\<lparr>pipe_pace := ?p\<rparr>) = Inr (Slept us, pipe_initial\<lparr>pipe_pace := ?p, pipe_pace := p'\<rparr>)"
    by (rule late_block_oversleeps) (simp_all add: d pipe_initial_def)
  then obtain us p' where u: "dummy_play 1010000 [] 352 ?p = Inr (us, p')" "int (unat us) = 4294965277"
    by auto
  then have "unat us = 4294965277" by linarith
  with u(1) show ?thesis by blast
qed

end
