(* ===== verification/Audio_Session.thy ===== *)
theory Audio_Session
  imports Rtsp_Session Audio_Pacing
begin

text \<open>
  The player and the output backends together: the calls a backend gets are those the events of
  the RTSP conversation stand for, with any number of frames from the player thread while it
  runs.
\<close>

section \<open>The calls of a run\<close>

fun is_play :: "('a, 'b) output_call \<Rightarrow> bool" where
  "is_play (Call_play b) = True"
| "is_play c = False"

text \<open>The backend is called as the events say: \<open>config.output->start\<close>, \<open>play\<close> and \<open>stop\<close> of player.c.\<close>

fun driven_by :: "event list \<Rightarrow> ('a \<times> int, 'b) output_call list \<Rightarrow> bool" where
  "driven_by [] cs \<longleftrightarrow> cs = []"
| "driven_by (Output_start r # evs) cs \<longleftrightarrow>
     (case cs of Call_start (a, rate) # cs' \<Rightarrow> rate = r \<and> driven_by evs cs' | _ \<Rightarrow> False)"
| "driven_by (Thread_create # evs) cs \<longleftrightarrow> driven_by evs (dropWhile is_play cs)"
| "driven_by (Output_stop # evs) cs \<longleftrightarrow> (case cs of Call_stop # cs' \<Rightarrow> driven_by evs cs' | _ \<Rightarrow> False)"
| "driven_by (e # evs) cs \<longleftrightarrow> driven_by evs cs"

lemma alternate_plays: "alternate True (dropWhile is_play cs) = alternate True cs"
proof (induction cs)
  case (Cons c cs)
  then show ?case by (cases c) simp_all
qed simp

lemma runs_alternate: "runs evs \<Longrightarrow> driven_by evs cs \<Longrightarrow> alternate False cs"
proof (induction evs arbitrary: cs rule: runs.induct)
  case (2 r evs)
  from 2(3) obtain a rest where cs: "cs = Call_start (a, r) # rest"
    by (auto split: list.splits output_call.splits)
  with 2(3) obtain cs' where r: "dropWhile is_play rest = Call_stop # cs'" "driven_by evs cs'"
    by (auto split: list.splits output_call.splits)
  then have "alternate True (dropWhile is_play rest)" using 2 by simp
  then show ?case by (simp add: cs alternate_plays)
qed simp_all

section \<open>Properties\<close>

text \<open>
  C15: whatever a client sends, once its connection is over ALSA has no device open, and the FIFO
  no descriptor, unless another connection plays: the backends keep their contract and the
  conversation calls them in order.
\<close>

theorem outputs_are_released:
  assumes "world_inv self w" "\<forall>v. idle (others v)" "sa_port (bound_addr (e_udp env)) \<noteq> 0"
    and "conversation env others self conn evs w = Some (Inr (w', outs))"
    and "driven_by (w_events w') acs" "alsa_idle a"
    and "run_calls (\<lambda>(answer, rate). alsa_start answer rate) (\<lambda>(answer, frame). alsa_play answer frame)
      alsa_stop acs a = Inr a'"
    and "driven_by (w_events w') pcs" "pipe_idle p"
    and "run_calls (\<lambda>(ans, rate). pipe_start ans rate) pipe_play_state pipe_stop pcs p = Inr p'"
  shows "others_play self w' \<or> alsa_open_pcms a' = [] \<and> open_fds p' = []"
proof (cases "others_play self w'")
  case False
  then have "runs (w_events w')" using conversation_inv [OF assms(2,3,1,4)] by (simp add: idle_def)
  then have "alternate False acs" "alternate False pcs" using runs_alternate assms(5,8) by blast+
  then show ?thesis
    using alsa_out.calls_release [OF assms(7) _ assms(6)] pipe_output.calls_release [OF assms(10) _ assms(9)]
    by simp
qed simp

theorem outputs_are_released_witness:
  "\<exists>w' a' p'. conversation sample_env (\<lambda>v. sample_world) 1 sample_conn [] sample_playing = Some (Inr (w', [])) \<and>
    run_calls (\<lambda>(answer, rate). alsa_start answer rate) (\<lambda>(answer, frame). alsa_play answer frame) alsa_stop
      [Call_start ((Some 7, 0), 44100), Call_play ((1, 0), ([1, 2], 1)), Call_stop] alsa_initial = Inr a' \<and>
    run_calls (\<lambda>(ans, rate). pipe_start ans rate) pipe_play_state pipe_stop
      [Call_start (\<lparr>open_nonblock = 5, no_reader = False, open_again = 6\<rparr>, 44100),
       Call_play ((1, \<lparr>open_nonblock = 5, no_reader = False, open_again = 6\<rparr>, True), [1, 2], 1), Call_stop]
      pipe_initial = Inr p' \<and>
    alsa_open_pcms a' = [] \<and> open_fds p' = []"
proof -
  let ?acs = "[Call_start ((Some 7, 0), 44100), Call_play ((1, 0), ([1, 2], 1)), Call_stop]"
  let ?ans = "\<lparr>open_nonblock = 5, no_reader = False, open_again = 6\<rparr>"
  let ?pcs = "[Call_start (?ans, 44100), Call_play ((1, ?ans, True), [1, 2], 1), Call_stop]"
  obtain w' where w: "conversation sample_env (\<lambda>v. sample_world) 1 sample_conn [] sample_playing = Some (Inr (w', []))"
      "\<not> w_lock w'"
      "w_events w' = [Command_start, Output_start 44100, Thread_create, Thread_join, Output_stop, Command_stop]"
    using sample_conversation by blast
  obtain a' where a: "run_calls (\<lambda>(answer, rate). alsa_start answer rate)
      (\<lambda>(answer, frame). alsa_play answer frame) alsa_stop ?acs alsa_initial = Inr a'"
    by (simp add: alsa_start_def alsa_play_def)
  obtain p' where p: "run_calls (\<lambda>(ans, rate). pipe_start ans rate) pipe_play_state pipe_stop ?pcs pipe_initial = Inr p'"
    by (simp add: pipe_start_def pipe_play_state_def pipe_play_def opened_def pipe_initial_def)
  have port: "sa_port (bound_addr (e_udp sample_env)) \<noteq> 0" by (simp add: sample_env_def)
  have "alsa_idle alsa_initial" "pipe_idle pipe_initial"
    by (simp_all add: alsa_idle_def alsa_initial_def pipe_idle_def pipe_initial_def)
  then have "others_play 1 w' \<or> alsa_open_pcms a' = [] \<and> open_fds p' = []"
    using outputs_are_released [OF sample_playing_inv _ port w(1) _ _ a _ _ p] w(3) by simp
  then show ?thesis using w a p by (auto simp: others_play_def)
qed

text \<open>
  The rate a client announces reaches the backend as it is, and with ALSA, libao and
  PulseAudio any rate but 44100 makes the program die as soon as the client sets the session up.
\<close>

theorem other_rate_kills_server:
  assumes "sc_fmtp stream ! 1 = int n" "n < 2 ^ 16" "start_fill \<le> 512" "sc_fmtp stream ! 3 = 16"
    and "sc_fmtp stream ! 11 = rate" "rate \<noteq> 44100"
  shows "(\<exists>c'. player_play start_fill heap shorts stream c =
        Inr (c', [Command_start, Output_start rate, Thread_create])) \<and>
    (driven_by [Command_start, Output_start rate, Thread_create] acs \<longrightarrow>
      run_calls (\<lambda>(answer, rate). alsa_start answer rate) (\<lambda>(answer, frame). alsa_play answer frame)
        alsa_stop acs a = Inl (Die ''Unexpected sample rate!'')) \<and>
    (driven_by [Command_start, Output_start rate, Thread_create] ucs \<longrightarrow>
      run_calls (\<lambda>(u :: unit, rate). ao_start rate) (\<lambda>b. Inr) id ucs d = Inl (Die ''unexpected sample rate!'') \<and>
      run_calls (\<lambda>(u :: unit, rate). pulse_start rate) (\<lambda>b. Inr) id ucs dev = Inl (Die ''unexpected sample rate!''))"
proof (intro conjI)
  obtain q where q: "init_decoder heap (sc_fmtp stream) (pl c) = Inr q" "sampling_rate q = rate"
    by (rule init_decoder_ok [OF assms(4,1,2), of heap "pl c"]) (use assms(5) in blast)
  then show "\<exists>c'. player_play start_fill heap shorts stream c =
      Inr (c', [Command_start, Output_start rate, Thread_create])"
    using assms(3) by (simp add: player_play_def BUFFER_FRAMES_def)
qed (use assms(6) in \<open>auto simp: alsa_start_def ao_start_def pulse_start_def split: list.splits output_call.splits\<close>)

theorem other_rate_kills_server_witness:
  "(\<exists>c'. player_play 220 (\<lambda>_. 0) (\<lambda>_ _. 0)
      \<lparr>sc_aesiv = [], sc_aeskey = [], sc_fmtp = [96, 352, 0, 16, 40, 10, 14, 2, 255, 0, 0, 48000]\<rparr>
      (w_ctl sample_world) = Inr (c', [Command_start, Output_start 48000, Thread_create])) \<and>
    run_calls (\<lambda>(answer, rate). alsa_start answer rate) (\<lambda>(answer, frame). alsa_play answer frame) alsa_stop
      [Call_start ((Some 7, 0), 48000)] alsa_initial = Inl (Die ''Unexpected sample rate!'')"
proof -
  have d: "driven_by [Command_start, Output_start 48000, Thread_create] [Call_start ((Some 7, 0), 48000)]"
    by simp
  show ?thesis
    using other_rate_kills_server [where acs = "[Call_start ((Some 7, 0), 48000)]" and start_fill = 220 and n = 352
        and stream = "\<lparr>sc_aesiv = [], sc_aeskey = [],
          sc_fmtp = [96, 352, 0, 16, 40, 10, 14, 2, 255, 0, 0, 48000]\<rparr>"
        and heap = "\<lambda>_. 0" and shorts = "\<lambda>_ _. 0" and c = "w_ctl sample_world" and a = alsa_initial and ucs = "[]" and dev = True
        and d = "\<lparr>ao_dev = True, ao_format = (16, 44100, 2)\<rparr>", OF _ _ _ _ refl] d
    by simp
qed

end
