(* ===== verification/Dns_Names.thy ===== *)
theory Dns_Names
  imports Prelude
begin

text \<open>
  Names and labels of tinysvcmdns.c. A label is a length and that many bytes, a name (\<open>nlabel\<close>) is a
  sequence of labels that ends with NUL; names are C strings, compared with \<open>strcmp\<close>, and are lists
  of bytes without their NUL here. A packet is a buffer and the number of bytes that arrived; what
  lies behind them is what the buffer held before. A read outside the buffer is a fault.
\<close>

type_synonym nlabel = bytes

text \<open>The C string that starts a buffer.\<close>

definition cbytes :: "bytes \<Rightarrow> bytes" where
  "cbytes bs = takeWhile (\<lambda>b. b \<noteq> 0) bs"

definition char_byte :: "char \<Rightarrow> u8" where
  "char_byte c = of_char c"

section \<open>Making names\<close>

definition dup_nlabel :: "nlabel \<Rightarrow> fault + nlabel" where
  "dup_nlabel n = (if (case n of [] \<Rightarrow> 0 | b # _ \<Rightarrow> b) \<le> 63 then Inr n else Inl Assert_failed)"

text \<open>\<open>strncpy\<close> of \<open>n\<close> bytes from a C string in a buffer: it stops at NUL and fills up with NUL.\<close>

definition strncpy_bytes :: "bytes \<Rightarrow> nat \<Rightarrow> nat \<Rightarrow> fault + bytes" where
  "strncpy_bytes buf i n =
     (let s = take n (drop i buf) in
      if length s = n \<or> 0 \<in> set s then Inr (cbytes s @ replicate (n - length (cbytes s)) 0)
      else Inl Out_of_bounds)"

text \<open>The label that starts at an index; \<open>None\<close> is NULL. A label of 63 bytes is refused.\<close>

definition dup_label :: "bytes \<Rightarrow> nat \<Rightarrow> fault + bytes option" where
  "dup_label buf i =
     (if i \<ge> length buf then Inl Out_of_bounds
      else
        let len = unat (buf ! i) + 1 in
        if len > 63 then Inr None
        else
          (case strncpy_bytes buf i len of
             Inl e \<Rightarrow> Inl e
           | Inr s \<Rightarrow> Inr (Some s)))"

definition join_nlabel :: "nlabel \<Rightarrow> nlabel \<Rightarrow> fault + nlabel" where
  "join_nlabel n1 n2 =
     (case (dup_nlabel n1, dup_nlabel n2) of
        (Inr _, Inr _) \<Rightarrow> Inr (n1 @ n2)
      | _ \<Rightarrow> Inl Assert_failed)"

definition create_label :: "string \<Rightarrow> bytes option" where
  "create_label txt =
     (let len = length txt in
      if len > 63 then None else Some (of_nat len # map char_byte txt))"

text \<open>
  The loop over the dots: each turn writes the length in front of a segment. \<open>memchr\<close> does not look
  at the last character. \<open>label\<close> is the block of \<open>len + 2\<close> bytes, \<open>p\<close> an index of it.
\<close>

function nlabel_loop :: "bytes \<Rightarrow> nat \<Rightarrow> nat \<Rightarrow> bytes" where
  "nlabel_loop label len p =
     (if p < len then
        let dot = p + 1 + length (takeWhile (\<lambda>b. b \<noteq> char_byte (CHR ''.'')) (take (len - p - 1) (drop (p + 1) label)));
            dot = (if dot < len then dot else len + 1)
        in nlabel_loop (label[p := of_nat (dot - p - 1)]) len dot
      else label)"
  by pat_completeness auto
termination by (relation "measure (\<lambda>(label, len, p). len - p)") (auto simp: Let_def)

declare nlabel_loop.simps [simp del]

text \<open>\<open>junk\<close> is the byte \<open>malloc\<close> left at the start, which an empty name never overwrites.\<close>

definition create_nlabel :: "u8 \<Rightarrow> string \<Rightarrow> nlabel" where
  "create_nlabel junk name =
     cbytes (nlabel_loop (junk # map char_byte name @ [0]) (length name) 0)"

text \<open>The dotted form, for messages, into a block of 256 bytes.\<close>

function nlabel_dotted :: "nlabel \<Rightarrow> fault + bytes" where
  "nlabel_dotted [] = Inr []"
| "nlabel_dotted (n # bs) =
     (if length bs < unat n then Inl Out_of_bounds
      else
        case nlabel_dotted (drop (unat n) bs) of
          Inl e \<Rightarrow> Inl e
        | Inr r \<Rightarrow> Inr (take (unat n) bs @ char_byte (CHR ''.'') # r))"
  by pat_completeness auto
termination by (relation "measure length") auto

definition nlabel_to_str :: "nlabel option \<Rightarrow> fault + bytes" where
  "nlabel_to_str name =
     (case name of
        None \<Rightarrow> Inl Assert_failed
      | Some n \<Rightarrow>
          case nlabel_dotted n of
            Inl e \<Rightarrow> Inl e
          | Inr s \<Rightarrow> if length s < 256 then Inr s else Inl Out_of_bounds)"

section \<open>Names in a packet\<close>

definition byte_at :: "bytes \<Rightarrow> nat \<Rightarrow> fault + u8" where
  "byte_at buf i = (if i < length buf then Inr (buf ! i) else Inl Out_of_bounds)"

text \<open>How much of the packet a name takes; it is not uncompressed.\<close>

function label_len_loop :: "bytes \<Rightarrow> nat \<Rightarrow> nat \<Rightarrow> nat \<Rightarrow> fault + nat" where
  "label_len_loop buf e p len =
     (if p < e then
        case byte_at buf p of
          Inl err \<Rightarrow> Inl err
        | Inr b \<Rightarrow>
            if b = 0 then Inr (len + 1)
            else if b AND 0xC0 = 0xC0 then Inr (len + 2)
            else label_len_loop buf e (p + unat b + 1) (len + unat b + 1)
      else Inr len)"
  by pat_completeness auto
termination by (relation "measure (\<lambda>(buf, e, p, len). e - p)") auto

declare label_len_loop.simps [simp del]

definition label_len :: "bytes \<Rightarrow> nat \<Rightarrow> nat \<Rightarrow> fault + nat" where
  "label_len buf pkt_len off = label_len_loop buf pkt_len off 0"

definition copy_label :: "bytes \<Rightarrow> nat \<Rightarrow> nat \<Rightarrow> fault + bytes option" where
  "copy_label buf pkt_len off =
     (if off > pkt_len then Inr None
      else
        case byte_at buf off of
          Inl e \<Rightarrow> Inl e
        | Inr b \<Rightarrow>
            if off + (unat b + 1) > pkt_len then Inr None
            else dup_label buf off)"

text \<open>
  One turn of the two loops of \<open>uncompress_nlabel\<close>: where the label is, how long it is with its
  length byte. \<open>None\<close> is the end of the loop. The byte is read before \<open>p\<close> is compared with the end.
\<close>

definition name_step :: "bytes \<Rightarrow> nat \<Rightarrow> nat \<Rightarrow> fault + (nat \<times> nat) option" where
  "name_step buf e p =
     (case byte_at buf p of
        Inl err \<Rightarrow> Inl err
      | Inr b \<Rightarrow>
          if b = 0 \<or> \<not> p < e then Inr None
          else if b AND 0xC0 = 0xC0 then
            (case byte_at buf (p + 1) of
               Inl err \<Rightarrow> Inl err
             | Inr b1 \<Rightarrow>
                 let p2 = unat (b AND NOT 0xC0) * 256 + unat b1 in
                 case byte_at buf p2 of
                   Inl err \<Rightarrow> Inl err
                 | Inr n \<Rightarrow> Inr (Some (p2, unat n + 1)))
          else Inr (Some (p, unat b + 1)))"

text \<open>A pointer to itself or to a name that leads back keeps the loops running forever.\<close>

partial_function (option) name_size :: "bytes \<Rightarrow> nat \<Rightarrow> nat \<Rightarrow> nat \<Rightarrow> (fault + nat) option" where
  "name_size buf e p len =
     (case name_step buf e p of
        Inl err \<Rightarrow> Some (Inl err)
      | Inr None \<Rightarrow> Some (Inr len)
      | Inr (Some (q, n)) \<Rightarrow> name_size buf e (q + n) (len + n))"

partial_function (option) name_copy :: "bytes \<Rightarrow> nat \<Rightarrow> nat \<Rightarrow> bytes \<Rightarrow> (fault + bytes) option" where
  "name_copy buf e p str =
     (case name_step buf e p of
        Inl err \<Rightarrow> Some (Inl err)
      | Inr None \<Rightarrow> Some (Inr str)
      | Inr (Some (q, n)) \<Rightarrow>
          (case strncpy_bytes buf q n of
             Inl err \<Rightarrow> Some (Inl err)
           | Inr s \<Rightarrow> name_copy buf e (q + n) (str @ s)))"

text \<open>
  The name at an offset, \<open>None\<close> inside for NULL. The block that is written has the size the first
  loop found.
\<close>

definition uncompress_nlabel :: "bytes \<Rightarrow> nat \<Rightarrow> nat \<Rightarrow> (fault + nlabel option) option" where
  "uncompress_nlabel buf pkt_len off =
     (if off \<ge> pkt_len then Some (Inr None)
      else
        case name_size buf pkt_len off 0 of
          None \<Rightarrow> None
        | Some (Inl err) \<Rightarrow> Some (Inl err)
        | Some (Inr len) \<Rightarrow>
            (case name_copy buf pkt_len off [] of
               None \<Rightarrow> None
             | Some (Inl err) \<Rightarrow> Some (Inl err)
             | Some (Inr str) \<Rightarrow>
                 if length str > len then Some (Inl Out_of_bounds)
                 else Some (Inr (Some (cbytes str)))))"

section \<open>Well-formed names\<close>

text \<open>The name of a sequence of labels, and labels as DNS has them.\<close>

definition name_of :: "bytes list \<Rightarrow> nlabel" where
  "name_of segs = concat (map (\<lambda>s. of_nat (length s) # s) segs)"

definition label_ok :: "bytes \<Rightarrow> bool" where
  "label_ok s \<longleftrightarrow> s \<noteq> [] \<and> length s \<le> 63 \<and> 0 \<notin> set s"

lemma name_of_simps [simp]:
  "name_of [] = []" "name_of (s # segs) = of_nat (length s) # s @ name_of segs"
  by (simp_all add: name_of_def)

lemma label_length:
  assumes "label_ok s"
  shows "unat (of_nat (length s) :: u8) = length s" "of_nat (length s) \<noteq> (0 :: u8)"
    "of_nat (length s) AND 0xC0 \<noteq> (0xC0 :: u8)"
proof -
  have l: "0 < length s" "length s < 64" using assms by (auto simp: label_ok_def)
  then show u: "unat (of_nat (length s) :: u8) = length s" by (simp add: unat_of_nat_small)
  then show "of_nat (length s) \<noteq> (0 :: u8)" using l by (metis unsigned_0 less_numeral_extra(3))
  show "of_nat (length s) AND 0xC0 \<noteq> (0xC0 :: u8)"
  proof
    assume "of_nat (length s) AND 0xC0 = (0xC0 :: u8)"
    then have "(0xC0 :: u8) \<le> of_nat (length s)" by (metis word_and_le2)
    then have "192 \<le> length s" using u by (simp add: word_le_nat_alt)
    then show False using l by simp
  qed
qed

lemma name_of_no_nul: "\<forall>s \<in> set segs. label_ok s \<Longrightarrow> 0 \<notin> set (name_of segs)"
proof (induction segs)
  case (Cons s segs)
  then show ?case using label_length(2) [of s] by (auto simp: label_ok_def)
qed simp

lemma cbytes_no_nul [simp]: "0 \<notin> set bs \<Longrightarrow> cbytes (bs @ 0 # t) = bs" "0 \<notin> set bs \<Longrightarrow> cbytes bs = bs"
  by (induction bs) (auto simp: cbytes_def)

section \<open>Dotted names\<close>

fun dotted :: "string list \<Rightarrow> string" where
  "dotted [] = []"
| "dotted [l] = l"
| "dotted (l # ls) = l @ CHR ''.'' # dotted ls"

definition text_ok :: "string \<Rightarrow> bool" where
  "text_ok l \<longleftrightarrow> l \<noteq> [] \<and> length l \<le> 63 \<and> NUL \<notin> set l \<and> CHR ''.'' \<notin> set l"

lemma unat_char_byte: "unat (char_byte c) = of_char c"
proof -
  have "(of_char c :: nat) < 256"
    using rangeI [of "of_char :: char \<Rightarrow> nat" c] by (simp add: range_nat_of_char)
  then have "unat (of_nat (of_char c) :: u8) = of_char c" by (intro unat_of_nat_small) simp
  then show ?thesis by (simp add: char_byte_def of_nat_of_char)
qed

lemma char_byte_inj [simp]: "char_byte c = char_byte d \<longleftrightarrow> c = d"
  by (metis unat_char_byte of_char_eq_iff)

lemma char_byte_nul [simp]: "char_byte c = 0 \<longleftrightarrow> c = NUL"
proof -
  have "char_byte NUL = 0" by (simp add: char_byte_def)
  then show ?thesis by (metis char_byte_inj)
qed

lemma text_label_ok: "text_ok l \<Longrightarrow> label_ok (map char_byte l)"
  by (auto simp: text_ok_def label_ok_def)

lemma dotted_not_Nil [simp]: "ls \<noteq> [] \<Longrightarrow> text_ok (hd ls) \<Longrightarrow> dotted ls \<noteq> []"
  by (cases ls rule: dotted.cases) (auto simp: text_ok_def)

lemma takeWhile_no_dot:
  "CHR ''.'' \<notin> set l \<Longrightarrow> takeWhile (\<lambda>b. b \<noteq> char_byte (CHR ''.'')) (map char_byte l) = map char_byte l"
  "CHR ''.'' \<notin> set l \<Longrightarrow>
    takeWhile (\<lambda>b. b \<noteq> char_byte (CHR ''.'')) (map char_byte l @ char_byte (CHR ''.'') # t) = map char_byte l"
  by (induction l) auto

lemma nlabel_loop_end [simp]: "len \<le> p \<Longrightarrow> nlabel_loop label len p = label"
  by (simp add: nlabel_loop.simps)

lemma nlabel_loop_turn:
  assumes "p < len" "takeWhile (\<lambda>b. b \<noteq> char_byte (CHR ''.'')) (take (len - p - 1) (drop (p + 1) label)) = seg"
  shows "nlabel_loop label len p =
    (if p + 1 + length seg < len
     then nlabel_loop (label[p := of_nat (length seg)]) len (p + 1 + length seg)
     else label[p := of_nat (len - p)])"
  using assms by (subst nlabel_loop.simps) (simp add: Let_def)

text \<open>The loop turns the dots into the lengths of what follows them.\<close>

lemma nlabel_loop_dotted:
  assumes "\<forall>l \<in> set ls. text_ok l" "ls \<noteq> []"
  shows "nlabel_loop (pre @ x # map char_byte (dotted ls) @ [0]) (length pre + length (dotted ls)) (length pre) =
    pre @ name_of (map (map char_byte) ls) @ [0]"
  using assms
proof (induction ls arbitrary: pre x rule: dotted.induct)
  case (2 l)
  let ?label = "pre @ x # map char_byte (dotted [l]) @ [0]" and ?seg = "map char_byte (take (length l - 1) l)"
  have l: "l \<noteq> []" "CHR ''.'' \<notin> set l" using 2 by (auto simp: text_ok_def)
  have nd: "CHR ''.'' \<notin> set (take (length l - 1) l)" using l(2) by (auto dest: in_set_takeD)
  have "take (length pre + length l - length pre - 1) (drop (length pre + 1) ?label) = ?seg" by (simp add: take_map)
  then have "nlabel_loop ?label (length pre + length l) (length pre) =
      ?label[length pre := of_nat (length pre + length l - length pre)]"
    by (subst nlabel_loop_turn [where seg = ?seg]) (use l(1) takeWhile_no_dot(1) [OF nd] in simp_all)
  then show ?case by (simp add: list_update_append)
next
  case (3 l l2 ls)
  let ?D = "dotted (l2 # ls)"
  let ?label = "pre @ x # map char_byte (dotted (l # l2 # ls)) @ [0]"
  have l: "CHR ''.'' \<notin> set l" "?D \<noteq> []" using 3(2) by (auto simp: text_ok_def intro!: dotted_not_Nil)
  obtain k where k: "length ?D = Suc k" using l(2) by (cases ?D) auto
  have "take (length pre + length (dotted (l # l2 # ls)) - length pre - 1) (drop (length pre + 1) ?label) =
      map char_byte l @ char_byte (CHR ''.'') # map char_byte (take k ?D)"
    using k by (simp add: take_map)
  then have step: "nlabel_loop ?label (length pre + length (dotted (l # l2 # ls))) (length pre) =
      nlabel_loop (?label[length pre := of_nat (length l)]) (length pre + length (dotted (l # l2 # ls)))
        (length pre + 1 + length l)"
    by (subst nlabel_loop_turn [where seg = "map char_byte l"])
      (use k takeWhile_no_dot(2) [OF l(1)] in simp_all)
  let ?pre = "pre @ of_nat (length l) # map char_byte l"
  have "nlabel_loop (?pre @ char_byte (CHR ''.'') # map char_byte ?D @ [0]) (length ?pre + length ?D) (length ?pre) =
      ?pre @ name_of (map (map char_byte) (l2 # ls)) @ [0]"
    by (rule 3(1)) (use 3(2) in auto)
  moreover have "?label[length pre := of_nat (length l)] = ?pre @ char_byte (CHR ''.'') # map char_byte ?D @ [0]"
    by (simp add: list_update_append)
  ultimately show ?case using step by (simp add: ac_simps)
qed simp

lemma nlabel_dotted_name:
  "\<forall>s \<in> set segs. label_ok s \<Longrightarrow>
    nlabel_dotted (name_of segs) = Inr (concat (map (\<lambda>s. s @ [char_byte (CHR ''.'')]) segs))"
proof (induction segs)
  case (Cons s segs)
  then show ?case using label_length(1) [of s] by simp
qed simp

lemma length_dotted:
  "ls \<noteq> [] \<Longrightarrow> length (concat (map (\<lambda>l. l @ ''.'') ls)) = length (dotted ls) + 1"
  by (induction ls rule: dotted.induct) auto

lemma create_nlabel_dotted:
  assumes "\<forall>l \<in> set ls. text_ok l" "ls \<noteq> []"
  shows "create_nlabel junk (dotted ls) = name_of (map (map char_byte) ls)"
proof -
  have "0 \<notin> set (name_of (map (map char_byte) ls))"
    by (rule name_of_no_nul) (use assms(1) text_label_ok in auto)
  then show ?thesis
    using nlabel_loop_dotted [OF assms, of "[]" junk] by (simp add: create_nlabel_def)
qed

text \<open>
  A dotted name becomes the sequence of its labels, each behind its length, and the dotted form of
  that is the name again, with a dot at its end, as long as it fits the 256 bytes.
\<close>

theorem dotted_name_round_trip:
  assumes "\<forall>l \<in> set ls. text_ok l" "ls \<noteq> []" "length (dotted ls) < 255"
  shows "create_nlabel junk (dotted ls) = name_of (map (map char_byte) ls) \<and>
    nlabel_to_str (Some (create_nlabel junk (dotted ls))) = Inr (map char_byte (dotted ls @ ''.''))"
proof -
  have ok: "\<forall>s \<in> set (map (map char_byte) ls). label_ok s" using assms(1) text_label_ok by auto
  have d: "concat (map (\<lambda>s. s @ [char_byte (CHR ''.'')]) (map (map char_byte) ls)) = map char_byte (dotted ls @ ''.'')"
    using assms(2) by (induction ls rule: dotted.induct) auto
  show ?thesis
    using create_nlabel_dotted [OF assms(1,2), of junk] nlabel_dotted_name [OF ok, unfolded d] assms(3)
    by (simp add: nlabel_to_str_def)
qed

theorem dotted_name_round_trip_witness:
  "nlabel_to_str (Some (create_nlabel 7 ''_raop._tcp.local'')) = Inr (map char_byte (''_raop._tcp.local'' @ ''.''))"
proof -
  have ok: "\<forall>l \<in> set [''_raop'', ''_tcp'', ''local'']. text_ok l" by code_simp
  have d: "dotted [''_raop'', ''_tcp'', ''local''] = ''_raop._tcp.local''" "[''_raop'', ''_tcp'', ''local''] \<noteq> []"
    by simp_all
  have "length (dotted [''_raop'', ''_tcp'', ''local'']) < 255" by simp
  from dotted_name_round_trip [OF ok d(2) this, of 7] show ?thesis unfolding d(1) by (rule conjunct2)
qed

section \<open>Names found in a packet\<close>

text \<open>
  The packet holds a name at an index: a zero byte, a label and the rest of the name behind it, or a
  pointer to such a label.
\<close>

fun name_at :: "bytes \<Rightarrow> nat \<Rightarrow> nat \<Rightarrow> bytes list \<Rightarrow> bool" where
  "name_at buf e p [] \<longleftrightarrow> p < length buf \<and> buf ! p = 0"
| "name_at buf e p (s # segs) \<longleftrightarrow>
     p < e \<and>
     (\<exists>q. name_step buf e p = Inr (Some (q, length s + 1)) \<and> q + 1 + length s \<le> length buf \<and>
       buf ! q = of_nat (length s) \<and> take (length s) (drop (q + 1) buf) = s \<and>
       name_at buf e (q + length s + 1) segs)"

lemma strncpy_label:
  assumes "label_ok s" "q + 1 + length s \<le> length buf" "buf ! q = of_nat (length s)"
    and "take (length s) (drop (q + 1) buf) = s"
  shows "strncpy_bytes buf q (length s + 1) = Inr (of_nat (length s) # s)"
proof -
  have t: "take (length s + 1) (drop q buf) = of_nat (length s) # s"
    using assms(2-4) by (subst Cons_nth_drop_Suc [symmetric]) auto
  have "0 \<notin> set (of_nat (length s) # s :: bytes)" using assms(1) label_length(2) [OF assms(1)] by (auto simp: label_ok_def)
  then show ?thesis using t by (simp add: strncpy_bytes_def Let_def)
qed

lemma name_size_at:
  "name_at buf e p segs \<Longrightarrow> \<forall>s \<in> set segs. label_ok s \<Longrightarrow> name_size buf e p len = Some (Inr (len + length (name_of segs)))"
proof (induction segs arbitrary: p len)
  case Nil
  then show ?case by (subst name_size.simps) (simp add: name_step_def byte_at_def)
next
  case (Cons s segs)
  then obtain q where "name_step buf e p = Inr (Some (q, length s + 1))" "name_at buf e (q + length s + 1) segs"
    by auto
  with Cons show ?case by (subst name_size.simps) (simp add: add.assoc)
qed

lemma name_copy_at:
  "name_at buf e p segs \<Longrightarrow> \<forall>s \<in> set segs. label_ok s \<Longrightarrow> name_copy buf e p str = Some (Inr (str @ name_of segs))"
proof (induction segs arbitrary: p str)
  case Nil
  then show ?case by (subst name_copy.simps) (simp add: name_step_def byte_at_def)
next
  case (Cons s segs)
  then obtain q where q: "name_step buf e p = Inr (Some (q, length s + 1))" "name_at buf e (q + length s + 1) segs"
    "q + 1 + length s \<le> length buf" "buf ! q = of_nat (length s)" "take (length s) (drop (q + 1) buf) = s"
    by auto
  have ok: "label_ok s" using Cons.prems(2) by simp
  show ?case
    using q Cons.IH [OF q(2)] Cons.prems(2) strncpy_label [OF ok q(3-5)]
    by (subst name_copy.simps) (simp add: add.assoc)
qed

lemma uncompress_name_at:
  assumes "name_at buf e p segs" "\<forall>s \<in> set segs. label_ok s" "p < e"
  shows "uncompress_nlabel buf e p = Some (Inr (Some (name_of segs)))"
  using name_size_at [OF assms(1,2), of 0] name_copy_at [OF assms(1,2), of "[]"] assms(3)
    name_of_no_nul [OF assms(2)]
  by (simp add: uncompress_nlabel_def)

text \<open>A label with a pointer back to it behind it: the loop goes round forever.\<close>

lemma name_size_diverges:
  assumes "name_step buf e (q + n) = Inr (Some (q, n))"
  shows "name_size buf e (q + n) len = None"
proof -
  have "b = buf \<longrightarrow> e' = e \<longrightarrow> p = q + n \<longrightarrow> False" if h: "name_size b e' p l = Some r" for b e' p l r
    by (rule name_size.raw_induct [OF _ h]) (clarsimp simp: assms, blast)
  then show ?thesis by (metis not_None_eq)
qed

lemma uncompress_diverges:
  assumes "name_step buf e q = Inr (Some (q, n))" "name_step buf e (q + n) = Inr (Some (q, n))" "q < e"
  shows "uncompress_nlabel buf e q = None"
proof -
  have "name_size buf e q 0 = name_size buf e (q + n) n" using assms(1) by (subst name_size.simps) simp
  then show ?thesis using name_size_diverges [OF assms(2)] assms(3) by (simp add: uncompress_nlabel_def)
qed

end
