(* ===== verification/Dns_Packet.thy ===== *)
theory Dns_Packet
  imports Dns_Names
begin

unbundle bit_operations_syntax

text \<open>
  Resource records and packets of tinysvcmdns.c: what is written into the packet buffer, with name
  compression, and what is read from it. Records live in a store and are referred to by their
  address, an index of the store; a parsed packet owns its records.
\<close>

section \<open>Records\<close>

abbreviation RR_A :: u16 where "RR_A \<equiv> 0x01"
abbreviation RR_PTR :: u16 where "RR_PTR \<equiv> 0x0C"
abbreviation RR_TXT :: u16 where "RR_TXT \<equiv> 0x10"
abbreviation RR_AAAA :: u16 where "RR_AAAA \<equiv> 0x1C"
abbreviation RR_SRV :: u16 where "RR_SRV \<equiv> 0x21"
abbreviation RR_NSEC :: u16 where "RR_NSEC \<equiv> 0x2F"
abbreviation RR_ANY :: u16 where "RR_ANY \<equiv> 0xFF"

text \<open>The union; \<open>None\<close> is a NULL pointer. Each member is used only under its own type.\<close>

datatype rr_data =
    No_data
  | A_data u32
  | AAAA_data "bytes option"
  | PTR_data "nlabel option" nat
  | TXT_data "bytes option list"
  | SRV_data u16 u16 u16 "nlabel option"
  | NSEC_data bytes

record rr_entry =
  rr_name :: "nlabel option"
  rr_type :: u16
  rr_ttl :: u32
  unicast_query :: bool
  cache_flush :: bool
  rr_class :: u16
  rr_data :: rr_data

type_synonym rr_store = "rr_entry list"

record 'e mdns_pkt =
  pk_id :: u16
  pk_flags :: u16
  num_qn :: u16
  num_ans_rr :: u16
  num_auth_rr :: u16
  num_add_rr :: u16
  rr_qn :: "'e list"
  rr_ans :: "'e list"
  rr_auth :: "'e list"
  rr_add :: "'e list"

section \<open>Writing\<close>

definition put :: "bytes \<Rightarrow> nat \<Rightarrow> bytes \<Rightarrow> fault + bytes" where
  "put buf p bs =
     (if p + length bs \<le> length buf then Inr (take p buf @ bs @ drop (p + length bs) buf)
      else Inl Out_of_bounds)"

type_synonym name_comp = "(nlabel \<times> nat) list"

fun find_comp :: "name_comp \<Rightarrow> nlabel \<Rightarrow> nat option" where
  "find_comp [] name = None"
| "find_comp ((label, pos) # cs) name = (if name = label then Some pos else find_comp cs name)"

definition pointer_bytes :: "nat \<Rightarrow> bytes" where
  "pointer_bytes pos = be16_bytes (0xC000 OR (of_nat pos AND NOT 0xC000))"

text \<open>
  \<open>p\<close> is where the next byte goes, \<open>len\<close> what is written so far. The list of names for compression
  has a dummy at its head, and names are added at its end.
\<close>

function encode_name_loop ::
    "bytes \<Rightarrow> nat \<Rightarrow> nlabel \<Rightarrow> name_comp \<Rightarrow> nat \<Rightarrow> fault + (bytes \<times> nat \<times> name_comp)" where
  "encode_name_loop buf p name comps len =
     (case name of
        [] \<Rightarrow>
          (case put buf p [0] of
             Inl e \<Rightarrow> Inl e
           | Inr buf \<Rightarrow> Inr (buf, len + 1, comps))
      | n # _ \<Rightarrow>
          (case find_comp comps name of
             Some pos \<Rightarrow>
               (case put buf p (pointer_bytes pos) of
                  Inl e \<Rightarrow> Inl e
                | Inr buf \<Rightarrow> Inr (buf, len + 2, comps))
           | None \<Rightarrow>
               let segment_len = unat n + 1 in
               (case put buf p (take segment_len name @ replicate (segment_len - length name) 0) of
                  Inl e \<Rightarrow> Inl e
                | Inr buf \<Rightarrow>
                    if segment_len > length name then Inl Out_of_bounds
                    else encode_name_loop buf (p + segment_len) (drop segment_len name)
                           (comps @ [(name, p)]) (len + segment_len))))"
  by pat_completeness auto
termination by (relation "measure (\<lambda>(buf, p, name, comps, len). length name)") auto

declare encode_name_loop.simps [simp del]

definition mdns_encode_name ::
    "bytes \<Rightarrow> nat \<Rightarrow> nlabel option \<Rightarrow> name_comp \<Rightarrow> fault + (bytes \<times> nat \<times> name_comp)" where
  "mdns_encode_name buf off name comps =
     (case name of
        None \<Rightarrow> encode_name_loop buf off [] comps 0
      | Some n \<Rightarrow> encode_name_loop buf off n comps 0)"

fun encode_txt :: "bytes \<Rightarrow> nat \<Rightarrow> bytes option list \<Rightarrow> fault + (bytes \<times> nat)" where
  "encode_txt buf p [] = Inr (buf, p)"
| "encode_txt buf p (txt # txts) =
     (case txt of
        None \<Rightarrow> Inl Null_pointer
      | Some [] \<Rightarrow> Inl Out_of_bounds
      | Some (n # cs) \<Rightarrow>
          let len = unat n + 1 in
          (case put buf p (take len (cbytes (n # cs)) @ replicate (len - length (cbytes (n # cs))) 0) of
             Inl e \<Rightarrow> Inl e
           | Inr buf \<Rightarrow> encode_txt buf (p + len) txts))"

text \<open>The data of a record; the result has the index behind it.\<close>

definition encode_data ::
    "rr_store \<Rightarrow> bytes \<Rightarrow> nat \<Rightarrow> rr_entry \<Rightarrow> name_comp \<Rightarrow> fault + (bytes \<times> nat \<times> name_comp)" where
  "encode_data store buf p rr comps =
     (let plain = (\<lambda>bs. case put buf p bs of Inl e \<Rightarrow> Inl e | Inr buf \<Rightarrow> Inr (buf, p + length bs, comps));
          named = (\<lambda>buf p name. case mdns_encode_name buf p name comps of
            Inl e \<Rightarrow> Inl e
          | Inr (buf, l, comps) \<Rightarrow> Inr (buf, p + l, comps))
      in
        case rr_data rr of
          A_data addr \<Rightarrow> plain (be32_bytes (ntohl addr))
        | AAAA_data None \<Rightarrow> Inl Null_pointer
        | AAAA_data (Some addr) \<Rightarrow> plain (take 16 addr)
        | PTR_data name entry \<Rightarrow>
            named buf p (case name of Some n \<Rightarrow> Some n | None \<Rightarrow> rr_name (store ! entry))
        | TXT_data txts \<Rightarrow>
            (case encode_txt buf p txts of
               Inl e \<Rightarrow> Inl e
             | Inr (buf, p) \<Rightarrow> Inr (buf, p, comps))
        | SRV_data priority weight port target \<Rightarrow>
            (case put buf p (be16_bytes priority @ be16_bytes weight @ be16_bytes port) of
               Inl e \<Rightarrow> Inl e
             | Inr buf \<Rightarrow> named buf (p + 6) target)
        | NSEC_data bitmap \<Rightarrow>
            (case named buf p (rr_name rr) of
               Inl e \<Rightarrow> Inl e
             | Inr (buf, p, comps) \<Rightarrow>
                 (case put buf p ([0, 5] @ take 5 bitmap) of
                    Inl e \<Rightarrow> Inl e
                  | Inr buf \<Rightarrow> Inr (buf, p + 2 + length (take 5 bitmap), comps)))
        | No_data \<Rightarrow> Inr (buf, p, comps))"

definition rr_head :: "rr_entry \<Rightarrow> bytes" where
  "rr_head rr = be16_bytes (rr_type rr) @
     be16_bytes ((rr_class rr AND NOT 0x8000) OR (if cache_flush rr then 0x8000 else 0)) @
     be32_bytes (rr_ttl rr)"

definition mdns_encode_rr ::
    "rr_store \<Rightarrow> bytes \<Rightarrow> nat \<Rightarrow> nat \<Rightarrow> rr_entry \<Rightarrow> name_comp \<Rightarrow> fault + (bytes \<times> nat \<times> name_comp)" where
  "mdns_encode_rr store buf pkt_len off rr comps =
     (if off \<ge> pkt_len then Inl Assert_failed
      else
        case mdns_encode_name buf off (rr_name rr) comps of
          Inl e \<Rightarrow> Inl e
        | Inr (buf, l, comps) \<Rightarrow>
            let p = off + l in
            case put buf p (rr_head rr) of
              Inl e \<Rightarrow> Inl e
            | Inr buf \<Rightarrow>
                let p_data = p + 10 in
                case encode_data store buf p_data rr comps of
                  Inl e \<Rightarrow> Inl e
                | Inr (buf, p, comps) \<Rightarrow>
                    (case put buf (p_data - 2) (be16_bytes (of_nat (p - p_data))) of
                       Inl e \<Rightarrow> Inl e
                     | Inr buf \<Rightarrow> Inr (buf, p - off, comps)))"

text \<open>\<open>None\<close> inside is the return of -1 when the packet got too long.\<close>

fun encode_rrs ::
    "rr_store \<Rightarrow> bytes \<Rightarrow> nat \<Rightarrow> nat \<Rightarrow> nat list \<Rightarrow> name_comp \<Rightarrow> fault + (bytes \<times> nat \<times> name_comp) option" where
  "encode_rrs store buf pkt_len off [] comps = Inr (Some (buf, off, comps))"
| "encode_rrs store buf pkt_len off (rr # rrs) comps =
     (case mdns_encode_rr store buf pkt_len off (store ! rr) comps of
        Inl e \<Rightarrow> Inl e
      | Inr (buf, l, comps) \<Rightarrow>
          if off + l \<ge> pkt_len then Inr None
          else encode_rrs store buf pkt_len (off + l) rrs comps)"

definition pkt_header :: "'e mdns_pkt \<Rightarrow> bytes" where
  "pkt_header pkt = be16_bytes (pk_id pkt) @ be16_bytes (pk_flags pkt) @ be16_bytes (num_qn pkt) @
     be16_bytes (num_ans_rr pkt) @ be16_bytes (num_auth_rr pkt) @ be16_bytes (num_add_rr pkt)"

definition mdns_encode_pkt ::
    "rr_store \<Rightarrow> nat mdns_pkt \<Rightarrow> bytes \<Rightarrow> nat \<Rightarrow> fault + (bytes \<times> nat) option" where
  "mdns_encode_pkt store answer buf pkt_len =
     (if \<not> pkt_len \<ge> 12 \<or> num_qn answer \<noteq> 0 then Inl Assert_failed
      else
        case put buf 0 (pkt_header answer) of
          Inl e \<Rightarrow> Inl e
        | Inr buf \<Rightarrow>
            case encode_rrs store buf pkt_len 12 (rr_ans answer @ rr_auth answer @ rr_add answer) [([], 0)] of
              Inl e \<Rightarrow> Inl e
            | Inr None \<Rightarrow> Inr None
            | Inr (Some (buf, off, comps)) \<Rightarrow> Inr (Some (buf, off)))"

section \<open>Reading\<close>

definition get_u16 :: "bytes \<Rightarrow> nat \<Rightarrow> fault + u16" where
  "get_u16 buf p =
     (if p + 2 \<le> length buf then Inr (be16 (buf ! p) (buf ! (p + 1))) else Inl Out_of_bounds)"

definition get_u32 :: "bytes \<Rightarrow> nat \<Rightarrow> fault + u32" where
  "get_u32 buf p =
     (if p + 4 \<le> length buf
      then Inr (be32 (buf ! p) (buf ! (p + 1)) (buf ! (p + 2)) (buf ! (p + 3))) else Inl Out_of_bounds)"

text \<open>
  The result of a parser is what it read and how far it got; \<open>None\<close> inside is the return of 0,
  \<open>None\<close> outside a name that never ends.
\<close>

definition mdns_parse_qn :: "bytes \<Rightarrow> nat \<Rightarrow> nat \<Rightarrow> (fault + (rr_entry \<times> nat)) option" where
  "mdns_parse_qn buf pkt_len off =
     (case uncompress_nlabel buf pkt_len off of
        None \<Rightarrow> None
      | Some (Inl e) \<Rightarrow> Some (Inl e)
      | Some (Inr name) \<Rightarrow>
          Some (case label_len buf pkt_len off of
            Inl e \<Rightarrow> Inl e
          | Inr l \<Rightarrow>
              (case (get_u16 buf (off + l), get_u16 buf (off + l + 2)) of
                 (Inr type, Inr cls) \<Rightarrow>
                   Inr (\<lparr>rr_name = name, rr_type = type, rr_ttl = 0,
                          unicast_query = (cls AND 0x8000 \<noteq> 0), cache_flush = False,
                          rr_class = cls AND NOT 0x80, rr_data = No_data\<rparr>, l + 4)
               | _ \<Rightarrow> Inl Out_of_bounds)))"

text \<open>The strings of a TXT record, up to the end \<open>e\<close> of its data.\<close>

function parse_txt :: "bytes \<Rightarrow> nat \<Rightarrow> nat \<Rightarrow> nat \<Rightarrow> fault + (bytes option list \<times> nat) option" where
  "parse_txt buf pkt_len e p =
     (case copy_label buf pkt_len p of
        Inl err \<Rightarrow> Inl err
      | Inr None \<Rightarrow> Inr None
      | Inr (Some txt) \<Rightarrow>
          let p = p + unat (buf ! p) + 1 in
          if p \<ge> e then Inr (Some ([Some txt], p))
          else
            (case parse_txt buf pkt_len e p of
               Inl err \<Rightarrow> Inl err
             | Inr None \<Rightarrow> Inr None
             | Inr (Some (txts, q)) \<Rightarrow> Inr (Some (Some txt # txts, q))))"
  by pat_completeness auto
termination by (relation "measure (\<lambda>(buf, pkt_len, e, p). e - p)") auto

declare parse_txt.simps [simp del]

definition parse_data ::
    "bytes \<Rightarrow> nat \<Rightarrow> nat \<Rightarrow> nat \<Rightarrow> u16 \<Rightarrow> (fault + (rr_data \<times> nat) option) option" where
  "parse_data buf pkt_len p rr_data_len type =
     (let e = p + rr_data_len in
      if type = RR_A then
        Some (if rr_data_len < 4 then Inr None
              else case get_u32 buf p of Inl err \<Rightarrow> Inl err | Inr a \<Rightarrow> Inr (Some (A_data (ntohl a), p + 4)))
      else if type = RR_AAAA then
        Some (if rr_data_len < 16 then Inr None
              else if p + 16 \<le> length buf then Inr (Some (AAAA_data (Some (take 16 (drop p buf))), p + 16))
              else Inl Out_of_bounds)
      else if type = RR_PTR then
        (case uncompress_nlabel buf pkt_len p of
           None \<Rightarrow> None
         | Some (Inl err) \<Rightarrow> Some (Inl err)
         | Some (Inr None) \<Rightarrow> Some (Inr None)
         | Some (Inr (Some name)) \<Rightarrow> Some (Inr (Some (PTR_data (Some name) 0, p + rr_data_len))))
      else if type = RR_TXT then
        Some (if rr_data_len = 0 then Inr (Some (TXT_data [create_label ''''], p))
              else
                case parse_txt buf pkt_len e p of
                  Inl err \<Rightarrow> Inl err
                | Inr None \<Rightarrow> Inr None
                | Inr (Some (txts, q)) \<Rightarrow> Inr (Some (TXT_data txts, q)))
      else Some (Inr (Some (No_data, e))))"

definition mdns_parse_rr :: "bytes \<Rightarrow> nat \<Rightarrow> nat \<Rightarrow> (fault + (rr_entry \<times> nat) option) option" where
  "mdns_parse_rr buf pkt_len off =
     (if off > pkt_len then Some (Inr None)
      else
        case uncompress_nlabel buf pkt_len off of
          None \<Rightarrow> None
        | Some (Inl e) \<Rightarrow> Some (Inl e)
        | Some (Inr name) \<Rightarrow>
            (case label_len buf pkt_len off of
               Inl e \<Rightarrow> Some (Inl e)
             | Inr l \<Rightarrow>
                 let p = off + l in
                 (case (get_u16 buf p, get_u16 buf (p + 2), get_u32 buf (p + 4), get_u16 buf (p + 8)) of
                    (Inr type, Inr cls, Inr ttl, Inr rr_data_len) \<Rightarrow>
                      let p = p + 10 in
                      if p + unat rr_data_len > pkt_len then Some (Inr None)
                      else
                        (case parse_data buf pkt_len p (unat rr_data_len) type of
                           None \<Rightarrow> None
                         | Some (Inl e) \<Rightarrow> Some (Inl e)
                         | Some (Inr None) \<Rightarrow> Some (Inr None)
                         | Some (Inr (Some (dat, q))) \<Rightarrow>
                             Some (Inr (Some (\<lparr>rr_name = name, rr_type = type, rr_ttl = ttl,
                               unicast_query = False, cache_flush = (cls AND 0x8000 \<noteq> 0),
                               rr_class = cls AND NOT 0x80, rr_data = dat\<rparr>, q - off))))
                  | _ \<Rightarrow> Some (Inl Out_of_bounds))))"

fun parse_qns :: "bytes \<Rightarrow> nat \<Rightarrow> nat \<Rightarrow> nat \<Rightarrow> (fault + (rr_entry list \<times> nat)) option" where
  "parse_qns buf pkt_len off 0 = Some (Inr ([], off))"
| "parse_qns buf pkt_len off (Suc n) =
     (case mdns_parse_qn buf pkt_len off of
        None \<Rightarrow> None
      | Some (Inl e) \<Rightarrow> Some (Inl e)
      | Some (Inr (rr, l)) \<Rightarrow>
          (case parse_qns buf pkt_len (off + l) n of
             None \<Rightarrow> None
           | Some (Inl e) \<Rightarrow> Some (Inl e)
           | Some (Inr (rrs, off)) \<Rightarrow> Some (Inr (rr # rrs, off))))"

fun parse_rrs :: "bytes \<Rightarrow> nat \<Rightarrow> nat \<Rightarrow> nat \<Rightarrow> (fault + rr_entry list option) option" where
  "parse_rrs buf pkt_len off 0 = Some (Inr (Some []))"
| "parse_rrs buf pkt_len off (Suc n) =
     (case mdns_parse_rr buf pkt_len off of
        None \<Rightarrow> None
      | Some (Inl e) \<Rightarrow> Some (Inl e)
      | Some (Inr None) \<Rightarrow> Some (Inr None)
      | Some (Inr (Some (rr, l))) \<Rightarrow>
          if l = 0 then Some (Inr None)
          else
            (case parse_rrs buf pkt_len (off + l) n of
               None \<Rightarrow> None
             | Some (Inl e) \<Rightarrow> Some (Inl e)
             | Some (Inr None) \<Rightarrow> Some (Inr None)
             | Some (Inr (Some rrs)) \<Rightarrow> Some (Inr (Some (rr # rrs)))))"

definition mdns_parse_pkt :: "bytes \<Rightarrow> nat \<Rightarrow> (fault + rr_entry mdns_pkt option) option" where
  "mdns_parse_pkt buf pkt_len =
     (if pkt_len < 12 then Some (Inr None)
      else
        case (get_u16 buf 0, get_u16 buf 2, get_u16 buf 4, get_u16 buf 6, get_u16 buf 8, get_u16 buf 10) of
          (Inr i, Inr flags, Inr nqn, Inr nans, Inr nauth, Inr nadd) \<Rightarrow>
            (case parse_qns buf pkt_len 12 (unat nqn) of
               None \<Rightarrow> None
             | Some (Inl e) \<Rightarrow> Some (Inl e)
             | Some (Inr (qns, off)) \<Rightarrow>
                 (case parse_rrs buf pkt_len off (unat nans) of
                    None \<Rightarrow> None
                  | Some (Inl e) \<Rightarrow> Some (Inl e)
                  | Some (Inr None) \<Rightarrow> Some (Inr None)
                  | Some (Inr (Some rrs)) \<Rightarrow>
                      Some (Inr (Some \<lparr>pk_id = i, pk_flags = flags, num_qn = nqn, num_ans_rr = nans,
                        num_auth_rr = nauth, num_add_rr = nadd, rr_qn = qns, rr_ans = rrs, rr_auth = [],
                        rr_add = []\<rparr>))))
        | _ \<Rightarrow> Some (Inl Out_of_bounds))"

end
