(* ===== verification/Dns_Wire.thy ===== *)
theory Dns_Wire
  imports Dns_Packet
begin

unbundle bit_operations_syntax

text \<open>
  What the encoder writes and the parser of tinysvcmdns.c reads. The buffer is what has been written,
  the bytes to come and a rest; each lemma says that a name, a record or a packet that is written is
  read back, whatever follows, pointers of the name compression included.
\<close>

lemma put_middle:
  "length b' = length b \<Longrightarrow> put (a @ b @ c) (length a) b' = Inr (a @ b' @ c)"
  by (simp add: put_def)

lemma put_next:
  "length b \<le> length rest \<Longrightarrow> put (pre @ rest) (length pre) b = Inr (pre @ b @ drop (length b) rest)"
  by (simp add: put_def)

section \<open>What the names of a packet look like\<close>

lemma byte_at_append [simp]: "byte_at buf i = Inr b \<Longrightarrow> byte_at (buf @ t) i = Inr b"
  by (auto simp: byte_at_def nth_append split: if_splits)

lemma name_step_append:
  assumes "name_step buf e p = Inr (Some (q, n))" "e \<le> e'"
  shows "name_step (buf @ t) e' p = Inr (Some (q, n))"
proof -
  obtain b where b: "byte_at buf p = Inr b" using assms(1) by (auto simp: name_step_def split: sum.splits)
  show ?thesis
  proof (cases "b AND 0xC0 = 0xC0")
    case True
    obtain b1 where b1: "byte_at buf (p + 1) = Inr b1"
      using assms(1) b True by (auto simp: name_step_def split: sum.splits if_splits)
    obtain b2 where b2: "byte_at buf (unat (b AND NOT 0xC0) * 256 + unat b1) = Inr b2"
      using assms(1) b b1 True by (auto simp: name_step_def Let_def split: sum.splits if_splits)
    show ?thesis
      using assms b b1 b2 True by (auto simp: name_step_def Let_def split: if_splits)
  next
    case False
    then show ?thesis using assms b by (auto simp: name_step_def split: if_splits)
  qed
qed

lemma name_at_append:
  "name_at buf e p segs \<Longrightarrow> e \<le> e' \<Longrightarrow> name_at (buf @ t) e' p segs"
proof (induction segs arbitrary: p)
  case Nil
  then show ?case by (auto simp: nth_append)
next
  case (Cons s segs)
  then obtain q where "name_step buf e p = Inr (Some (q, length s + 1))" "q + 1 + length s \<le> length buf"
    "buf ! q = of_nat (length s)" "take (length s) (drop (q + 1) buf) = s" "name_at buf e (q + length s + 1) segs"
    "p < e" by auto
  then show ?case
    using Cons.IH [of "q + length s + 1"] Cons.prems(2) name_step_append [of buf e p q "length s + 1" e' t]
    by (auto simp: nth_append intro!: exI [of _ q])
qed

text \<open>A label that stands literally at an index, with the rest of its name behind it.\<close>

definition label_at :: "bytes \<Rightarrow> nat \<Rightarrow> bytes list \<Rightarrow> bool" where
  "label_at pre p segs \<longleftrightarrow>
     (case segs of
        [] \<Rightarrow> False
      | s # ss \<Rightarrow>
          p + 1 + length s \<le> length pre \<and> pre ! p = of_nat (length s) \<and> take (length s) (drop (p + 1) pre) = s \<and>
          name_at pre (length pre) (p + length s + 1) ss)"

text \<open>The list for compression tells the truth: every name in it is at its position.\<close>

definition comps_ok :: "bytes \<Rightarrow> name_comp \<Rightarrow> bool" where
  "comps_ok pre cs \<longleftrightarrow>
     (\<forall>(l, pos) \<in> set cs. l = [] \<or>
       (\<exists>segs. l = name_of segs \<and> (\<forall>s \<in> set segs. label_ok s) \<and> pos < 0x4000 \<and> label_at pre pos segs))"

lemma label_at_append: "label_at pre p segs \<Longrightarrow> label_at (pre @ t) p segs"
  by (auto simp: label_at_def nth_append name_at_append split: list.splits)

lemma comps_ok_append: "comps_ok pre cs \<Longrightarrow> comps_ok (pre @ t) cs"
  by (fastforce simp: comps_ok_def intro: label_at_append)

lemma comps_ok_start [simp]: "comps_ok pre [([], 0)]"
  by (simp add: comps_ok_def)

lemma comps_ok_both [simp]: "comps_ok pre (cs @ ds) \<longleftrightarrow> comps_ok pre cs \<and> comps_ok pre ds"
  by (auto simp: comps_ok_def)

lemma find_comp_set: "find_comp cs n = Some pos \<Longrightarrow> (n, pos) \<in> set cs"
  by (induction cs n rule: find_comp.induct) (auto split: if_splits)

lemma name_of_inj:
  "name_of segs = name_of segs' \<Longrightarrow> \<forall>s \<in> set segs. label_ok s \<Longrightarrow> \<forall>s \<in> set segs'. label_ok s \<Longrightarrow> segs = segs'"
proof (induction segs arbitrary: segs')
  case Nil
  then show ?case by (cases segs') auto
next
  case (Cons s segs)
  obtain s' ss' where s': "segs' = s' # ss'" using Cons.prems(1) by (cases segs') auto
  have eq: "of_nat (length s) = (of_nat (length s') :: u8)" "s @ name_of segs = s' @ name_of ss'"
    using Cons.prems(1) s' by simp_all
  have ok: "label_ok s" "label_ok s'" using Cons.prems(2,3) s' by simp_all
  have "length s = length s'"
    using arg_cong [OF eq(1), of unat] label_length(1) [OF ok(1)] label_length(1) [OF ok(2)] by metis
  then have "s = s'" "name_of segs = name_of ss'" using eq(2) by simp_all
  then show ?case using Cons.IH [of ss'] Cons.prems(2,3) s' by simp
qed

section \<open>Pointers\<close>

lemma pointer_bytes_read:
  assumes "pos < 0x4000"
  obtains b0 b1 where "pointer_bytes pos = [b0, b1]" "b0 \<noteq> 0" "b0 AND 0xC0 = 0xC0"
    "unat (b0 AND NOT 0xC0) * 256 + unat b1 = pos"
proof -
  define v :: u16 where "v = of_nat pos"
  have v: "unat v = pos" using assms by (simp add: v_def unat_of_nat_small)
  define m0 :: u8 and m1 :: u16 where "m0 = 0xC0" and "m1 = 0xC000"
  define w where "w = m1 OR (v AND NOT m1)"
  define b0 b1 :: u8 where "b0 = ucast (drop_bit 8 w)" and "b1 = ucast w"
  have hi: "\<not> bit v n" if "14 \<le> n" for n
  proof -
    have "take_bit 14 pos = pos" using assms by (simp add: take_bit_nat_eq_self)
    then have "\<not> bit (unat v) n" using v that by (metis bit_take_bit_iff not_le)
    then show ?thesis by (simp add: bit_unsigned_iff)
  qed
  have c0: "bit m0 n \<longleftrightarrow> n = 6 \<or> n = 7" for n
  proof -
    have *: "m0 = push_bit 6 (mask 2)" by (simp add: m0_def m1_def push_bit_eq_mult mask_eq_exp_minus_1)
    show ?thesis unfolding * by (auto simp: bit_simps)
  qed
  have c000: "bit m1 n \<longleftrightarrow> n = 14 \<or> n = 15" for n
  proof -
    have *: "m1 = push_bit 14 (mask 2)" by (simp add: m0_def m1_def push_bit_eq_mult mask_eq_exp_minus_1)
    show ?thesis unfolding * by (auto simp: bit_simps)
  qed
  have and0: "b0 AND m0 = m0"
    by (rule bit_word_eqI) (auto simp: b0_def w_def bit_simps c0 c000)
  have "be16 (b0 AND NOT m0) b1 = v"
    by (rule bit_word_eqI) (auto simp: be16_def b0_def b1_def w_def bit_simps c0 c000 hi dest: bit_imp_le_length)
  then have "unat (b0 AND NOT m0) * 256 + unat b1 = pos" using v by (metis unat_be16)
  moreover have "b0 \<noteq> 0" using and0 by (auto simp: m0_def)
  moreover have "pointer_bytes pos = [b0, b1]"
    by (simp add: pointer_bytes_def be16_bytes_def b0_def b1_def w_def v_def m1_def)
  ultimately show ?thesis using and0 that unfolding m0_def by blast
qed

lemma length_pointer_bytes [simp]: "length (pointer_bytes pos) = 2" "pointer_bytes pos \<noteq> []"
  by (simp_all add: pointer_bytes_def be16_bytes_def)

section \<open>Names\<close>

text \<open>The name that was written behind \<open>pre\<close> is read back, whatever comes behind it.\<close>

definition name_written :: "bytes \<Rightarrow> bytes \<Rightarrow> bytes list \<Rightarrow> bool" where
  "name_written pre bs segs \<longleftrightarrow>
     name_at (pre @ bs) (length (pre @ bs)) (length pre) segs \<and>
     (\<forall>t e l. length (pre @ bs) \<le> e \<longrightarrow> label_len_loop (pre @ bs @ t) e (length pre) l = Inr (l + length bs))"

lemma name_written_zero: "name_written pre [0] []"
  by (auto simp: name_written_def label_len_loop.simps [of _ _ "length pre"] byte_at_def nth_append)

lemma name_written_pointer:
  assumes "label_at pre pos (s # segs)" "pos < 0x4000" "label_ok s"
  shows "name_written pre (pointer_bytes pos) (s # segs)"
proof -
  obtain b0 b1 where b: "pointer_bytes pos = [b0, b1]" "b0 \<noteq> 0" "b0 AND 0xC0 = 0xC0"
    "unat (b0 AND NOT 0xC0) * 256 + unat b1 = pos"
    using pointer_bytes_read [OF assms(2)] by blast
  let ?buf = "pre @ pointer_bytes pos"
  have l: "pos + 1 + length s \<le> length pre" "?buf ! pos = of_nat (length s)"
    "take (length s) (drop (pos + 1) ?buf) = s" "name_at ?buf (length ?buf) (pos + length s + 1) segs"
    using assms(1) name_at_append [of pre "length pre" "pos + length s + 1" segs "length ?buf" "pointer_bytes pos"]
    by (auto simp: label_at_def nth_append)
  have "name_step ?buf (length ?buf) (length pre) = Inr (Some (pos, length s + 1))"
    using b l(1,2) label_length(1) [OF assms(3)]
    by (simp add: name_step_def byte_at_def nth_append Let_def)
  then have "name_at ?buf (length ?buf) (length pre) (s # segs)"
    using l by (auto intro!: exI [of _ pos])
  moreover have "label_len_loop (pre @ pointer_bytes pos @ t) e (length pre) k = Inr (k + 2)"
    if "length ?buf \<le> e" for t e k
    using that b by (subst label_len_loop.simps) (simp add: byte_at_def nth_append)
  ultimately show ?thesis by (simp add: name_written_def)
qed

lemma name_written_label:
  assumes "name_written (pre @ of_nat (length s) # s) bs segs" "label_ok s"
  shows "name_written pre (of_nat (length s) # s @ bs) (s # segs)"
proof -
  let ?n = "of_nat (length s) :: u8"
  let ?buf = "pre @ (?n # s @ bs)"
  note l = label_length [OF assms(2)]
  have at: "name_at ?buf (length ?buf) (length pre + length s + 1) segs"
    using assms(1) by (simp add: name_written_def add.assoc)
  have "name_step ?buf (length ?buf) (length pre) = Inr (Some (length pre, length s + 1))"
    using l by (simp add: name_step_def byte_at_def nth_append)
  then have "name_at ?buf (length ?buf) (length pre) (s # segs)"
    using at by (auto intro!: exI [of _ "length pre"])
  moreover have "label_len_loop (?buf @ t) e (length pre) k = Inr (k + length (?n # s @ bs))"
    if "length ?buf \<le> e" for t e k
  proof -
    have "label_len_loop (?buf @ t) e (length pre + length s + 1) (k + length s + 1) =
        Inr (k + length s + 1 + length bs)"
      using assms(1) that by (simp add: name_written_def add.assoc)
    then show ?thesis
      using that l by (subst label_len_loop.simps) (simp add: byte_at_def nth_append add.assoc)
  qed
  ultimately show ?thesis by (simp add: name_written_def)
qed

lemma label_at_written:
  assumes "name_written (pre @ of_nat (length s) # s) bs segs"
  shows "label_at (pre @ of_nat (length s) # s @ bs) (length pre) (s # segs)"
  using assms by (simp add: label_at_def name_written_def nth_append add.assoc)

lemma find_comp_append:
  "find_comp (cs @ ds) n = (case find_comp cs n of Some pos \<Rightarrow> Some pos | None \<Rightarrow> find_comp ds n)"
  by (induction cs n rule: find_comp.induct) auto

lemma find_comp_longer: "\<forall>(l, pos) \<in> set ds. length n < length l \<Longrightarrow> find_comp ds n = None"
  by (induction ds) auto

text \<open>The bytes of a name written at \<open>p\<close>, and the names that are new in the list for compression.\<close>

fun name_bytes :: "nat \<Rightarrow> bytes list \<Rightarrow> name_comp \<Rightarrow> bytes \<times> name_comp" where
  "name_bytes p [] cs = ([0], [])"
| "name_bytes p (s # segs) cs =
     (case find_comp cs (name_of (s # segs)) of
        Some pos \<Rightarrow> (pointer_bytes pos, [])
      | None \<Rightarrow>
          (of_nat (length s) # s @ fst (name_bytes (p + length s + 1) segs cs),
           (name_of (s # segs), p) # snd (name_bytes (p + length s + 1) segs cs)))"

lemma name_bytes_length:
  "0 < length (fst (name_bytes p segs cs))" "length (fst (name_bytes p segs cs)) \<le> length (name_of segs) + 1"
  by (induction p segs cs rule: name_bytes.induct) (auto split: option.splits simp del: name_of_simps(2), auto)

text \<open>\<open>ds\<close> are the names of the same call, which are longer than what is left of the name.\<close>

lemma encode_name_loop_bytes:
  assumes "\<forall>s \<in> set segs. label_ok s" "\<forall>(l, pos) \<in> set ds. length (name_of segs) < length l"
    and "length (fst (name_bytes (length pre) segs cs)) \<le> length rest"
  shows "encode_name_loop (pre @ rest) (length pre) (name_of segs) (cs @ ds) len =
    (let (bs, news) = name_bytes (length pre) segs cs
     in Inr (pre @ bs @ drop (length bs) rest, len + length bs, cs @ ds @ news))"
  using assms
proof (induction segs arbitrary: pre ds rest len)
  case Nil
  then show ?case by (simp add: encode_name_loop.simps [of _ _ "[]"] put_next)
next
  case (Cons s segs)
  let ?lab = "of_nat (length s) # s" and ?ds = "ds @ [(name_of (s # segs), length pre)]"
  have ok: "label_ok s" using Cons.prems(1) by simp
  have f: "find_comp (cs @ ds) (name_of (s # segs)) = find_comp cs (name_of (s # segs))"
    using find_comp_longer [OF Cons.prems(2)]
    by (cases "find_comp cs (name_of (s # segs))") (simp_all only: find_comp_append option.case)
  show ?case
  proof (cases "find_comp cs (name_of (s # segs))")
    case (Some pos)
    then show ?thesis using Cons.prems(3) f by (subst encode_name_loop.simps) (simp add: put_next)
  next
    case None
    have longer: "\<forall>(l, pos) \<in> set ?ds. length (name_of segs) < length l"
      using Cons.prems(2) by fastforce
    have room: "length ?lab + length (fst (name_bytes (length (pre @ ?lab)) segs cs)) \<le> length rest"
      using Cons.prems(3) None by simp
    have "put (pre @ rest) (length pre) ?lab = Inr ((pre @ ?lab) @ drop (length ?lab) rest)"
      using put_next [of ?lab rest pre] room by simp
    then have "encode_name_loop (pre @ rest) (length pre) (name_of (s # segs)) (cs @ ds) len =
        encode_name_loop ((pre @ ?lab) @ drop (length ?lab) rest) (length (pre @ ?lab)) (name_of segs)
          (cs @ ?ds) (len + length ?lab)"
      using f None label_length [OF ok] by (subst encode_name_loop.simps) simp
    also have "\<dots> = (let (bs, news) = name_bytes (length (pre @ ?lab)) segs cs
       in Inr ((pre @ ?lab) @ bs @ drop (length bs) (drop (length ?lab) rest), len + length ?lab + length bs,
          cs @ ?ds @ news))"
      by (rule Cons.IH [OF _ longer]) (use Cons.prems(1) room in auto)
    finally show ?thesis
      using None by (simp add: split_beta Let_def add.commute add.left_commute)
  qed
qed

lemma name_bytes_written:
  assumes "\<forall>s \<in> set segs. label_ok s" "comps_ok pre cs" "length pre + length (name_of segs) < 0x4000"
  shows "comps_ok (pre @ fst (name_bytes (length pre) segs cs)) (snd (name_bytes (length pre) segs cs)) \<and>
    name_written pre (fst (name_bytes (length pre) segs cs)) segs"
  using assms
proof (induction segs arbitrary: pre)
  case Nil
  then show ?case by (simp add: name_written_zero comps_ok_def)
next
  case (Cons s segs)
  have ok: "label_ok s" using Cons.prems(1) by simp
  show ?case
  proof (cases "find_comp cs (name_of (s # segs))")
    case (Some pos)
    have "name_of (s # segs) \<noteq> []" by simp
    with Cons.prems(2) find_comp_set [OF Some] obtain segs' where s': "name_of (s # segs) = name_of segs'"
      "\<forall>s \<in> set segs'. label_ok s" "pos < 0x4000" "label_at pre pos segs'"
      unfolding comps_ok_def by blast
    then have "label_at pre pos (s # segs)" using name_of_inj [OF s'(1) Cons.prems(1) s'(2)] by simp
    from name_written_pointer [OF this s'(3) ok] show ?thesis
      using Some by (simp add: comps_ok_def)
  next
    case None
    let ?lab = "of_nat (length s) # s"
    have IH: "comps_ok ((pre @ ?lab) @ fst (name_bytes (length (pre @ ?lab)) segs cs))
        (snd (name_bytes (length (pre @ ?lab)) segs cs))"
      "name_written (pre @ ?lab) (fst (name_bytes (length (pre @ ?lab)) segs cs)) segs"
      using Cons.IH [of "pre @ ?lab"] Cons.prems comps_ok_append by auto
    from label_at_written [OF this(2)] name_written_label [OF this(2) ok] IH(1) show ?thesis
      using None Cons.prems(1,3)
      by (auto simp: comps_ok_def simp del: name_of_simps(2) intro!: exI [of _ "s # segs"])
  qed
qed

section \<open>Records\<close>

definition well_named :: "nlabel option \<Rightarrow> bool" where
  "well_named n \<longleftrightarrow> (\<exists>segs. n = Some (name_of segs) \<and> (\<forall>s \<in> set segs. label_ok s))"

definition name_room :: "nlabel option \<Rightarrow> nat" where
  "name_room n = (case n of None \<Rightarrow> 1 | Some n \<Rightarrow> length n + 1)"

text \<open>A string of a TXT record: 62 bytes at most, since \<open>dup_label\<close> refuses 63.\<close>

definition txt_ok :: "bytes option \<Rightarrow> bool" where
  "txt_ok t \<longleftrightarrow>
     (case t of
        Some (n # s) \<Rightarrow> n = of_nat (length s) \<and> length s \<le> 62 \<and> 0 \<notin> set s
      | _ \<Rightarrow> False)"

definition ptr_target :: "rr_store \<Rightarrow> nlabel option \<Rightarrow> nat \<Rightarrow> nlabel option" where
  "ptr_target store name entry = (case name of Some n \<Rightarrow> Some n | None \<Rightarrow> rr_name (store ! entry))"

text \<open>Records the server makes: the data is that of the type, and its names are names.\<close>

definition data_ok :: "rr_store \<Rightarrow> rr_entry \<Rightarrow> bool" where
  "data_ok store rr \<longleftrightarrow>
     (case rr_data rr of
        No_data \<Rightarrow> rr_type rr \<notin> {RR_A, RR_AAAA, RR_PTR, RR_TXT, RR_SRV, RR_NSEC}
      | A_data a \<Rightarrow> rr_type rr = RR_A
      | AAAA_data None \<Rightarrow> False
      | AAAA_data (Some a) \<Rightarrow> rr_type rr = RR_AAAA \<and> length a = 16
      | PTR_data name entry \<Rightarrow> rr_type rr = RR_PTR \<and> well_named (ptr_target store name entry)
      | TXT_data txts \<Rightarrow> rr_type rr = RR_TXT \<and> txts \<noteq> [] \<and> (\<forall>t \<in> set txts. txt_ok t)
      | SRV_data pr w port target \<Rightarrow> rr_type rr = RR_SRV \<and> well_named target
      | NSEC_data bitmap \<Rightarrow> rr_type rr = RR_NSEC \<and> length bitmap = 5)"

definition data_room :: "rr_store \<Rightarrow> rr_entry \<Rightarrow> nat" where
  "data_room store rr =
     (case rr_data rr of
        No_data \<Rightarrow> 0
      | A_data a \<Rightarrow> 4
      | AAAA_data a \<Rightarrow> 16
      | PTR_data name entry \<Rightarrow> name_room (ptr_target store name entry)
      | TXT_data txts \<Rightarrow> sum_list (map (\<lambda>t. length (the t)) txts)
      | SRV_data pr w port target \<Rightarrow> 6 + name_room target
      | NSEC_data bitmap \<Rightarrow> name_room (rr_name rr) + 7)"

text \<open>What the parser makes of it: it fills in the names of pointers and skips SRV and NSEC.\<close>

definition seen_data :: "rr_store \<Rightarrow> rr_entry \<Rightarrow> rr_data" where
  "seen_data store rr =
     (case rr_data rr of
        PTR_data name entry \<Rightarrow> PTR_data (ptr_target store name entry) 0
      | SRV_data _ _ _ _ \<Rightarrow> No_data
      | NSEC_data _ \<Rightarrow> No_data
      | d \<Rightarrow> d)"

definition seen_class :: "rr_entry \<Rightarrow> u16" where
  "seen_class rr = ((rr_class rr AND NOT 0x8000) OR (if cache_flush rr then 0x8000 else 0)) AND NOT 0x80"

definition seen :: "rr_store \<Rightarrow> rr_entry \<Rightarrow> rr_entry" where
  "seen store rr =
     rr\<lparr>unicast_query := False, rr_class := seen_class rr, rr_data := seen_data store rr\<rparr>"

text \<open>\<open>d\<close> is what is written for the data of a record at \<open>p\<close>, and it is read as it should.\<close>

definition data_bytes :: "rr_store \<Rightarrow> rr_entry \<Rightarrow> nat \<Rightarrow> name_comp \<Rightarrow> bytes \<Rightarrow> name_comp \<Rightarrow> bool" where
  "data_bytes store rr p cs d news \<longleftrightarrow>
     (\<forall>pre rest. length pre = p \<and> length d \<le> length rest \<longrightarrow>
        encode_data store (pre @ rest) p rr cs = Inr (pre @ d @ drop (length d) rest, p + length d, cs @ news)) \<and>
     (\<forall>pre. length pre = p \<and> comps_ok pre cs \<longrightarrow>
        comps_ok (pre @ d) news \<and>
        (\<forall>t e. length (pre @ d) \<le> e \<longrightarrow>
           parse_data (pre @ d @ t) e p (length d) (rr_type rr) = Some (Inr (Some (seen_data store rr, p + length d)))))"

lemma mdns_encode_name_bytes:
  assumes "name_bytes p segs cs = (bs, news)" "\<forall>s \<in> set segs. label_ok s"
    and "length pre = p" "length bs \<le> length rest"
  shows "mdns_encode_name (pre @ rest) p (Some (name_of segs)) cs =
    Inr (pre @ bs @ drop (length bs) rest, length bs, cs @ news)"
  using encode_name_loop_bytes [of segs "[]" pre cs rest 0] assms by (simp add: mdns_encode_name_def)

lemma written_name_read:
  assumes "name_written pre bs segs" "\<forall>s \<in> set segs. label_ok s" "0 < length bs" "length (pre @ bs) \<le> e"
  shows "uncompress_nlabel (pre @ bs @ t) e (length pre) = Some (Inr (Some (name_of segs)))"
    "label_len (pre @ bs @ t) e (length pre) = Inr (length bs)"
proof -
  have "name_at ((pre @ bs) @ t) e (length pre) segs"
    by (rule name_at_append [of "pre @ bs" "length (pre @ bs)"]) (use assms(1,4) in \<open>simp_all add: name_written_def\<close>)
  then show "uncompress_nlabel (pre @ bs @ t) e (length pre) = Some (Inr (Some (name_of segs)))"
    using uncompress_name_at [of "pre @ bs @ t" e "length pre" segs] assms(2-4)
    by (metis add.commute append_assoc length_append less_add_same_cancel1 order_less_le_trans)
  show "label_len (pre @ bs @ t) e (length pre) = Inr (length bs)"
    using assms(1,4) by (simp add: name_written_def label_len_def)
qed

text \<open>A name at \<open>p\<close>: \<open>bs\<close> is what is written and read.\<close>

definition named_bytes :: "nlabel option \<Rightarrow> nat \<Rightarrow> name_comp \<Rightarrow> bytes \<Rightarrow> name_comp \<Rightarrow> bool" where
  "named_bytes n p cs bs news \<longleftrightarrow>
     0 < length bs \<and> length bs \<le> name_room n \<and>
     (\<forall>pre rest. length pre = p \<and> length bs \<le> length rest \<longrightarrow>
        mdns_encode_name (pre @ rest) p n cs = Inr (pre @ bs @ drop (length bs) rest, length bs, cs @ news)) \<and>
     (\<forall>pre. length pre = p \<and> comps_ok pre cs \<longrightarrow>
        comps_ok (pre @ bs) news \<and>
        (\<forall>t e. length (pre @ bs) \<le> e \<longrightarrow>
           uncompress_nlabel (pre @ bs @ t) e p = Some (Inr n) \<and> label_len (pre @ bs @ t) e p = Inr (length bs)))"

lemma well_named_bytes:
  assumes "well_named n" "p + name_room n \<le> 0x4000"
  obtains bs news where "named_bytes n p cs bs news"
proof -
  obtain segs where s: "n = Some (name_of segs)" "\<forall>s \<in> set segs. label_ok s"
    using assms(1) by (auto simp: well_named_def)
  obtain bs news where b: "name_bytes p segs cs = (bs, news)" by fastforce
  have l: "0 < length bs" "length bs \<le> name_room n"
    using name_bytes_length [of p segs cs] b s(1) by (simp_all add: name_room_def)
  have w: "comps_ok (pre @ bs) news" "name_written pre bs segs" if "length pre = p" "comps_ok pre cs" for pre
    using name_bytes_written [OF s(2) that(2)] that(1) assms(2) b s(1) by (simp_all add: name_room_def)
  have "named_bytes n p cs bs news"
    unfolding named_bytes_def
    using l mdns_encode_name_bytes [OF b s(2)] w written_name_read [OF w(2) s(2) l(1)] s(1) by auto
  then show ?thesis by (rule that)
qed

lemma get_u16_bytes: "get_u16 (pre @ be16_bytes v @ t) (length pre) = Inr v"
  by (simp add: get_u16_def be16_bytes_def nth_append)

lemma get_u32_bytes: "get_u32 (pre @ be32_bytes v @ t) (length pre) = Inr v"
  by (simp add: get_u32_def be32_bytes_def nth_append)

lemma ntohl_ntohl [simp]: "ntohl (ntohl v) = v"
proof (rule bit_word_eqI)
  fix n assume "n < LENGTH(32)"
  then consider "n < 8" | "8 \<le> n" "n < 16" | "16 \<le> n" "n < 24" | "24 \<le> n" "n < 32"
    by force
  then show "bit (ntohl (ntohl v)) n = bit v n"
    by cases (auto simp: ntohl_def bit_simps dest: bit_imp_le_length)
qed

lemma data_bytes_A: "rr_data rr = A_data a \<Longrightarrow> rr_type rr = RR_A \<Longrightarrow> data_bytes store rr p cs (be32_bytes (ntohl a)) []"
  by (auto simp: data_bytes_def encode_data_def put_next parse_data_def get_u32_bytes comps_ok_def seen_data_def)

lemma data_bytes_AAAA:
  "rr_data rr = AAAA_data (Some a) \<Longrightarrow> rr_type rr = RR_AAAA \<Longrightarrow> length a = 16 \<Longrightarrow> data_bytes store rr p cs a []"
  by (auto simp: data_bytes_def encode_data_def put_next parse_data_def comps_ok_def seen_data_def)

lemma data_bytes_none:
  "rr_data rr = No_data \<Longrightarrow> rr_type rr \<notin> {RR_A, RR_AAAA, RR_PTR, RR_TXT, RR_SRV, RR_NSEC} \<Longrightarrow>
    data_bytes store rr p cs [] []"
  by (auto simp: data_bytes_def encode_data_def parse_data_def comps_ok_def seen_data_def)

lemma data_bytes_PTR:
  assumes "rr_data rr = PTR_data name entry" "rr_type rr = RR_PTR"
    and "well_named (ptr_target store name entry)" "p + name_room (ptr_target store name entry) \<le> 0x4000"
  shows "\<exists>d news. data_bytes store rr p cs d news \<and> length d \<le> name_room (ptr_target store name entry)"
proof -
  let ?n = "ptr_target store name entry"
  obtain bs news where b: "named_bytes ?n p cs bs news" by (rule well_named_bytes [OF assms(3,4)])
  have n: "(case name of None \<Rightarrow> rr_name (store ! entry) | Some n \<Rightarrow> Some n) = ?n"
    by (simp add: ptr_target_def split: option.splits)
  obtain m where m: "?n = Some m" using assms(3) by (auto simp: well_named_def)
  have "data_bytes store rr p cs bs news"
    using b assms(1,2) by (auto simp: data_bytes_def named_bytes_def encode_data_def n parse_data_def seen_data_def m)
  then show ?thesis using b by (auto simp: named_bytes_def)
qed

lemma data_bytes_SRV:
  assumes "rr_data rr = SRV_data pr w port target" "rr_type rr = RR_SRV"
    and "well_named target" "p + 6 + name_room target \<le> 0x4000"
  shows "\<exists>d news. data_bytes store rr p cs d news \<and> length d \<le> 6 + name_room target"
proof -
  let ?h = "be16_bytes pr @ be16_bytes w @ be16_bytes port"
  obtain bs news where b: "named_bytes target (p + 6) cs bs news" by (rule well_named_bytes [OF assms(3,4)])
  have l: "length ?h = 6" by simp
  have enc: "encode_data store (pre @ rest) p rr cs =
      Inr (pre @ (?h @ bs) @ drop (length (?h @ bs)) rest, p + length (?h @ bs), cs @ news)"
    if "length pre = p" "length (?h @ bs) \<le> length rest" for pre rest
  proof -
    have "put (pre @ rest) p ?h = Inr ((pre @ ?h) @ drop 6 rest)"
      using put_next [of ?h rest pre] that l by simp
    moreover have "mdns_encode_name ((pre @ ?h) @ drop 6 rest) (p + 6) target cs =
        Inr ((pre @ ?h) @ bs @ drop (length bs) (drop 6 rest), length bs, cs @ news)"
      using b [unfolded named_bytes_def, THEN conjunct2, THEN conjunct2, THEN conjunct1, rule_format,
          of "pre @ ?h" "drop 6 rest"] that l by simp
    moreover have "6 + length bs = length (?h @ bs)" using l by simp
    ultimately show ?thesis using assms(1) l by (simp add: encode_data_def add.commute [of _ 6])
  qed
  have "comps_ok (pre @ ?h @ bs) news" if "length pre = p" "comps_ok pre cs" for pre
  proof -
    have "comps_ok (pre @ ?h) cs" "length (pre @ ?h) = p + 6" using that comps_ok_append by auto
    then have "comps_ok ((pre @ ?h) @ bs) news" using b by (simp only: named_bytes_def)
    then show ?thesis by simp
  qed
  then have "data_bytes store rr p cs (?h @ bs) news"
    using enc assms(1,2) by (auto simp: data_bytes_def parse_data_def seen_data_def)
  then show ?thesis using b l by (intro exI [of _ "?h @ bs"] exI [of _ news]) (simp add: named_bytes_def)
qed

lemma data_bytes_NSEC:
  assumes "rr_data rr = NSEC_data bitmap" "rr_type rr = RR_NSEC" "length bitmap = 5"
    and "well_named (rr_name rr)" "p + name_room (rr_name rr) \<le> 0x4000"
  shows "\<exists>d news. data_bytes store rr p cs d news \<and> length d \<le> name_room (rr_name rr) + 7"
proof -
  let ?t = "[0, 5] @ bitmap"
  obtain bs news where b: "named_bytes (rr_name rr) p cs bs news" by (rule well_named_bytes [OF assms(4,5)])
  have enc: "encode_data store (pre @ rest) p rr cs =
      Inr (pre @ (bs @ ?t) @ drop (length (bs @ ?t)) rest, p + length (bs @ ?t), cs @ news)"
    if "length pre = p" "length (bs @ ?t) \<le> length rest" for pre rest
  proof -
    have "mdns_encode_name (pre @ rest) p (rr_name rr) cs =
        Inr ((pre @ bs) @ drop (length bs) rest, length bs, cs @ news)"
      using b that by (simp add: named_bytes_def)
    moreover have "put ((pre @ bs) @ drop (length bs) rest) (p + length bs) ?t =
        Inr ((pre @ bs) @ ?t @ drop (length ?t) (drop (length bs) rest))"
      using put_next [of ?t "drop (length bs) rest" "pre @ bs"] that by simp
    ultimately show ?thesis using assms(1,3) by (simp add: encode_data_def add.commute)
  qed
  have "comps_ok (pre @ bs @ ?t) news" if "length pre = p" "comps_ok pre cs" for pre
    using b that comps_ok_append [of "pre @ bs" news ?t] by (simp add: named_bytes_def)
  then have "data_bytes store rr p cs (bs @ ?t) news"
    using enc assms(1,2) by (auto simp: data_bytes_def parse_data_def seen_data_def)
  then show ?thesis
    using b assms(3) by (intro exI [of _ "bs @ ?t"] exI [of _ news]) (simp add: named_bytes_def)
qed

text \<open>The strings of a TXT record.\<close>

lemma txt_bytes:
  assumes "txt_ok t"
  obtains n s where "t = Some (n # s)" "unat n = length s" "length s \<le> 62"
    "take (Suc (length s)) (cbytes (n # s)) @ replicate (Suc (length s) - length (cbytes (n # s))) 0 = n # s"
proof -
  obtain n s where t: "t = Some (n # s)" "n = of_nat (length s)" "length s \<le> 62" "0 \<notin> set s"
    using assms by (auto simp: txt_ok_def split: option.splits list.splits)
  have u: "unat n = length s" using t(2,3) by (simp add: unat_of_nat_small)
  have "take (Suc (length s)) (cbytes (n # s)) @ replicate (Suc (length s) - length (cbytes (n # s))) 0 = n # s"
  proof (cases "s = []")
    case True
    then show ?thesis using t(2) by (simp add: cbytes_def)
  next
    case False
    then have "n \<noteq> 0" using u by auto
    then have "cbytes (n # s) = n # s" using t(4) by (intro cbytes_no_nul(2)) auto
    then show ?thesis by simp
  qed
  then show ?thesis using that t u by blast
qed

lemma dup_label_txt:
  assumes "txt_ok (Some (n # s))"
  shows "dup_label (pre @ n # s @ r) (length pre) = Inr (Some (n # s))"
proof -
  have u: "unat n = length s" "length s \<le> 62"
    and c: "take (Suc (length s)) (cbytes (n # s)) @ replicate (Suc (length s) - length (cbytes (n # s))) 0 = n # s"
    by (rule txt_bytes [OF assms], simp)+
  have "length (cbytes (n # s)) \<le> length (n # s)" unfolding cbytes_def by (rule length_takeWhile_le)
  then have "cbytes (n # s) @ replicate (Suc (length s) - length (cbytes (n # s))) 0 = n # s" using c by simp
  then show ?thesis using u by (simp add: dup_label_def nth_append strncpy_bytes_def Let_def)
qed

lemma encode_txt_bytes:
  assumes "\<forall>t \<in> set txts. txt_ok t" "length (concat (map the txts)) \<le> length rest"
  shows "encode_txt (pre @ rest) (length pre) txts =
    Inr (pre @ concat (map the txts) @ drop (length (concat (map the txts))) rest,
      length pre + length (concat (map the txts)))"
  using assms
proof (induction txts arbitrary: pre rest)
  case (Cons t txts)
  have "txt_ok t" using Cons.prems by simp
  then obtain n s where t: "t = Some (n # s)" "unat n = length s"
    "take (Suc (length s)) (cbytes (n # s)) @ replicate (Suc (length s) - length (cbytes (n # s))) 0 = n # s"
    by (rule txt_bytes)
  have "put (pre @ rest) (length pre) (n # s) = Inr ((pre @ n # s) @ drop (Suc (length s)) rest)"
    using put_next [of "n # s" rest pre] Cons.prems(2) t(1) by simp
  moreover have "encode_txt ((pre @ n # s) @ drop (Suc (length s)) rest) (length (pre @ n # s)) txts =
      Inr ((pre @ n # s) @ concat (map the txts) @ drop (length (concat (map the txts))) (drop (Suc (length s)) rest),
        length (pre @ n # s) + length (concat (map the txts)))"
    by (rule Cons.IH) (use Cons.prems t(1) in auto)
  ultimately show ?case using t by (simp add: add.commute add.left_commute)
qed simp

lemma parse_txt_bytes:
  assumes "\<forall>t \<in> set txts. txt_ok t" "txts \<noteq> []" "e = length pre + length (concat (map the txts))" "e \<le> pkt_len"
  shows "parse_txt (pre @ concat (map the txts) @ r) pkt_len e (length pre) = Inr (Some (txts, e))"
  using assms
proof (induction txts arbitrary: pre)
  case (Cons t txts)
  have "txt_ok t" using Cons.prems by simp
  then obtain n s where t: "t = Some (n # s)" "unat n = length s" by (rule txt_bytes)
  have d: "txt_ok (Some (n # s))" using Cons.prems(1) t(1) by simp
  let ?C = "concat (map the txts)"
  have cp: "copy_label (pre @ n # s @ ?C @ r) pkt_len (length pre) = Inr (Some (n # s))"
    using t dup_label_txt [OF d, of pre] Cons.prems(3,4) by (simp add: copy_label_def byte_at_def nth_append)
  show ?case
  proof (cases "txts = []")
    case True
    then show ?thesis using cp t Cons.prems(3) by (subst parse_txt.simps) (simp add: nth_append Let_def)
  next
    case False
    then obtain t2 ts where ts: "txts = t2 # ts" by (cases txts) auto
    have "txt_ok t2" using Cons.prems(1) ts by simp
    then obtain n2 s2 where "t2 = Some (n2 # s2)" by (rule txt_bytes)
    then have "0 < length ?C" using ts by simp
    moreover have "parse_txt ((pre @ n # s) @ ?C @ r) pkt_len e (length (pre @ n # s)) = Inr (Some (txts, e))"
      by (rule Cons.IH) (use Cons.prems t False in auto)
    ultimately show ?thesis
      using cp t Cons.prems(3) by (subst parse_txt.simps) (auto simp: nth_append Let_def)
  qed
qed simp

lemma data_bytes_TXT:
  assumes "rr_data rr = TXT_data txts" "rr_type rr = RR_TXT" "txts \<noteq> []" "\<forall>t \<in> set txts. txt_ok t"
  shows "data_bytes store rr p cs (concat (map the txts)) []"
proof -
  obtain t ts where ts: "txts = t # ts" using assms(3) by (cases txts) auto
  have "txt_ok t" using assms(4) ts by simp
  then obtain n s where "t = Some (n # s)" by (rule txt_bytes)
  then have "concat (map the txts) \<noteq> []" using ts by simp
  then show ?thesis
    using assms encode_txt_bytes [OF assms(4)] parse_txt_bytes [OF assms(4,3) refl]
    by (auto simp: data_bytes_def encode_data_def parse_data_def seen_data_def comps_ok_def Let_def)
qed

lemma data_written:
  assumes "well_named (rr_name rr)" "data_ok store rr" "p + data_room store rr \<le> 0x4000"
  obtains d news where "data_bytes store rr p cs d news" "length d \<le> data_room store rr"
proof (cases "rr_data rr")
  case No_data
  then show ?thesis using that [of "[]" "[]"] data_bytes_none [of rr] assms(2) by (simp add: data_ok_def)
next
  case (A_data a)
  then show ?thesis
    using that [of "be32_bytes (ntohl a)" "[]"] data_bytes_A [of rr] assms(2) by (simp add: data_ok_def data_room_def)
next
  case (AAAA_data a)
  then obtain b where "a = Some b" "length b = 16" "rr_type rr = RR_AAAA"
    using assms(2) by (auto simp: data_ok_def split: option.splits)
  then show ?thesis using that [of b "[]"] data_bytes_AAAA [of rr] AAAA_data by (simp add: data_room_def)
next
  case (PTR_data name entry)
  then show ?thesis using data_bytes_PTR [of rr name entry store p cs] assms that by (auto simp: data_ok_def data_room_def)
next
  case (TXT_data txts)
  then show ?thesis
    using that [of "concat (map the txts)" "[]"] data_bytes_TXT [of rr txts] assms(2)
    by (simp add: data_ok_def data_room_def length_concat o_def)
next
  case (SRV_data pr w port target)
  then show ?thesis
    using data_bytes_SRV [of rr pr w port target p store cs] assms that by (auto simp: data_ok_def data_room_def add.assoc)
next
  case (NSEC_data bitmap)
  then show ?thesis
    using data_bytes_NSEC [of rr bitmap p store cs] assms that by (auto simp: data_ok_def data_room_def)
qed

section \<open>Whole records\<close>

definition rr_ok :: "rr_store \<Rightarrow> rr_entry \<Rightarrow> bool" where
  "rr_ok store rr \<longleftrightarrow> well_named (rr_name rr) \<and> data_ok store rr"

definition rr_room :: "rr_store \<Rightarrow> rr_entry \<Rightarrow> nat" where
  "rr_room store rr = name_room (rr_name rr) + 10 + data_room store rr"

definition rr_bytes :: "rr_store \<Rightarrow> rr_entry \<Rightarrow> nat \<Rightarrow> name_comp \<Rightarrow> bytes \<Rightarrow> name_comp \<Rightarrow> bool" where
  "rr_bytes store rr p cs bs news \<longleftrightarrow>
     0 < length bs \<and> length bs \<le> rr_room store rr \<and>
     (\<forall>pre rest e. length pre = p \<and> p < e \<and> length bs \<le> length rest \<longrightarrow>
        mdns_encode_rr store (pre @ rest) e p rr cs = Inr (pre @ bs @ drop (length bs) rest, length bs, cs @ news)) \<and>
     (\<forall>pre. length pre = p \<and> comps_ok pre cs \<longrightarrow>
        comps_ok (pre @ bs) news \<and>
        (\<forall>t e. length (pre @ bs) \<le> e \<longrightarrow>
           mdns_parse_rr (pre @ bs @ t) e p = Some (Inr (Some (seen store rr, length bs)))))"

definition wire_class :: "rr_entry \<Rightarrow> u16" where
  "wire_class rr = (rr_class rr AND NOT 0x8000) OR (if cache_flush rr then 0x8000 else 0)"

lemma flush_bit:
  "((x :: 'a::len word) AND NOT m OR m) AND m = m" "((x :: 'a word) AND NOT m OR 0) AND m = 0"
  by (auto simp: bit_eq_iff bit_simps)

lemma wire_class_flush: "wire_class rr AND 0x8000 \<noteq> 0 \<longleftrightarrow> cache_flush rr"
  unfolding wire_class_def by (cases "cache_flush rr") (simp_all only: if_True if_False flush_bit, simp_all)

lemma rr_head_bytes: "rr_head rr = be16_bytes (rr_type rr) @ be16_bytes (wire_class rr) @ be32_bytes (rr_ttl rr)"
  by (simp add: rr_head_def wire_class_def)

lemma seen_fields:
  "\<lparr>rr_name = rr_name rr, rr_type = rr_type rr, rr_ttl = rr_ttl rr, unicast_query = False,
     cache_flush = (wire_class rr AND 0x8000 \<noteq> 0), rr_class = wire_class rr AND NOT 0x80,
     rr_data = seen_data store rr\<rparr> = seen store rr"
  unfolding wire_class_flush by (simp add: seen_def seen_class_def wire_class_def)

text \<open>The head of a record is read wherever it stands.\<close>

lemma head_read:
  fixes l :: u16
  assumes "buf = pre @ rr_head rr @ be16_bytes l @ t" "length pre = p"
  shows "get_u16 buf p = Inr (rr_type rr)" "get_u16 buf (p + 2) = Inr (wire_class rr)"
    "get_u32 buf (p + 4) = Inr (rr_ttl rr)" "get_u16 buf (p + 8) = Inr l"
proof -
  let ?T = "be16_bytes (rr_type rr)" and ?C = "be16_bytes (wire_class rr)" and ?L = "be32_bytes (rr_ttl rr)"
  show "get_u16 buf p = Inr (rr_type rr)"
    using get_u16_bytes [of pre "rr_type rr" "?C @ ?L @ be16_bytes l @ t"] assms by (simp add: rr_head_bytes)
  show "get_u16 buf (p + 2) = Inr (wire_class rr)"
    using get_u16_bytes [of "pre @ ?T" "wire_class rr" "?L @ be16_bytes l @ t"] assms by (simp add: rr_head_bytes)
  show "get_u32 buf (p + 4) = Inr (rr_ttl rr)"
    using get_u32_bytes [of "pre @ ?T @ ?C" "rr_ttl rr" "be16_bytes l @ t"] assms by (simp add: rr_head_bytes add.assoc)
  show "get_u16 buf (p + 8) = Inr l"
    using get_u16_bytes [of "pre @ ?T @ ?C @ ?L" l t] assms by (simp add: rr_head_bytes add.assoc)
qed

lemma length_rr_head [simp]: "length (rr_head rr) = 8"
  by (simp add: rr_head_bytes)

lemma named_bytesD:
  assumes "named_bytes n p cs bs news"
  shows "length pre = p \<Longrightarrow> length bs \<le> length rest \<Longrightarrow>
      mdns_encode_name (pre @ rest) p n cs = Inr (pre @ bs @ drop (length bs) rest, length bs, cs @ news)"
    "length pre = p \<Longrightarrow> comps_ok pre cs \<Longrightarrow> comps_ok (pre @ bs) news"
    "length pre = p \<Longrightarrow> comps_ok pre cs \<Longrightarrow> length (pre @ bs) \<le> e \<Longrightarrow>
      uncompress_nlabel (pre @ bs @ t) e p = Some (Inr n)"
    "length pre = p \<Longrightarrow> comps_ok pre cs \<Longrightarrow> length (pre @ bs) \<le> e \<Longrightarrow>
      label_len (pre @ bs @ t) e p = Inr (length bs)"
  using assms unfolding named_bytes_def by blast+

lemma data_bytesD:
  assumes "data_bytes store rr p cs d news"
  shows "length pre = p \<Longrightarrow> length d \<le> length rest \<Longrightarrow>
      encode_data store (pre @ rest) p rr cs = Inr (pre @ d @ drop (length d) rest, p + length d, cs @ news)"
    "length pre = p \<Longrightarrow> comps_ok pre cs \<Longrightarrow> comps_ok (pre @ d) news"
    "length pre = p \<Longrightarrow> comps_ok pre cs \<Longrightarrow> length (pre @ d) \<le> e \<Longrightarrow>
      parse_data (pre @ d @ t) e p (length d) (rr_type rr) = Some (Inr (Some (seen_data store rr, p + length d)))"
  using assms unfolding data_bytes_def by blast+

lemma encode_rr_bytes:
  assumes nb: "named_bytes (rr_name rr) p cs nb nn" and db: "data_bytes store rr (p + length nb + 10) (cs @ nn) d nd"
    and "length pre = p" "p < e" "length (nb @ rr_head rr @ be16_bytes l @ d) \<le> length rest" "l = of_nat (length d)"
  shows "mdns_encode_rr store (pre @ rest) e p rr cs =
    Inr (pre @ (nb @ rr_head rr @ be16_bytes l @ d) @ drop (length (nb @ rr_head rr @ be16_bytes l @ d)) rest,
      length (nb @ rr_head rr @ be16_bytes l @ d), cs @ nn @ nd)"
proof -
  define a where "a = pre @ nb @ rr_head rr"
  define j where "j = take 2 (drop (length nb + 8) rest)"
  define r where "r = drop (length nb + 10) rest"
  have room: "length nb + 10 + length d \<le> length rest" using assms(5) by simp
  have lens: "length a = p + length nb + 8" "length j = 2" "length (a @ j) = p + length nb + 10" "length d \<le> length r"
    using room assms(3) by (simp_all add: a_def j_def r_def)
  have split: "drop (length nb + 8) rest = j @ r"
    using append_take_drop_id [of 2 "drop (length nb + 8) rest"] by (simp add: j_def r_def add.commute add.left_commute)
  have "mdns_encode_name (pre @ rest) p (rr_name rr) cs = Inr ((pre @ nb) @ drop (length nb) rest, length nb, cs @ nn)"
    using named_bytesD(1) [OF nb assms(3)] room by simp
  moreover have "put ((pre @ nb) @ drop (length nb) rest) (p + length nb) (rr_head rr) = Inr (a @ j @ r)"
    using put_next [of "rr_head rr" "drop (length nb) rest" "pre @ nb"] room assms(3) split
    by (simp add: a_def add.commute)
  moreover have "encode_data store (a @ j @ r) (p + length nb + 10) rr (cs @ nn) =
      Inr (a @ j @ d @ drop (length d) r, p + length nb + 10 + length d, cs @ nn @ nd)"
    using data_bytesD(1) [OF db lens(3,4)] by simp
  moreover have "put (a @ j @ d @ drop (length d) r) (p + length nb + 8) (be16_bytes l) =
      Inr (a @ be16_bytes l @ d @ drop (length d) r)"
    using put_middle [of "be16_bytes l" j a "d @ drop (length d) r"] lens by simp
  ultimately show ?thesis
    using assms(4,6) room by (simp add: mdns_encode_rr_def Let_def a_def r_def add.commute add.left_commute)
qed

lemma parse_rr_bytes:
  assumes nb: "named_bytes (rr_name rr) p cs nb nn" and db: "data_bytes store rr (p + length nb + 10) (cs @ nn) d nd"
    and "length pre = p" "comps_ok pre cs" "unat l = length d" "length (pre @ nb @ rr_head rr @ be16_bytes l @ d) \<le> e"
  shows "mdns_parse_rr (pre @ (nb @ rr_head rr @ be16_bytes l @ d) @ t) e p =
    Some (Inr (Some (seen store rr, length (nb @ rr_head rr @ be16_bytes l @ d))))"
proof -
  let ?h = "rr_head rr @ be16_bytes l"
  let ?buf = "pre @ (nb @ rr_head rr @ be16_bytes l @ d) @ t"
  have name: "uncompress_nlabel ?buf e p = Some (Inr (rr_name rr))" "label_len ?buf e p = Inr (length nb)"
    using named_bytesD(3,4) [OF nb assms(3,4), of e "?h @ d @ t"] assms(6) by simp_all
  have head: "get_u16 ?buf (p + length nb) = Inr (rr_type rr)" "get_u16 ?buf (p + length nb + 2) = Inr (wire_class rr)"
    "get_u32 ?buf (p + length nb + 4) = Inr (rr_ttl rr)" "get_u16 ?buf (p + length nb + 8) = Inr l"
    by (rule head_read [of _ "pre @ nb" rr l "d @ t"]; simp add: assms(3))+
  have "comps_ok ((pre @ nb) @ ?h) (cs @ nn)"
    by (rule comps_ok_append) (simp add: named_bytesD(2) [OF nb assms(3,4)] comps_ok_append [OF assms(4)])
  then have dat: "parse_data ?buf e (p + length nb + 10) (length d) (rr_type rr) =
      Some (Inr (Some (seen_data store rr, p + length nb + 10 + length d)))"
    using data_bytesD(3) [OF db, of "pre @ nb @ ?h" e t] assms(3,6) by simp
  define B where "B = ?buf"
  note facts = name [folded B_def] head [folded B_def] dat [folded B_def]
  have "p < e" "p + length nb + 10 + length d \<le> e" using assms(3,6) by simp_all
  then show ?thesis
    unfolding B_def [symmetric]
    using assms(5) seen_fields [of rr store]
    by (simp add: mdns_parse_rr_def Let_def facts del: add_2_eq_Suc add_2_eq_Suc')
qed

lemma rr_written:
  assumes "rr_ok store rr" "p + rr_room store rr \<le> 0x4000"
  obtains bs news where "rr_bytes store rr p cs bs news"
proof -
  have ok: "well_named (rr_name rr)" "data_ok store rr" using assms(1) by (simp_all add: rr_ok_def)
  have "p + name_room (rr_name rr) \<le> 0x4000" using assms(2) by (simp add: rr_room_def)
  then obtain nb nn where nb: "named_bytes (rr_name rr) p cs nb nn" by (rule well_named_bytes [OF ok(1)])
  have nl: "length nb \<le> name_room (rr_name rr)" "0 < length nb" using nb by (simp_all add: named_bytes_def)
  have "p + length nb + 10 + data_room store rr \<le> 0x4000" using assms(2) nl by (simp add: rr_room_def)
  then obtain d nd where db: "data_bytes store rr (p + length nb + 10) (cs @ nn) d nd" "length d \<le> data_room store rr"
    by (rule data_written [OF ok])
  define l :: u16 where "l = of_nat (length d)"
  define bs where "bs = nb @ rr_head rr @ be16_bytes l @ d"
  have "length d < 0x10000" using db(2) assms(2) by (simp add: rr_room_def)
  then have u: "unat l = length d" by (simp add: l_def unat_of_nat_small)
  have enc: "mdns_encode_rr store (pre @ rest) e p rr cs =
      Inr (pre @ bs @ drop (length bs) rest, length bs, cs @ nn @ nd)"
    if "length pre = p" "p < e" "length bs \<le> length rest" for pre rest e
    unfolding bs_def by (rule encode_rr_bytes [OF nb db(1)]) (use that in \<open>simp_all add: bs_def l_def\<close>)
  have par: "mdns_parse_rr (pre @ bs @ t) e p = Some (Inr (Some (seen store rr, length bs)))"
    if "length pre = p" "comps_ok pre cs" "length (pre @ bs) \<le> e" for pre t e
    unfolding bs_def by (rule parse_rr_bytes [OF nb db(1)]) (use that u in \<open>simp_all add: bs_def\<close>)
  have com: "comps_ok (pre @ bs) (nn @ nd)" if "length pre = p" "comps_ok pre cs" for pre
  proof -
    let ?a = "pre @ nb @ rr_head rr @ be16_bytes l"
    have n: "comps_ok (pre @ nb) nn" by (rule named_bytesD(2) [OF nb that])
    have "comps_ok ?a (cs @ nn)"
      using comps_ok_append [OF n, of "rr_head rr @ be16_bytes l"] comps_ok_append [OF that(2)] by simp
    then have "comps_ok (?a @ d) nd" using data_bytesD(2) [OF db(1), of ?a] that(1) by simp
    then show ?thesis
      using comps_ok_append [OF n, of "rr_head rr @ be16_bytes l @ d"] by (simp add: bs_def)
  qed
  have "0 < length bs" "length bs \<le> rr_room store rr"
    using nl db(2) by (simp_all add: bs_def rr_room_def)
  then have "rr_bytes store rr p cs bs (nn @ nd)"
    unfolding rr_bytes_def using enc par com by blast
  then show ?thesis by (rule that)
qed

section \<open>Whole packets\<close>

definition rrs_room :: "rr_store \<Rightarrow> nat list \<Rightarrow> nat" where
  "rrs_room store rrs = sum_list (map (\<lambda>i. rr_room store (store ! i)) rrs)"

lemma rrs_written:
  assumes "\<forall>i \<in> set rrs. rr_ok store (store ! i)" "length pre + rrs_room store rrs \<le> 0x4000"
    and "length pre + rrs_room store rrs < e" "rrs_room store rrs \<le> length rest" "comps_ok pre cs"
  shows "\<exists>bs news. encode_rrs store (pre @ rest) e (length pre) rrs cs =
      Inr (Some (pre @ bs @ drop (length bs) rest, length pre + length bs, cs @ news)) \<and>
    length bs \<le> rrs_room store rrs \<and> comps_ok (pre @ bs) (cs @ news) \<and>
    (\<forall>t e. length (pre @ bs) \<le> e \<longrightarrow>
      parse_rrs (pre @ bs @ t) e (length pre) (length rrs) = Some (Inr (Some (map (\<lambda>i. seen store (store ! i)) rrs))))"
  using assms
proof (induction rrs arbitrary: pre rest cs)
  case Nil
  then show ?case by (intro exI [of _ "[]"]) simp
next
  case (Cons i rrs)
  have room: "rrs_room store (i # rrs) = rr_room store (store ! i) + rrs_room store rrs" by (simp add: rrs_room_def)
  obtain b1 n1 where b: "rr_bytes store (store ! i) (length pre) cs b1 n1"
    by (rule rr_written [of store "store ! i" "length pre"]) (use Cons.prems(1,2) room in auto)
  then have l: "0 < length b1" "length b1 \<le> rr_room store (store ! i)" by (simp_all add: rr_bytes_def)
  have e1: "mdns_encode_rr store (pre @ rest) e (length pre) (store ! i) cs =
      Inr (pre @ b1 @ drop (length b1) rest, length b1, cs @ n1)"
    using b l Cons.prems(3,4) room by (simp add: rr_bytes_def)
  have c1: "comps_ok (pre @ b1) (cs @ n1)"
    using b Cons.prems(5) comps_ok_append by (simp add: rr_bytes_def)
  have "\<exists>bs news. encode_rrs store ((pre @ b1) @ drop (length b1) rest) e (length (pre @ b1)) rrs (cs @ n1) =
      Inr (Some ((pre @ b1) @ bs @ drop (length bs) (drop (length b1) rest), length (pre @ b1) + length bs,
        (cs @ n1) @ news)) \<and>
    length bs \<le> rrs_room store rrs \<and> comps_ok ((pre @ b1) @ bs) ((cs @ n1) @ news) \<and>
    (\<forall>t e. length ((pre @ b1) @ bs) \<le> e \<longrightarrow>
      parse_rrs ((pre @ b1) @ bs @ t) e (length (pre @ b1)) (length rrs) =
        Some (Inr (Some (map (\<lambda>i. seen store (store ! i)) rrs))))"
    by (rule Cons.IH [OF _ _ _ _ c1]) (use Cons.prems(1-4) room l in auto)
  then obtain bs news where IH:
    "encode_rrs store ((pre @ b1) @ drop (length b1) rest) e (length (pre @ b1)) rrs (cs @ n1) =
      Inr (Some ((pre @ b1) @ bs @ drop (length bs) (drop (length b1) rest), length (pre @ b1) + length bs,
        (cs @ n1) @ news))"
    "length bs \<le> rrs_room store rrs" "comps_ok ((pre @ b1) @ bs) ((cs @ n1) @ news)"
    "\<And>t e. length ((pre @ b1) @ bs) \<le> e \<Longrightarrow>
      parse_rrs ((pre @ b1) @ bs @ t) e (length (pre @ b1)) (length rrs) =
        Some (Inr (Some (map (\<lambda>i. seen store (store ! i)) rrs)))"
    by blast
  have "length pre + length b1 < e" using l Cons.prems(3) room by simp
  then have "encode_rrs store (pre @ rest) e (length pre) (i # rrs) cs =
      Inr (Some (pre @ (b1 @ bs) @ drop (length (b1 @ bs)) rest, length pre + length (b1 @ bs), cs @ n1 @ news))"
    using e1 IH(1) by (simp add: add.commute add.left_commute)
  moreover have "parse_rrs (pre @ (b1 @ bs) @ t) e' (length pre) (length (i # rrs)) =
      Some (Inr (Some (map (\<lambda>i. seen store (store ! i)) (i # rrs))))"
    if "length (pre @ b1 @ bs) \<le> e'" for t e'
  proof -
    have "mdns_parse_rr (pre @ b1 @ bs @ t) e' (length pre) = Some (Inr (Some (seen store (store ! i), length b1)))"
      using b Cons.prems(5) that by (simp add: rr_bytes_def)
    then show ?thesis using IH(4) [of e' t] that l(1) by simp
  qed
  ultimately show ?case
    using IH(2,3) l(2) room
    by (intro exI [of _ "b1 @ bs"] exI [of _ "n1 @ news"]) (simp del: parse_rrs.simps encode_rrs.simps)
qed

lemma encode_rrs_append:
  "encode_rrs store buf e off (xs @ ys) cs =
    (case encode_rrs store buf e off xs cs of
       Inr (Some (buf, off, cs)) \<Rightarrow> encode_rrs store buf e off ys cs
     | r \<Rightarrow> r)"
  by (induction xs arbitrary: buf off cs) (simp_all split: sum.splits option.splits)

definition all_rrs :: "nat mdns_pkt \<Rightarrow> nat list" where
  "all_rrs pkt = rr_ans pkt @ rr_auth pkt @ rr_add pkt"

text \<open>What the other side makes of a packet: the answers, as it sees them.\<close>

definition seen_pkt :: "rr_store \<Rightarrow> nat mdns_pkt \<Rightarrow> rr_entry mdns_pkt" where
  "seen_pkt store pkt =
     \<lparr>pk_id = pk_id pkt, pk_flags = pk_flags pkt, num_qn = 0, num_ans_rr = num_ans_rr pkt,
      num_auth_rr = num_auth_rr pkt, num_add_rr = num_add_rr pkt, rr_qn = [],
      rr_ans = map (\<lambda>i. seen store (store ! i)) (rr_ans pkt), rr_auth = [], rr_add = []\<rparr>"

lemma length_pkt_header [simp]: "length (pkt_header pkt) = 12"
  by (simp add: pkt_header_def)

lemma pkt_header_read:
  "get_u16 (pkt_header pkt @ t) 0 = Inr (pk_id pkt)" "get_u16 (pkt_header pkt @ t) 2 = Inr (pk_flags pkt)"
  "get_u16 (pkt_header pkt @ t) 4 = Inr (num_qn pkt)" "get_u16 (pkt_header pkt @ t) 6 = Inr (num_ans_rr pkt)"
  "get_u16 (pkt_header pkt @ t) 8 = Inr (num_auth_rr pkt)" "get_u16 (pkt_header pkt @ t) 10 = Inr (num_add_rr pkt)"
  by (simp_all add: get_u16_def pkt_header_def be16_bytes_def)

lemma packet_written:
  assumes "num_qn pkt = 0" "unat (num_ans_rr pkt) = length (rr_ans pkt)"
    and "\<forall>i \<in> set (all_rrs pkt). rr_ok store (store ! i)"
    and "12 + rrs_room store (all_rrs pkt) \<le> 0x4000" "12 + rrs_room store (all_rrs pkt) < pkt_len"
    and "pkt_len \<le> length buf"
  shows "\<exists>buf' n. mdns_encode_pkt store pkt buf pkt_len = Inr (Some (buf', n)) \<and>
    n < pkt_len \<and> length buf' = length buf \<and>
    (\<forall>t. mdns_parse_pkt (take n buf' @ t) n = Some (Inr (Some (seen_pkt store pkt))))"
proof -
  let ?h = "pkt_header pkt" and ?rest = "drop 12 buf" and ?ys = "rr_auth pkt @ rr_add pkt"
  have room: "rrs_room store (all_rrs pkt) = rrs_room store (rr_ans pkt) + rrs_room store ?ys"
    by (simp add: rrs_room_def all_rrs_def)
  have put: "put buf 0 ?h = Inr (?h @ ?rest)"
    using assms(5,6) put_next [of ?h buf "[]"] by simp
  have "\<exists>bs news. encode_rrs store (?h @ ?rest) pkt_len (length ?h) (rr_ans pkt) [([], 0)] =
      Inr (Some (?h @ bs @ drop (length bs) ?rest, length ?h + length bs, [([], 0)] @ news)) \<and>
    length bs \<le> rrs_room store (rr_ans pkt) \<and> comps_ok (?h @ bs) ([([], 0)] @ news) \<and>
    (\<forall>t e. length (?h @ bs) \<le> e \<longrightarrow> parse_rrs (?h @ bs @ t) e (length ?h) (length (rr_ans pkt)) =
      Some (Inr (Some (map (\<lambda>i. seen store (store ! i)) (rr_ans pkt)))))"
    by (rule rrs_written) (use assms(3-6) room in \<open>auto simp: all_rrs_def\<close>)
  then obtain b1 n1 where 1: "encode_rrs store (?h @ ?rest) pkt_len 12 (rr_ans pkt) [([], 0)] =
      Inr (Some (?h @ b1 @ drop (length b1) ?rest, 12 + length b1, ([], 0) # n1))"
    "length b1 \<le> rrs_room store (rr_ans pkt)" "comps_ok (?h @ b1) (([], 0) # n1)"
    "\<And>t e. length (?h @ b1) \<le> e \<Longrightarrow> parse_rrs (?h @ b1 @ t) e 12 (length (rr_ans pkt)) =
      Some (Inr (Some (map (\<lambda>i. seen store (store ! i)) (rr_ans pkt))))" by auto
  have "\<exists>bs news. encode_rrs store ((?h @ b1) @ drop (length b1) ?rest) pkt_len (length (?h @ b1)) ?ys (([], 0) # n1) =
      Inr (Some ((?h @ b1) @ bs @ drop (length bs) (drop (length b1) ?rest), length (?h @ b1) + length bs,
        (([], 0) # n1) @ news)) \<and>
    length bs \<le> rrs_room store ?ys \<and> comps_ok ((?h @ b1) @ bs) ((([], 0) # n1) @ news) \<and>
    (\<forall>t e. length ((?h @ b1) @ bs) \<le> e \<longrightarrow> parse_rrs ((?h @ b1) @ bs @ t) e (length (?h @ b1)) (length ?ys) =
      Some (Inr (Some (map (\<lambda>i. seen store (store ! i)) ?ys))))"
    by (rule rrs_written [OF _ _ _ _ 1(3)]) (use assms(3-6) room 1(2) in \<open>auto simp: all_rrs_def\<close>)
  then obtain b2 n2 where 2:
    "encode_rrs store (?h @ b1 @ drop (length b1) ?rest) pkt_len (12 + length b1) ?ys (([], 0) # n1) =
      Inr (Some (?h @ b1 @ b2 @ drop (length b2 + length b1) ?rest, 12 + length b1 + length b2, n2))"
    "length b2 \<le> rrs_room store ?ys" by (auto simp: add.assoc)
  let ?buf = "?h @ b1 @ b2 @ drop (length b2 + length b1) ?rest" and ?n = "12 + length b1 + length b2"
  have enc: "mdns_encode_pkt store pkt buf pkt_len = Inr (Some (?buf, ?n))"
    using put 1(1) 2(1) assms(1,5) by (simp add: mdns_encode_pkt_def encode_rrs_append)
  have "parse_rrs (?h @ b1 @ b2 @ t) ?n 12 (unat (num_ans_rr pkt)) =
      Some (Inr (Some (map (\<lambda>i. seen store (store ! i)) (rr_ans pkt))))" for t
    using 1(4) assms(2) by simp
  then have "mdns_parse_pkt (?h @ b1 @ b2 @ t) ?n = Some (Inr (Some (seen_pkt store pkt)))" for t
    using assms(1) by (simp add: mdns_parse_pkt_def pkt_header_read seen_pkt_def)
  moreover have "take ?n ?buf = ?h @ b1 @ b2" by simp
  ultimately have "mdns_parse_pkt (take ?n ?buf @ t) ?n = Some (Inr (Some (seen_pkt store pkt)))" for t by simp
  moreover have "?n < pkt_len" "length ?buf = length buf" using 1(2) 2(2) assms(5,6) room by auto
  ultimately show ?thesis using enc by blast
qed


text \<open>An answer as the server sends it: a service, a pointer to it and its strings.\<close>

definition example_store :: rr_store where
  "example_store =
     (let service = Some (name_of [[0x61, 0x62], [0x5f, 0x72], [0x6c]]);
          new_rr = \<lparr>rr_name = service, rr_type = RR_SRV, rr_ttl = 120, unicast_query = False,
            cache_flush = True, rr_class = 1, rr_data = SRV_data 0 0 5000 (Some (name_of [[0x68], [0x6c]]))\<rparr>
      in [new_rr,
          new_rr\<lparr>rr_name := Some (name_of [[0x5f, 0x72], [0x6c]]), rr_type := RR_PTR, cache_flush := False,
            rr_data := PTR_data None 0\<rparr>,
          new_rr\<lparr>rr_type := RR_TXT, rr_data := TXT_data [Some [3, 0x61, 0x3d, 0x62]]\<rparr>])"

definition example_pkt :: "nat mdns_pkt" where
  "example_pkt = \<lparr>pk_id = 0, pk_flags = 0x8400, num_qn = 0, num_ans_rr = 2, num_auth_rr = 0, num_add_rr = 1,
     rr_qn = [], rr_ans = [1, 2], rr_auth = [], rr_add = [0]\<rparr>"

lemma well_named_of: "\<forall>s \<in> set segs. label_ok s \<Longrightarrow> well_named (Some (name_of segs))"
  by (auto simp: well_named_def)


section \<open>A name that never ends\<close>

text \<open>
  C31: the parser need not return: a packet with a question whose name is a label and a pointer back to
  that label keeps \<open>uncompress_nlabel\<close>, and with it the thread of the server, in its loop forever.
\<close>

theorem looping_name_never_parsed:
  assumes "pkt_len \<le> length buf" "15 + unat (buf ! 12) \<le> pkt_len" "be16 (buf ! 4) (buf ! 5) \<noteq> 0"
    and "buf ! 12 \<noteq> 0" "buf ! 12 AND 0xC0 \<noteq> 0xC0"
    and "buf ! (13 + unat (buf ! 12)) = 0xC0" "buf ! (14 + unat (buf ! 12)) = 12"
  shows "mdns_parse_pkt buf pkt_len = None"
proof -
  let ?n = "unat (buf ! 12) + 1"
  have 1: "name_step buf pkt_len 12 = Inr (Some (12, ?n))"
    using assms(1,2,4,5) by (simp add: name_step_def byte_at_def)
  have i: "13 + unat (buf ! 12) = 12 + ?n" "14 + unat (buf ! 12) = 12 + ?n + 1" by simp_all
  have 2: "name_step buf pkt_len (12 + ?n) = Inr (Some (12, ?n))"
    using assms(1,2) assms(6,7) [unfolded i] by (simp add: name_step_def byte_at_def Let_def)
  have u: "uncompress_nlabel buf pkt_len 12 = None"
    by (rule uncompress_diverges [OF 1 2]) (use assms(2) in simp)
  have "unat (be16 (buf ! 4) (buf ! 5)) \<noteq> 0" using assms(3) by (simp add: unat_eq_0)
  then obtain k where "unat (be16 (buf ! 4) (buf ! 5)) = Suc k" using not0_implies_Suc by blast
  then show ?thesis
    using assms(1,2) u by (simp add: mdns_parse_pkt_def get_u16_def mdns_parse_qn_def)
qed

theorem looping_name_never_parsed_witness:
  "mdns_parse_pkt [0, 0, 0, 0, 0, 1, 0, 0, 0, 0, 0, 0, 1, 0x61, 0xC0, 12] 16 = None"
proof -
  let ?buf = "[0, 0, 0, 0, 0, 1, 0, 0, 0, 0, 0, 0, 1, 0x61, 0xC0, 12] :: bytes"
  have "16 \<le> length ?buf" "15 + unat (?buf ! 12) \<le> 16" "be16 (?buf ! 4) (?buf ! 5) \<noteq> 0"
    "?buf ! 12 \<noteq> 0" "?buf ! 12 AND 0xC0 \<noteq> 0xC0"
    "?buf ! (13 + unat (?buf ! 12)) = 0xC0" "?buf ! (14 + unat (?buf ! 12)) = 12"
    by (simp_all add: be16_def)
  then show ?thesis by (rule looping_name_never_parsed)
qed

end
