(* ===== verification/Dns_Server.thy ===== *)
theory Dns_Server
  imports Dns_Wire
begin

unbundle bit_operations_syntax

text \<open>
  The responder of tinysvcmdns.c: the records it holds, grouped by name, what a program registers, the
  answers to a query, and the turns of the thread that serves them. Every access to the groups is under
  \<open>data_lock\<close>, so that an operation here is one step of the server. Records are never freed while the
  server runs; a record is its index in the store.
\<close>

record rr_group =
  gr_name :: nlabel
  gr_rr :: "nat list"

record mdnsd =
  svr_rrs :: rr_store
  svr_group :: "rr_group list"
  svr_announce :: "nat list"
  svr_services :: "nat list"
  svr_hostname :: "nlabel option"

section \<open>Lists of records\<close>

text \<open>The result says whether the record was added.\<close>

definition rr_list_append :: "nat list \<Rightarrow> nat \<Rightarrow> nat list \<times> nat" where
  "rr_list_append l rr = (if rr \<in> set l then (l, 0) else (l @ [rr], 1))"

definition rr_list_remove :: "nat list \<Rightarrow> nat \<Rightarrow> nat list \<times> nat option" where
  "rr_list_remove l rr = (if rr \<in> set l then (remove1 rr l, Some rr) else (l, None))"

text \<open>\<open>strcmp\<close> of two names, whether they are the same.\<close>

fun cmp_nlabel :: "nlabel option \<Rightarrow> nlabel option \<Rightarrow> fault + bool" where
  "cmp_nlabel (Some a) (Some b) = Inr (a = b)"
| "cmp_nlabel _ _ = Inl Null_pointer"

definition ptr_name :: "rr_store \<Rightarrow> rr_entry \<Rightarrow> fault + nlabel option" where
  "ptr_name rrs rr =
     (case rr_data rr of PTR_data name entry \<Rightarrow> Inr (ptr_target rrs name entry) | _ \<Rightarrow> Inl Null_pointer)"

section \<open>Making records\<close>

definition fill_rr_entry :: "nlabel option \<Rightarrow> u16 \<Rightarrow> rr_data \<Rightarrow> rr_entry" where
  "fill_rr_entry name type dat =
     \<lparr>rr_name = name, rr_type = type, rr_ttl = 120, unicast_query = False, cache_flush = True,
      rr_class = 1, rr_data = dat\<rparr>"

definition rr_create_a :: "nlabel \<Rightarrow> u32 \<Rightarrow> rr_entry" where
  "rr_create_a name addr = fill_rr_entry (Some name) RR_A (A_data addr)"

definition rr_create_aaaa :: "nlabel \<Rightarrow> bytes \<Rightarrow> rr_entry" where
  "rr_create_aaaa name addr = fill_rr_entry (Some name) RR_AAAA (AAAA_data (Some addr))"

definition rr_create_srv :: "nlabel \<Rightarrow> u16 \<Rightarrow> nlabel \<Rightarrow> rr_entry" where
  "rr_create_srv name port target = fill_rr_entry (Some name) RR_SRV (SRV_data 0 0 port (Some target))"

definition rr_create_ptr :: "nlabel \<Rightarrow> nat \<Rightarrow> rr_entry" where
  "rr_create_ptr name d_rr = (fill_rr_entry (Some name) RR_PTR (PTR_data None d_rr))\<lparr>cache_flush := False\<rparr>"

text \<open>The union is zeroed.\<close>

definition rr_create :: "nlabel \<Rightarrow> u16 \<Rightarrow> rr_entry" where
  "rr_create name type = fill_rr_entry (Some name) type
     (if type = RR_TXT then TXT_data [None] else if type = RR_NSEC then NSEC_data [0, 0, 0, 0, 0] else No_data)"

text \<open>The first assertion assigns the type; the byte of the bitmap is overwritten, not extended.\<close>

definition rr_set_nsec :: "rr_entry \<Rightarrow> u16 \<Rightarrow> fault + rr_entry" where
  "rr_set_nsec rr type =
     (case rr_data rr of
        NSEC_data bitmap \<Rightarrow>
          if unat type div 8 < 5
          then Inr (rr\<lparr>rr_type := RR_NSEC,
            rr_data := NSEC_data (bitmap[unat type div 8 := push_bit (7 - unat type mod 8) 1])\<rparr>)
          else Inl Assert_failed
      | _ \<Rightarrow> Inl Assert_failed)"

definition rr_add_txt :: "rr_entry \<Rightarrow> string \<Rightarrow> fault + rr_entry" where
  "rr_add_txt rr txt =
     (if rr_type rr \<noteq> RR_TXT then Inl Assert_failed
      else
        case rr_data rr of
          TXT_data (None # txts) \<Rightarrow> Inr (rr\<lparr>rr_data := TXT_data (create_label txt # txts)\<rparr>)
        | TXT_data txts \<Rightarrow> Inr (rr\<lparr>rr_data := TXT_data (txts @ [create_label txt])\<rparr>)
        | _ \<Rightarrow> Inl Assert_failed)"

fun add_txts :: "rr_entry \<Rightarrow> string list \<Rightarrow> fault + rr_entry" where
  "add_txts rr [] = Inr rr"
| "add_txts rr (t # ts) = bind_fault (rr_add_txt rr t) (\<lambda>rr. add_txts rr ts)"

section \<open>Groups\<close>

fun rr_group_find :: "rr_group list \<Rightarrow> nlabel option \<Rightarrow> fault + nat option" where
  "rr_group_find [] name = Inr None"
| "rr_group_find (g # gs) name =
     bind_fault (cmp_nlabel (Some (gr_name g)) name) (\<lambda>same.
       if same then Inr (Some 0)
       else bind_fault (rr_group_find gs name) (\<lambda>r. Inr (map_option Suc r)))"

text \<open>A group gets a copy of the name of its first record.\<close>

definition rr_group_add :: "rr_store \<Rightarrow> rr_group list \<Rightarrow> nat \<Rightarrow> fault + rr_group list" where
  "rr_group_add rrs gs rr =
     bind_fault (rr_group_find gs (rr_name (rrs ! rr))) (\<lambda>r.
       case r of
         Some k \<Rightarrow> Inr (gs[k := (gs ! k)\<lparr>gr_rr := fst (rr_list_append (gr_rr (gs ! k)) rr)\<rparr>])
       | None \<Rightarrow>
           (case rr_name (rrs ! rr) of
              None \<Rightarrow> Inl Null_pointer
            | Some name \<Rightarrow>
                bind_fault (dup_nlabel name) (\<lambda>name. Inr (\<lparr>gr_name = name, gr_rr = [rr]\<rparr> # gs))))"

fun rr_entry_match :: "rr_store \<Rightarrow> rr_entry list \<Rightarrow> rr_entry \<Rightarrow> fault + rr_entry option" where
  "rr_entry_match rrs [] entry = Inr None"
| "rr_entry_match rrs (r # rs) entry =
     (if rr_type r \<noteq> rr_type entry then rr_entry_match rrs rs entry
      else
        bind_fault (cmp_nlabel (rr_name r) (rr_name entry)) (\<lambda>same.
          if \<not> same then rr_entry_match rrs rs entry
          else if rr_type entry \<noteq> RR_PTR then Inr (Some r)
          else
            bind_fault (ptr_name rrs entry) (\<lambda>a. bind_fault (ptr_name rrs r) (\<lambda>b.
              bind_fault (cmp_nlabel a b) (\<lambda>same.
                if same then Inr (Some r) else rr_entry_match rrs rs entry)))))"

section \<open>Answers\<close>

text \<open>\<open>RR_ANY\<close> stands for every type but NSEC. The number is that of the records added.\<close>

fun populate_loop :: "rr_store \<Rightarrow> nlabel option \<Rightarrow> u16 \<Rightarrow> nat list \<Rightarrow> nat list \<Rightarrow> nat \<Rightarrow> fault + (nat list \<times> nat)" where
  "populate_loop rrs name type [] l num = Inr (l, num)"
| "populate_loop rrs name type (n # ns) l num =
     (if type = RR_ANY \<and> rr_type (rrs ! n) = RR_NSEC then populate_loop rrs name type ns l num
      else if type = rr_type (rrs ! n) \<or> type = RR_ANY then
        bind_fault (cmp_nlabel name (rr_name (rrs ! n))) (\<lambda>same.
          if same then let (l, a) = rr_list_append l n in populate_loop rrs name type ns l (num + a)
          else populate_loop rrs name type ns l num)
      else populate_loop rrs name type ns l num)"

definition populate_answers :: "mdnsd \<Rightarrow> nat list \<Rightarrow> nlabel option \<Rightarrow> u16 \<Rightarrow> fault + (nat list \<times> nat)" where
  "populate_answers svr l name type =
     bind_fault (rr_group_find (svr_group svr) name) (\<lambda>r.
       case r of
         None \<Rightarrow> Inr (l, 0)
       | Some k \<Rightarrow> populate_loop (svr_rrs svr) name type (gr_rr (svr_group svr ! k)) l 0)"

definition mdns_init_reply :: "u16 \<Rightarrow> nat mdns_pkt" where
  "mdns_init_reply i =
     \<lparr>pk_id = i, pk_flags = 0x8400, num_qn = 0, num_ans_rr = 0, num_auth_rr = 0, num_add_rr = 0,
      rr_qn = [], rr_ans = [], rr_auth = [], rr_add = []\<rparr>"

definition populate_ans :: "mdnsd \<Rightarrow> nat mdns_pkt \<Rightarrow> nlabel option \<Rightarrow> u16 \<Rightarrow> fault + nat mdns_pkt" where
  "populate_ans svr reply name type =
     bind_fault (populate_answers svr (rr_ans reply) name type) (\<lambda>(l, num).
       Inr (reply\<lparr>rr_ans := l, num_ans_rr := num_ans_rr reply + of_nat num\<rparr>))"

definition populate_add :: "mdnsd \<Rightarrow> nat mdns_pkt \<Rightarrow> nlabel option \<Rightarrow> u16 \<Rightarrow> fault + nat mdns_pkt" where
  "populate_add svr reply name type =
     bind_fault (populate_answers svr (rr_add reply) name type) (\<lambda>(l, num).
       Inr (reply\<lparr>rr_add := l, num_add_rr := num_add_rr reply + of_nat num\<rparr>))"

text \<open>The records that go with one answer.\<close>

definition related_rr :: "mdnsd \<Rightarrow> nat mdns_pkt \<Rightarrow> nat \<Rightarrow> fault + nat mdns_pkt" where
  "related_rr svr reply i =
     (let ans = svr_rrs svr ! i in
      if rr_type ans = RR_PTR then
        bind_fault (ptr_name (svr_rrs svr) ans) (\<lambda>n. populate_add svr reply n RR_ANY)
      else if rr_type ans = RR_SRV then
        bind_fault (case rr_data ans of SRV_data _ _ _ target \<Rightarrow> Inr target | _ \<Rightarrow> Inl Null_pointer) (\<lambda>target.
        bind_fault (populate_add svr reply target RR_ANY) (\<lambda>reply.
          populate_add svr reply (rr_name ans) RR_TXT))
      else if rr_type ans = RR_A \<or> rr_type ans = RR_AAAA then populate_add svr reply (rr_name ans) RR_NSEC
      else Inr reply)"

text \<open>
  The list that is walked, \<open>which\<close>, is the answers or the additional records of the reply; in the second
  case it grows while it is walked. \<open>k\<close> is the place in it.
\<close>

partial_function (option) add_related_rr ::
    "mdnsd \<Rightarrow> (nat mdns_pkt \<Rightarrow> nat list) \<Rightarrow> nat \<Rightarrow> nat mdns_pkt \<Rightarrow> (fault + nat mdns_pkt) option" where
  "add_related_rr svr which k reply =
     (if k < length (which reply) then
        (case related_rr svr reply (which reply ! k) of
           Inl e \<Rightarrow> Some (Inl e)
         | Inr reply \<Rightarrow> add_related_rr svr which (k + 1) reply)
      else Some (Inr reply))"

definition add_related :: "mdnsd \<Rightarrow> nat mdns_pkt \<Rightarrow> (fault + nat mdns_pkt) option" where
  "add_related svr reply =
     (case add_related_rr svr rr_ans 0 reply of
        Some (Inr reply) \<Rightarrow> add_related_rr svr rr_add 0 reply
      | r \<Rightarrow> r)"

definition services_nlabel :: nlabel where
  "services_nlabel = name_of (map (map char_byte) [''_services'', ''_dns-sd'', ''_udp'', ''local''])"

definition announce_srv :: "mdnsd \<Rightarrow> nlabel option \<Rightarrow> (fault + nat mdns_pkt) option" where
  "announce_srv svr name =
     (case bind_fault (populate_ans svr (mdns_init_reply 0) name RR_PTR)
             (\<lambda>reply. populate_ans svr reply (Some services_nlabel) RR_PTR) of
        Inl e \<Rightarrow> Some (Inl e)
      | Inr reply \<Rightarrow> add_related svr reply)"

text \<open>The name of every question is turned into text for a message that is not printed.\<close>

fun answer_questions :: "mdnsd \<Rightarrow> nat \<Rightarrow> rr_entry list \<Rightarrow> nat mdns_pkt \<Rightarrow> fault + nat mdns_pkt" where
  "answer_questions svr 0 qns reply = Inr reply"
| "answer_questions svr (Suc n) [] reply = Inl Null_pointer"
| "answer_questions svr (Suc n) (qn # qns) reply =
     bind_fault (nlabel_to_str (rr_name qn)) (\<lambda>_.
       if unicast_query qn then answer_questions svr n qns reply
       else bind_fault (populate_ans svr reply (rr_name qn) (rr_type qn)) (answer_questions svr n qns))"

text \<open>Answers the other side knows, with at least half of the time to live left, are taken out.\<close>

fun drop_known :: "rr_store \<Rightarrow> rr_entry list \<Rightarrow> nat list \<Rightarrow> fault + (nat list \<times> nat)" where
  "drop_known rrs known [] = Inr ([], 0)"
| "drop_known rrs known (a # as) =
     bind_fault (rr_entry_match rrs known (rrs ! a)) (\<lambda>m.
       let gone = (case m of None \<Rightarrow> False | Some k \<Rightarrow> rr_ttl k \<ge> rr_ttl (rrs ! a) div 2) in
       bind_fault (if gone then nlabel_to_str (rr_name (rrs ! a)) else Inr []) (\<lambda>_.
       bind_fault (drop_known rrs known as) (\<lambda>(as, num).
         Inr (if gone then (as, num + 1) else (a # as, num)))))"

text \<open>\<open>None\<close> inside is a packet that is not a query; otherwise the number of answers is returned.\<close>

definition process_mdns_pkt ::
    "mdnsd \<Rightarrow> rr_entry mdns_pkt \<Rightarrow> (fault + nat mdns_pkt option) option" where
  "process_mdns_pkt svr pkt =
     (if pk_flags pkt AND 0x8000 = 0 \<and> drop_bit 11 (pk_flags pkt) AND 0x0F = 0 then
        (case bind_fault (answer_questions svr (unat (num_qn pkt)) (rr_qn pkt) (mdns_init_reply (pk_id pkt)))
             (\<lambda>reply. bind_fault (drop_known (svr_rrs svr) (rr_ans pkt) (rr_ans reply)) (\<lambda>(ans, gone).
               Inr (reply\<lparr>rr_ans := ans, num_ans_rr := num_ans_rr reply - of_nat gone\<rparr>))) of
           Inl e \<Rightarrow> Some (Inl e)
         | Inr reply \<Rightarrow>
             (case add_related svr reply of
                None \<Rightarrow> None
              | Some (Inl e) \<Rightarrow> Some (Inl e)
              | Some (Inr reply) \<Rightarrow> Some (Inr (Some reply))))
      else Some (Inr None))"

section \<open>Registering\<close>

definition mdnsd_start :: mdnsd where
  "mdnsd_start =
     \<lparr>svr_rrs = [], svr_group = [], svr_announce = [], svr_services = [], svr_hostname = None\<rparr>"

text \<open>A new record, and its address.\<close>

definition new_rr :: "mdnsd \<Rightarrow> rr_entry \<Rightarrow> mdnsd \<times> nat" where
  "new_rr svr rr = (svr\<lparr>svr_rrs := svr_rrs svr @ [rr]\<rparr>, length (svr_rrs svr))"

definition group_add :: "mdnsd \<Rightarrow> nat \<Rightarrow> fault + mdnsd" where
  "group_add svr rr =
     bind_fault (rr_group_add (svr_rrs svr) (svr_group svr) rr) (\<lambda>gs. Inr (svr\<lparr>svr_group := gs\<rparr>))"

definition mdnsd_add_rr :: "mdnsd \<Rightarrow> rr_entry \<Rightarrow> fault + mdnsd" where
  "mdnsd_add_rr svr rr = (let (svr, i) = new_rr svr rr in group_add svr i)"

text \<open>Both host names: the address record of a type and the record that nothing else is there.\<close>

definition set_host :: "u8 \<Rightarrow> mdnsd \<Rightarrow> string \<Rightarrow> rr_entry \<Rightarrow> fault + mdnsd" where
  "set_host junk svr hostname a_rr =
     (if svr_hostname svr \<noteq> None then Inl Assert_failed
      else
        bind_fault (rr_set_nsec (rr_create (create_nlabel junk hostname) RR_NSEC) (rr_type a_rr)) (\<lambda>nsec_rr.
          let (svr, a_e) = new_rr svr a_rr;
              (svr, nsec_e) = new_rr svr nsec_rr;
              svr = svr\<lparr>svr_hostname := Some (create_nlabel junk hostname)\<rparr>
          in bind_fault (group_add svr a_e) (\<lambda>svr. group_add svr nsec_e)))"

definition mdnsd_set_hostname :: "u8 \<Rightarrow> mdnsd \<Rightarrow> string \<Rightarrow> u32 \<Rightarrow> fault + mdnsd" where
  "mdnsd_set_hostname junk svr hostname ip =
     set_host junk svr hostname (rr_create_a (create_nlabel junk hostname) ip)"

definition mdnsd_set_hostname_v6 :: "u8 \<Rightarrow> mdnsd \<Rightarrow> string \<Rightarrow> bytes \<Rightarrow> fault + mdnsd" where
  "mdnsd_set_hostname_v6 junk svr hostname addr =
     set_host junk svr hostname (rr_create_aaaa (create_nlabel junk hostname) addr)"

text \<open>
  The four records of a service, and their addresses: its strings, where it is, the pointer to it under
  its type and the pointer to the type. \<open>txt\<close> is the array up to its NULL, empty when there is none.
\<close>

definition add_service ::
    "mdnsd \<Rightarrow> nlabel \<Rightarrow> nlabel \<Rightarrow> u16 \<Rightarrow> nlabel \<Rightarrow> string list \<Rightarrow> fault + (mdnsd \<times> nat list \<times> nat)" where
  "add_service svr nlabel type_nlabel port target txt =
     bind_fault (if txt = [] then Inr (svr, [])
                 else bind_fault (add_txts (rr_create nlabel RR_TXT) txt) (\<lambda>rr.
                   let (svr, i) = new_rr svr rr in Inr (svr, [i]))) (\<lambda>(svr, txt_e).
       let (svr, srv_e) = new_rr svr (rr_create_srv nlabel port target);
           (svr, ptr_e) = new_rr svr (rr_create_ptr type_nlabel srv_e);
           (svr, bptr_e) = new_rr svr (rr_create_ptr services_nlabel ptr_e)
       in bind_fault (case txt_e of [] \<Rightarrow> Inr svr | i # _ \<Rightarrow> group_add svr i) (\<lambda>svr.
          bind_fault (group_add svr srv_e) (\<lambda>svr.
          bind_fault (group_add svr ptr_e) (\<lambda>svr.
          bind_fault (group_add svr bptr_e) (\<lambda>svr. Inr (svr, txt_e @ [srv_e], ptr_e))))))"

text \<open>The result has the entries of the service. An instance name of more than 63 bytes is NULL.\<close>

definition mdnsd_register_svc ::
    "u8 \<Rightarrow> mdnsd \<Rightarrow> string \<Rightarrow> string \<Rightarrow> u16 \<Rightarrow> string option \<Rightarrow> string list \<Rightarrow> fault + (mdnsd \<times> nat list)" where
  "mdnsd_register_svc junk svr instance_name type port hostname txt =
     (let type_nlabel = create_nlabel junk type in
      bind_fault (case create_label instance_name of
                    None \<Rightarrow> Inl Null_pointer
                  | Some inst_nlabel \<Rightarrow> join_nlabel (cbytes inst_nlabel) type_nlabel) (\<lambda>nlabel.
      bind_fault (case hostname of
                    Some h \<Rightarrow> Inr (create_nlabel junk h)
                  | None \<Rightarrow> (case svr_hostname svr of None \<Rightarrow> Inl Assert_failed | Some h \<Rightarrow> dup_nlabel h)) (\<lambda>target.
      bind_fault (add_service svr nlabel type_nlabel port target txt) (\<lambda>(svr, entries, ptr_e).
        Inr (svr\<lparr>svr_announce := fst (rr_list_append (svr_announce svr) ptr_e),
                svr_services := fst (rr_list_append (svr_services svr) ptr_e)\<rparr>, entries)))))"

section \<open>The thread\<close>

text \<open>
  What a turn sends is a list of datagrams. A reply that does not fit is sent with the length -1, which
  \<open>sendto\<close> refuses. The buffer of 65536 bytes is shared by receiving and sending.
\<close>

definition send_reply :: "mdnsd \<Rightarrow> nat mdns_pkt \<Rightarrow> bytes \<Rightarrow> fault + (bytes \<times> bytes list)" where
  "send_reply svr reply buf =
     bind_fault (mdns_encode_pkt (svr_rrs svr) reply buf 65536) (\<lambda>r.
       case r of None \<Rightarrow> Inr (buf, []) | Some (buf, n) \<Rightarrow> Inr (buf, [take n buf]))"

text \<open>A datagram of \<open>n\<close> bytes is in the buffer.\<close>

definition serve_datagram :: "mdnsd \<Rightarrow> bytes \<Rightarrow> nat \<Rightarrow> (fault + (bytes \<times> bytes list)) option" where
  "serve_datagram svr buf n =
     (case mdns_parse_pkt buf n of
        None \<Rightarrow> None
      | Some (Inl e) \<Rightarrow> Some (Inl e)
      | Some (Inr None) \<Rightarrow> Some (Inr (buf, []))
      | Some (Inr (Some mdns)) \<Rightarrow>
          (case process_mdns_pkt svr mdns of
             None \<Rightarrow> None
           | Some (Inl e) \<Rightarrow> Some (Inl e)
           | Some (Inr None) \<Rightarrow> Some (Inr (buf, []))
           | Some (Inr (Some reply)) \<Rightarrow>
               Some (if num_ans_rr reply \<noteq> 0 then send_reply svr reply buf else Inr (buf, []))))"

text \<open>Each announcement is taken from the head of the list.\<close>

lemma rr_list_remove_head [simp]: "rr_list_remove (rr # l) rr = (l, Some rr)"
  by (simp add: rr_list_remove_def)

fun drain_announce :: "mdnsd \<Rightarrow> bytes \<Rightarrow> nat list \<Rightarrow> (fault + (bytes \<times> bytes list)) option" where
  "drain_announce svr buf [] = Some (Inr (buf, []))"
| "drain_announce svr buf (a # anns) =
     (case rr_list_remove (a # anns) a of
        (_, None) \<Rightarrow> Some (Inr (buf, []))
      | (anns, Some ann_e) \<Rightarrow>
          (case bind_fault (nlabel_to_str (rr_name (svr_rrs svr ! ann_e)))
                 (\<lambda>_. Inr (announce_srv svr (rr_name (svr_rrs svr ! ann_e)))) of
             Inl e \<Rightarrow> Some (Inl e)
           | Inr None \<Rightarrow> None
           | Inr (Some (Inl e)) \<Rightarrow> Some (Inl e)
           | Inr (Some (Inr reply)) \<Rightarrow>
               (case (if num_ans_rr reply > 0 then send_reply svr reply buf else Inr (buf, [])) of
                  Inl e \<Rightarrow> Some (Inl e)
                | Inr (buf, sent) \<Rightarrow>
                    (case drain_announce svr buf anns of
                       Some (Inr (buf, rest)) \<Rightarrow> Some (Inr (buf, sent @ rest))
                     | r \<Rightarrow> r))))"

text \<open>One turn: what \<open>select\<close> saw, a byte in the pipe or a datagram, and then the announcements.\<close>

datatype wakeup = Notified | Datagram bytes

definition loop_turn :: "mdnsd \<Rightarrow> bytes \<Rightarrow> wakeup \<Rightarrow> (fault + (mdnsd \<times> bytes \<times> bytes list)) option" where
  "loop_turn svr buf w =
     (case (case w of
              Notified \<Rightarrow> Some (Inr (buf, []))
            | Datagram d \<Rightarrow> serve_datagram svr (d @ drop (length d) buf) (length d)) of
        None \<Rightarrow> None
      | Some (Inl e) \<Rightarrow> Some (Inl e)
      | Some (Inr (buf, sent)) \<Rightarrow>
          (case drain_announce svr buf (svr_announce svr) of
             None \<Rightarrow> None
           | Some (Inl e) \<Rightarrow> Some (Inl e)
           | Some (Inr (buf, announced)) \<Rightarrow> Some (Inr (svr\<lparr>svr_announce := []\<rparr>, buf, sent @ announced))))"

text \<open>The end of the loop: every service is announced once more, to live no longer.\<close>

fun goodbye_reply :: "rr_store \<Rightarrow> nat list \<Rightarrow> nat mdns_pkt \<Rightarrow> rr_store \<times> nat mdns_pkt" where
  "goodbye_reply rrs [] reply = (rrs, reply)"
| "goodbye_reply rrs (e # es) reply =
     (let rrs = rrs[e := (rrs ! e)\<lparr>rr_ttl := 0\<rparr>];
          (l, num) = rr_list_append (rr_ans reply) e
      in goodbye_reply rrs es (reply\<lparr>rr_ans := l, num_ans_rr := num_ans_rr reply + of_nat num\<rparr>))"

definition goodbye :: "mdnsd \<Rightarrow> bytes \<Rightarrow> fault + (mdnsd \<times> bytes list)" where
  "goodbye svr buf =
     (let (rrs, reply) = goodbye_reply (svr_rrs svr) (svr_services svr) (mdns_init_reply 0);
          svr = svr\<lparr>svr_rrs := rrs\<rparr>
      in if num_ans_rr reply > 0
         then bind_fault (send_reply svr reply buf) (\<lambda>(buf, sent). Inr (svr, sent))
         else Inr (svr, []))"

section \<open>The backend\<close>

text \<open>
  mdns_tinysvcmdns.c: the interfaces of the machine, the first of which that is not a loopback names the
  host. An interface need not have an address.
\<close>

datatype if_addr = Inet u32 | Inet6 bytes | Other_family

record ifaddrs =
  ifa_loopback :: bool
  ifa_addr :: "if_addr option"

text \<open>\<open>name\<close> is what \<open>gethostname\<close> gives, cut to 99 characters.\<close>

definition mdns_hostname :: "string \<Rightarrow> string" where
  "mdns_hostname name =
     (let h = cstr (take 99 name) in
      if length h > 6 \<and> drop (length h - 6) h \<noteq> ''.local'' then h @ ''.local'' else h)"

fun main_interface :: "ifaddrs list \<Rightarrow> (if_addr \<times> ifaddrs list) option" where
  "main_interface [] = None"
| "main_interface (i # is) =
     (if ifa_loopback i then main_interface is
      else
        case ifa_addr i of
          Some (Inet a) \<Rightarrow> Some (Inet a, is)
        | Some (Inet6 a) \<Rightarrow> Some (Inet6 a, is)
        | _ \<Rightarrow> main_interface is)"

fun add_interfaces :: "u8 \<Rightarrow> string \<Rightarrow> ifaddrs list \<Rightarrow> mdnsd \<Rightarrow> fault + mdnsd" where
  "add_interfaces junk hostname [] svr = Inr svr"
| "add_interfaces junk hostname (i # is) svr =
     (if ifa_loopback i then add_interfaces junk hostname is svr
      else
        bind_fault (case ifa_addr i of
            None \<Rightarrow> Inl Null_pointer
          | Some (Inet a) \<Rightarrow> mdnsd_add_rr svr (rr_create_a (create_nlabel junk hostname) a)
          | Some (Inet6 a) \<Rightarrow> mdnsd_add_rr svr (rr_create_aaaa (create_nlabel junk hostname) a)
          | Some Other_family \<Rightarrow> Inr svr)
          (add_interfaces junk hostname is))"

definition mdns_txt :: "bool \<Rightarrow> string list" where
  "mdns_txt password =
     [''tp=UDP'', ''sm=false'', ''ek=1'', ''et=0,1'', ''cn=0,1'', ''ch=2'', ''ss=16'', ''sr=44100'', ''vn=3'',
      ''txtvers=1'', ''da=true'', ''md=0,1,2'', if password then ''pw=true'' else ''pw=false'']"

text \<open>
  \<open>started\<close> says whether \<open>mdnsd_start\<close> got its pipe, socket and thread; \<open>ifas\<close> is \<open>None\<close> when
  \<open>getifaddrs\<close> fails. The result is -1, \<open>None\<close> here, or 0 and the server.
\<close>

definition mdns_tinysvcmdns_register ::
    "bool \<Rightarrow> u8 \<Rightarrow> string \<Rightarrow> ifaddrs list option \<Rightarrow> bool \<Rightarrow> string \<Rightarrow> u16 \<Rightarrow> fault + mdnsd option" where
  "mdns_tinysvcmdns_register started junk name ifas password apname port =
     (let hostname = mdns_hostname name in
      if \<not> started then Inr None
      else case ifas of
        None \<Rightarrow> Inr None
      | Some ifas \<Rightarrow>
          (case main_interface ifas of
             None \<Rightarrow> Inr None
           | Some (addr, rest) \<Rightarrow>
               bind_fault (case addr of
                   Inet a \<Rightarrow> mdnsd_set_hostname junk mdnsd_start hostname a
                 | Inet6 a \<Rightarrow> mdnsd_set_hostname_v6 junk mdnsd_start hostname a
                 | Other_family \<Rightarrow> Inr mdnsd_start) (\<lambda>svr.
               bind_fault (add_interfaces junk hostname rest svr) (\<lambda>svr.
               bind_fault (mdnsd_register_svc junk svr apname ''_raop._tcp.local'' port None (mdns_txt password))
                 (\<lambda>(svr, entries). Inr (Some svr))))))"

end
