(* ===== verification/Mdns_Backends.thy ===== *)
theory Mdns_Backends
  imports Dns_Server Dns_Wire Rtsp_Message
begin

text \<open>
  The backends that let another program advertise the player: mdns_external.c, which runs a
  command of Avahi or of Apple's mDNSResponder, mdns_dns_sd.c, which calls the library of the
  latter, and mdns_avahi.c, which is a client of Avahi's daemon and is driven by its callbacks.
  What the libraries and the system calls answer are arguments.
\<close>

section \<open>Commands: mdns\_external.c\<close>

text \<open>
  \<open>x_pipe\<close> is the pair of descriptors \<open>pipe\<close> makes, \<open>x_fcntl\<close> what the inner and the outer
  \<open>fcntl\<close> end in, \<open>x_fork\<close> what \<open>fork\<close> returns to the parent, \<open>x_exec\<close> whether \<open>execvp\<close> finds the
  command: the child closes the pipe by it, or writes four bytes of \<open>errno\<close>.
\<close>

record exec_answer =
  x_pipe :: "(nat \<times> nat) option"
  x_fcntl :: int
  x_fork :: int
  x_exec :: bool

record external =
  mdns_pid :: int
  ext_fds :: "nat list"
  ext_children :: "(int \<times> string list) list"
  ext_killed :: "int list"

definition external_initial :: external where
  "external_initial = \<lparr>mdns_pid = 0, ext_fds = [], ext_children = [], ext_killed = []\<rparr>"

definition fork_execvp :: "exec_answer \<Rightarrow> string list \<Rightarrow> external \<Rightarrow> int \<times> external" where
  "fork_execvp x argv st =
     (case x_pipe x of
        None \<Rightarrow> (-1, st)
      | Some (r, w) \<Rightarrow>
          let fds = ext_fds st in
          if x_fcntl x < 0 then (-1, st)
          else if x_fork x < 0 then (-1, st)
          else
            let st = st\<lparr>ext_fds := r # fds\<rparr> in
            if \<not> x_exec x then (-1, st)
            else (x_fork x, st\<lparr>ext_children := (x_fork x, argv) # ext_children st\<rparr>))"

text \<open>\<open>sprintf\<close> of \<open>config.port\<close> into \<open>char mdns_port[6]\<close>.\<close>

definition mdns_port :: "int \<Rightarrow> fault + string" where
  "mdns_port port = (if length (int_digits port) < 6 then Inr (int_digits port) else Inl Out_of_bounds)"

definition mdns_external_avahi_register ::
    "exec_answer \<Rightarrow> exec_answer \<Rightarrow> bool \<Rightarrow> int \<Rightarrow> string \<Rightarrow> external \<Rightarrow> fault + int \<times> external" where
  "mdns_external_avahi_register x1 x2 password port apname st =
     bind_fault (mdns_port port)
       (\<lambda>mport.
          let args = [apname, ''_raop._tcp'', mport] @ mdns_txt password;
              (pid, st) = fork_execvp x1 (''avahi-publish-service'' # args) st
          in
            if pid \<ge> 0 then Inr (0, st\<lparr>mdns_pid := pid\<rparr>)
            else
              let (pid, st) = fork_execvp x2 (''mDNSPublish'' # args) st in
              if pid \<ge> 0 then Inr (0, st\<lparr>mdns_pid := pid\<rparr>) else Inr (-1, st))"

definition mdns_external_dns_sd_register ::
    "exec_answer \<Rightarrow> bool \<Rightarrow> int \<Rightarrow> string \<Rightarrow> external \<Rightarrow> fault + int \<times> external" where
  "mdns_external_dns_sd_register x password port apname st =
     bind_fault (mdns_port port)
       (\<lambda>mport.
          let (pid, st) = fork_execvp x
                ([''dns-sd'', ''-R'', apname, ''_raop._tcp'', ''.'', mport] @ mdns_txt password) st
          in if pid \<ge> 0 then Inr (0, st\<lparr>mdns_pid := pid\<rparr>) else Inr (-1, st))"

definition kill_mdns_child :: "external \<Rightarrow> external" where
  "kill_mdns_child st =
     (let st = (if mdns_pid st \<noteq> 0 then st\<lparr>ext_killed := mdns_pid st # ext_killed st\<rparr> else st)
      in st\<lparr>mdns_pid := 0\<rparr>)"

section \<open>mDNSResponder: mdns\_dns\_sd.c\<close>

definition txt_length :: "string list \<Rightarrow> u16" where
  "txt_length fs = fold (\<lambda>f length. length + of_nat (size f + 1)) fs 0"

text \<open>The loop with \<open>stpcpy\<close>, which writes the string and a NUL behind it.\<close>

fun txt_fill :: "bytes \<Rightarrow> nat \<Rightarrow> string list \<Rightarrow> fault + bytes" where
  "txt_fill buf p [] = Inr buf"
| "txt_fill buf p (f # fs) =
     (let newp = p + 1 + length f in
      if length buf < newp + 1 then Inl Out_of_bounds
      else
        let buf = take (p + 1) buf @ map char_byte f @ 0 # drop (newp + 1) buf
        in txt_fill (buf[p := of_nat (newp - p - 1)]) newp fs)"

text \<open>
  \<open>block n\<close> is what \<open>malloc(n)\<close> returns, as long as it can be written; \<open>DNSServiceRegister\<close> gets the
  name, the port in network order and the text, and answers an error code and the service.
\<close>

definition mdns_dns_sd_register ::
    "(nat \<Rightarrow> bytes option) \<Rightarrow> (string \<Rightarrow> u16 \<Rightarrow> bytes \<Rightarrow> int \<times> nat) \<Rightarrow> bool \<Rightarrow> string \<Rightarrow> int \<Rightarrow> nat option
       \<Rightarrow> fault + int \<times> nat option" where
  "mdns_dns_sd_register block register password apname port service =
     (let record = mdns_txt password; length = txt_length record in
      case block (unat length) of
        None \<Rightarrow> Inr (-1, service)
      | Some buf \<Rightarrow>
          bind_fault (txt_fill buf 0 record)
            (\<lambda>buf.
               let (err, ref) = register apname (htons (word_of_int port)) (take (unat length) buf) in
               if err = 0 then Inr (0, Some ref) else Inr (-1, service)))"

definition mdns_dns_sd_unregister :: "nat option \<Rightarrow> nat option" where
  "mdns_dns_sd_unregister service = (case service of Some ref \<Rightarrow> None | None \<Rightarrow> None)"

section \<open>Avahi: mdns\_avahi.c\<close>

record avahi_service =
  as_name :: string
  as_type :: string
  as_port :: int
  as_txt :: "string list"

text \<open>An entry group is the services it holds and whether they are committed.\<close>

record avahi =
  av_client :: bool
  av_group :: "(avahi_service list \<times> bool) option"
  av_tpoll :: bool
  av_name :: "string option"
  av_port :: int

definition avahi_initial :: avahi where
  "avahi_initial = \<lparr>av_client = False, av_group = None, av_tpoll = False, av_name = None, av_port = 0\<rparr>"

datatype client_state =
    AVAHI_CLIENT_S_REGISTERING
  | AVAHI_CLIENT_S_RUNNING
  | AVAHI_CLIENT_S_COLLISION
  | AVAHI_CLIENT_FAILURE
  | AVAHI_CLIENT_CONNECTING

datatype group_state =
    AVAHI_ENTRY_GROUP_UNCOMMITED
  | AVAHI_ENTRY_GROUP_REGISTERING
  | AVAHI_ENTRY_GROUP_ESTABLISHED
  | AVAHI_ENTRY_GROUP_COLLISION
  | AVAHI_ENTRY_GROUP_FAILURE

text \<open>The answers of the library in one call of a callback.\<close>

record avahi_answer =
  group_new :: bool
  add_service_ret :: int
  commit_ret :: int

definition egroup_callback :: "group_state \<Rightarrow> avahi \<Rightarrow> fault + avahi" where
  "egroup_callback state st =
     (if state = AVAHI_ENTRY_GROUP_COLLISION then Inl (Die ''service name already exists on network!'')
      else if state = AVAHI_ENTRY_GROUP_FAILURE then Inl (Die ''avahi entry group failure!'')
      else Inr st)"

definition register_service :: "avahi_answer \<Rightarrow> bool \<Rightarrow> avahi \<Rightarrow> fault + avahi" where
  "register_service ans password st =
     bind_fault (case av_group st of
         Some g \<Rightarrow> Inr g
       | None \<Rightarrow> if group_new ans then Inr ([], False) else Inl (Die ''avahi_entry_group_new failed''))
       (\<lambda>(services, committed).
          let st = st\<lparr>av_group := Some (services, committed)\<rparr> in
          if services \<noteq> [] then Inr st
          else
            case av_name st of
              None \<Rightarrow> Inl Null_pointer
            | Some n \<Rightarrow>
                if add_service_ret ans < 0 then Inl (Die ''avahi_entry_group_add_service failed'')
                else if commit_ret ans < 0 then Inl (Die ''avahi_entry_group_commit failed'')
                else Inr (st\<lparr>av_group := Some (services @ [\<lparr>as_name = n, as_type = ''_raop._tcp'',
                       as_port = av_port st, as_txt = mdns_txt password\<rparr>], True)\<rparr>))"

definition client_callback :: "avahi_answer \<Rightarrow> bool \<Rightarrow> client_state \<Rightarrow> avahi \<Rightarrow> fault + avahi" where
  "client_callback ans password state st =
     (case state of
        AVAHI_CLIENT_S_REGISTERING \<Rightarrow>
          Inr (if av_group st \<noteq> None then st\<lparr>av_group := Some ([], False)\<rparr> else st)
      | AVAHI_CLIENT_S_RUNNING \<Rightarrow> register_service ans password st
      | AVAHI_CLIENT_FAILURE \<Rightarrow> Inl (Die ''avahi client failure'')
      | AVAHI_CLIENT_S_COLLISION \<Rightarrow> Inl (Die ''avahi client failure'')
      | AVAHI_CLIENT_CONNECTING \<Rightarrow> Inr st)"

text \<open>The callbacks in the order the library makes them.\<close>

datatype avahi_event =
    Client client_state avahi_answer
  | Group group_state

fun avahi_run :: "bool \<Rightarrow> avahi_event list \<Rightarrow> avahi \<Rightarrow> fault + avahi" where
  "avahi_run password [] st = Inr st"
| "avahi_run password (Client s ans # evs) st =
     bind_fault (client_callback ans password s st) (avahi_run password evs)"
| "avahi_run password (Group s # evs) st = bind_fault (egroup_callback s st) (avahi_run password evs)"

text \<open>
  \<open>client_new\<close> is \<open>None\<close> when no client can be made, else the callbacks it makes already; then the
  thread is started, which makes the others.
\<close>

definition avahi_register ::
    "bool \<Rightarrow> avahi_event list option \<Rightarrow> int \<Rightarrow> bool \<Rightarrow> string \<Rightarrow> int \<Rightarrow> avahi \<Rightarrow> fault + int \<times> avahi" where
  "avahi_register poll_new client_new poll_start password srvname srvport st =
     (let st = st\<lparr>av_name := Some srvname, av_port := srvport\<rparr> in
      if \<not> poll_new then Inr (-1, st\<lparr>av_tpoll := False\<rparr>)
      else
        let st = st\<lparr>av_tpoll := True\<rparr> in
        case client_new of
          None \<Rightarrow> Inr (-1, st\<lparr>av_client := False\<rparr>)
        | Some evs \<Rightarrow>
            bind_fault (avahi_run password evs st)
              (\<lambda>st. Inr (if poll_start < 0 then -1 else 0, st\<lparr>av_client := True\<rparr>)))"

definition avahi_unregister :: "avahi \<Rightarrow> avahi" where
  "avahi_unregister st = st\<lparr>av_tpoll := False, av_name := None\<rparr>"

section \<open>The port as text\<close>

lemma mdns_port_fits: "mdns_port port = Inr (int_digits port) \<longleftrightarrow> - 9999 \<le> port \<and> port \<le> 99999"
  "mdns_port port = Inl Out_of_bounds \<longleftrightarrow> port < - 9999 \<or> 99999 < port"
proof -
  have "length (int_digits port) < 6 \<longleftrightarrow> - 9999 \<le> port \<and> port \<le> 99999"
  proof (cases "port < 0")
    case True
    have "length (int_digits port) < 6 \<longleftrightarrow> length (nat_digits (nat (- port))) \<le> 4"
      using True by (simp add: int_digits_def less_Suc_eq_le numeral_eq_Suc)
    also have "\<dots> \<longleftrightarrow> nat (- port) < 10 ^ 4" by (rule length_nat_digits) simp
    also have "\<dots> \<longleftrightarrow> - 9999 \<le> port" by (simp add: nat_less_iff) linarith
    finally show ?thesis using True by simp
  next
    case False
    have "length (int_digits port) < 6 \<longleftrightarrow> length (nat_digits (nat port)) \<le> 5"
      using False by (simp add: int_digits_def less_Suc_eq_le numeral_eq_Suc)
    also have "\<dots> \<longleftrightarrow> nat port < 10 ^ 5" by (rule length_nat_digits) simp
    also have "\<dots> \<longleftrightarrow> port \<le> 99999" using False by (simp add: nat_less_iff) linarith
    finally show ?thesis using False by simp
  qed
  then show "mdns_port port = Inr (int_digits port) \<longleftrightarrow> - 9999 \<le> port \<and> port \<le> 99999"
    and "mdns_port port = Inl Out_of_bounds \<longleftrightarrow> port < - 9999 \<or> 99999 < port"
    by (auto simp: mdns_port_def)
qed

section \<open>The text of the record\<close>

definition txt_item :: "string \<Rightarrow> bytes" where
  "txt_item f = of_nat (length f) # map char_byte f"

definition txt_image :: "string list \<Rightarrow> bytes" where
  "txt_image fs = concat (map txt_item fs)"

lemma txt_image_simps [simp]:
  "txt_image [] = []"
  "txt_image (f # fs) = txt_item f @ txt_image fs"
  "length (txt_item f) = length f + 1"
  by (simp_all add: txt_image_def txt_item_def)

lemma txt_fill_step:
  "txt_fill (pre @ rest) (length pre) (f # fs) =
    (if length rest < length f + 2 then Inl Out_of_bounds
     else txt_fill ((pre @ txt_item f) @ 0 # drop (length f + 2) rest) (length (pre @ txt_item f)) fs)"
proof (cases "length rest < length f + 2")
  case False
  then obtain b rest' where rest: "rest = b # rest'" by (cases rest) auto
  have "(take (length pre + 1) (pre @ rest) @ map char_byte f @ 0 # drop (length pre + 1 + length f + 1) (pre @ rest))
      [length pre := of_nat (length f)] = (pre @ txt_item f) @ 0 # drop (length f + 2) rest"
    by (simp add: rest txt_item_def list_update_append)
  then show ?thesis using False by (simp add: Let_def)
qed simp

lemma txt_fill_fits:
  assumes "fs \<noteq> []" "length (txt_image fs) < length rest"
  shows "txt_fill (pre @ rest) (length pre) fs =
    Inr (pre @ txt_image fs @ 0 # drop (length (txt_image fs) + 1) rest)"
  using assms
proof (induction fs arbitrary: pre rest)
  case (Cons f fs)
  show ?case
  proof (cases "fs = []")
    case True
    then show ?thesis unfolding txt_fill_step using Cons.prems(2) by simp
  next
    case False
    have "txt_fill ((pre @ txt_item f) @ 0 # drop (length f + 2) rest) (length (pre @ txt_item f)) fs =
        Inr ((pre @ txt_item f) @ txt_image fs @ 0 # drop (length (txt_image fs) + 1) (0 # drop (length f + 2) rest))"
      by (rule Cons.IH [OF False]) (use Cons.prems(2) in simp)
    then show ?thesis unfolding txt_fill_step using Cons.prems(2) by (simp add: add.commute add.left_commute)
  qed
qed simp

lemma txt_fill_overflows:
  assumes "fs \<noteq> []" "length rest \<le> length (txt_image fs)"
  shows "txt_fill (pre @ rest) (length pre) fs = Inl Out_of_bounds"
  using assms
proof (induction fs arbitrary: pre rest)
  case (Cons f fs)
  show ?case
  proof (cases "length rest < length f + 2")
    case False
    then have "fs \<noteq> []" using Cons.prems(2) by auto
    then have "txt_fill ((pre @ txt_item f) @ 0 # drop (length f + 2) rest) (length (pre @ txt_item f)) fs =
        Inl Out_of_bounds"
      by (rule Cons.IH) (use Cons.prems(2) False in simp)
    then show ?thesis unfolding txt_fill_step by simp
  qed (simp add: txt_fill_step)
qed simp

lemma mdns_txt_facts:
  "unat (txt_length (mdns_txt pw)) = length (txt_image (mdns_txt pw))" "mdns_txt pw \<noteq> []"
  "\<forall>t \<in> set (map (\<lambda>f. Some (txt_item f)) (mdns_txt pw)). txt_ok t"
  by (cases pw; simp add: mdns_txt_def txt_length_def, code_simp?)+

section \<open>The group of Avahi\<close>

definition avahi_published :: "avahi_service \<Rightarrow> avahi \<Rightarrow> bool" where
  "avahi_published svc st \<longleftrightarrow> av_group st = Some ([svc], True)"

definition avahi_inv :: "avahi_service \<Rightarrow> avahi \<Rightarrow> bool" where
  "avahi_inv svc st \<longleftrightarrow> av_name st = Some (as_name svc) \<and> av_port st = as_port svc \<and>
     (av_group st = None \<or> av_group st = Some ([], False) \<or> avahi_published svc st)"

definition player_service :: "bool \<Rightarrow> string \<Rightarrow> int \<Rightarrow> avahi_service" where
  "player_service password n port =
     \<lparr>as_name = n, as_type = ''_raop._tcp'', as_port = port, as_txt = mdns_txt password\<rparr>"

lemma register_service_publishes:
  assumes "avahi_inv (player_service pw n port) st" "register_service ans pw st = Inr st'"
  shows "avahi_inv (player_service pw n port) st' \<and> avahi_published (player_service pw n port) st'"
  using assms
  by (auto simp: register_service_def avahi_inv_def avahi_published_def player_service_def Let_def
      split: option.splits if_splits elim!: bind_fault_Inr)

lemma client_callback_inv:
  assumes "avahi_inv (player_service pw n port) st" "client_callback ans pw s st = Inr st'"
  shows "avahi_inv (player_service pw n port) st'"
proof (cases s)
  case AVAHI_CLIENT_S_RUNNING
  then show ?thesis using assms register_service_publishes by (simp add: client_callback_def)
qed (use assms in \<open>auto simp: client_callback_def avahi_inv_def split: if_splits\<close>)

lemma egroup_callback_keeps: "egroup_callback s st = Inr st' \<Longrightarrow> st' = st"
  by (simp add: egroup_callback_def split: if_splits)

lemma avahi_run_inv:
  "avahi_inv (player_service pw n port) st \<Longrightarrow> avahi_run pw evs st = Inr st' \<Longrightarrow>
    avahi_inv (player_service pw n port) st'"
proof (induction evs arbitrary: st)
  case (Cons e evs)
  show ?case
  proof (cases e)
    case (Client s ans)
    with Cons.prems obtain st1 where "client_callback ans pw s st = Inr st1" "avahi_run pw evs st1 = Inr st'"
      by (auto elim: bind_fault_Inr)
    with Cons client_callback_inv show ?thesis by blast
  next
    case (Group s)
    with Cons.prems obtain st1 where "egroup_callback s st = Inr st1" "avahi_run pw evs st1 = Inr st'"
      by (auto elim: bind_fault_Inr)
    with Cons egroup_callback_keeps show ?thesis by blast
  qed
qed simp

lemma avahi_run_append: "avahi_run pw (evs @ evs') st = bind_fault (avahi_run pw evs st) (avahi_run pw evs')"
proof (induction evs arbitrary: st)
  case (Cons e evs)
  then have "avahi_run pw (evs @ evs') = (\<lambda>st. bind_fault (avahi_run pw evs st) (avahi_run pw evs'))" by blast
  then show ?case by (cases e) (simp_all add: bind_fault_assoc)
qed simp

section \<open>Properties\<close>

text \<open>
  C28: whatever callbacks Avahi makes, in whatever order, the backend's group never holds anything
  but the player's service, never twice, and never without its commit; and as soon as the client
  runs, at the start or after the daemon's host name changed, the service is published.
\<close>

theorem avahi_publishes_once:
  assumes "avahi_register True (Some evs0) 0 pw apname port avahi_initial = Inr (ret, st)"
    and "avahi_run pw evs st = Inr st'"
  shows "(av_group st' = None \<or> av_group st' = Some ([], False) \<or>
      avahi_published (player_service pw apname port) st') \<and>
    (\<forall>ans st''. avahi_run pw (evs @ [Client AVAHI_CLIENT_S_RUNNING ans]) st = Inr st'' \<longrightarrow>
       avahi_published (player_service pw apname port) st'')"
proof -
  let ?svc = "player_service pw apname port"
  have "avahi_inv ?svc (avahi_initial\<lparr>av_name := Some apname, av_port := port, av_tpoll := True\<rparr>)"
    by (simp add: avahi_inv_def player_service_def avahi_initial_def)
  with assms(1) obtain s where s: "avahi_inv ?svc s" "st = s\<lparr>av_client := True\<rparr>"
    by (auto simp: avahi_register_def Let_def elim!: bind_fault_Inr dest: avahi_run_inv)
  then have "avahi_inv ?svc st" by (simp add: avahi_inv_def avahi_published_def)
  then have i: "avahi_inv ?svc st'" using assms(2) by (rule avahi_run_inv)
  have "avahi_published ?svc st''"
    if r: "avahi_run pw (evs @ [Client AVAHI_CLIENT_S_RUNNING ans]) st = Inr st''" for ans st''
  proof -
    have "register_service ans pw st' = Inr st''"
      using r assms(2) by (auto simp: avahi_run_append client_callback_def elim!: bind_fault_Inr)
    with register_service_publishes [OF i] show ?thesis by blast
  qed
  then show ?thesis using i by (auto simp: avahi_inv_def)
qed

theorem avahi_publishes_once_witness:
  "\<exists>st st'. avahi_register True (Some [Client AVAHI_CLIENT_S_RUNNING \<lparr>group_new = True, add_service_ret = 0, commit_ret = 0\<rparr>])
      0 False ''Den'' 5002 avahi_initial = Inr (0, st) \<and>
    avahi_run False [Client AVAHI_CLIENT_S_REGISTERING \<lparr>group_new = True, add_service_ret = 0, commit_ret = 0\<rparr>] st = Inr st' \<and>
    av_group st' = Some ([], False)"
proof -
  let ?ans = "\<lparr>group_new = True, add_service_ret = 0, commit_ret = 0\<rparr>"
  obtain st where r: "avahi_register True (Some [Client AVAHI_CLIENT_S_RUNNING ?ans]) 0 False ''Den'' 5002 avahi_initial = Inr (0, st)"
    and g: "av_group st = Some ([player_service False ''Den'' 5002], True)"
    by (simp add: avahi_register_def client_callback_def register_service_def avahi_initial_def player_service_def)
  obtain st' where run: "avahi_run False [Client AVAHI_CLIENT_S_REGISTERING ?ans] st = Inr st'"
    and g': "av_group st' = Some ([], False)"
    using g by (simp add: client_callback_def)
  from avahi_publishes_once [OF r run] r run g' show ?thesis by blast
qed

text \<open>
  C33: the TXT record handed to mDNSResponder needs one byte more than \<open>malloc\<close> is asked for: with a
  block of just that size the loop writes behind its end, for every configuration; with one that
  has room for the last NUL the library gets exactly the record, which reads back as its strings,
  with the port in network order.
\<close>

theorem dns_sd_text_needs_one_more:
  assumes "block (length (txt_image (mdns_txt pw))) = Some buf" "length (txt_image (mdns_txt pw)) \<le> length buf"
  shows "mdns_dns_sd_register block register pw apname port service =
      (if length buf = length (txt_image (mdns_txt pw)) then Inl Out_of_bounds
       else case register apname (htons (word_of_int port)) (txt_image (mdns_txt pw)) of
         (err, ref) \<Rightarrow> if err = 0 then Inr (0, Some ref) else Inr (-1, service)) \<and>
    parse_txt (txt_image (mdns_txt pw)) (length (txt_image (mdns_txt pw))) (length (txt_image (mdns_txt pw))) 0 =
      Inr (Some (map (\<lambda>f. Some (txt_item f)) (mdns_txt pw), length (txt_image (mdns_txt pw))))"
proof -
  let ?i = "txt_image (mdns_txt pw)" and ?ts = "map (\<lambda>f. Some (txt_item f)) (mdns_txt pw)"
  have c: "concat (map the ?ts) = ?i" by (simp add: txt_image_def comp_def)
  have p: "parse_txt ?i (length ?i) (length ?i) 0 = Inr (Some (?ts, length ?i))"
    using parse_txt_bytes [OF mdns_txt_facts(3) [of pw], where pre = "[]" and r = "[]", of "length ?i" "length ?i"]
      mdns_txt_facts(2) c by simp
  have "txt_fill buf 0 (mdns_txt pw) =
      (if length buf = length ?i then Inl Out_of_bounds else Inr (?i @ 0 # drop (length ?i + 1) buf))"
    using txt_fill_overflows [OF mdns_txt_facts(2), of buf pw "[]"]
      txt_fill_fits [OF mdns_txt_facts(2), of pw buf "[]"] assms(2) by auto
  then show ?thesis
    using p assms(1) by (simp add: mdns_dns_sd_register_def mdns_txt_facts(1) Let_def split: prod.splits)
qed

theorem dns_sd_text_needs_one_more_witness:
  "mdns_dns_sd_register (\<lambda>n. Some (replicate n 0)) (\<lambda>n p t. (0, 1)) False ''Den'' 5002 None = Inl Out_of_bounds \<and>
   mdns_dns_sd_register (\<lambda>n. Some (replicate (n + 8) 0)) (\<lambda>n p t. (0, 1)) False ''Den'' 5002 None = Inr (0, Some 1)"
  using dns_sd_text_needs_one_more [of "\<lambda>n. Some (replicate n 0)" False
      "replicate (length (txt_image (mdns_txt False))) 0" "\<lambda>n p t. (0, 1)" "''Den''" 5002 None]
    dns_sd_text_needs_one_more [of "\<lambda>n. Some (replicate (n + 8) 0)" False
      "replicate (length (txt_image (mdns_txt False)) + 8) 0" "\<lambda>n p t. (0, 1)" "''Den''" 5002 None]
  by simp

text \<open>
  C34: the backends that run a command write the port, any number \<open>atoi\<close> made of the option, into
  6 characters: they overflow exactly for a port below -9999 or above 99999. With another port and
  a command that can be run the child advertises the player with its name, port and record, and
  unregistering kills that child once; the read end of the pipe stays open in the server.
\<close>

theorem external_command_advertises:
  assumes "x_pipe x = Some (r, w)" "0 \<le> x_fcntl x" "0 < x_fork x" "x_exec x"
    and "mport = int_digits port"
  shows "mdns_external_avahi_register x x2 pw port apname external_initial =
      (if port < - 9999 \<or> 99999 < port then Inl Out_of_bounds
       else Inr (0, \<lparr>mdns_pid = x_fork x, ext_fds = [r],
              ext_children = [(x_fork x, [''avahi-publish-service'', apname, ''_raop._tcp'', mport] @ mdns_txt pw)],
              ext_killed = []\<rparr>)) \<and>
    mdns_external_dns_sd_register x pw port apname external_initial =
      (if port < - 9999 \<or> 99999 < port then Inl Out_of_bounds
       else Inr (0, \<lparr>mdns_pid = x_fork x, ext_fds = [r],
              ext_children = [(x_fork x, [''dns-sd'', ''-R'', apname, ''_raop._tcp'', ''.'', mport] @ mdns_txt pw)],
              ext_killed = []\<rparr>)) \<and>
    (\<forall>st. mdns_pid st \<noteq> 0 \<longrightarrow>
       kill_mdns_child (kill_mdns_child st) = st\<lparr>mdns_pid := 0, ext_killed := mdns_pid st # ext_killed st\<rparr>)"
proof -
  have p: "mdns_port port = (if port < - 9999 \<or> 99999 < port then Inl Out_of_bounds else Inr mport)"
    using mdns_port_fits [of port] assms(5) by auto
  show ?thesis
    using assms(1-4)
    by (auto simp: mdns_external_avahi_register_def mdns_external_dns_sd_register_def p fork_execvp_def
        external_initial_def kill_mdns_child_def)
qed

theorem external_command_advertises_witness:
  "mdns_external_dns_sd_register \<lparr>x_pipe = Some (8, 9), x_fcntl = 0, x_fork = 77, x_exec = True\<rparr> False 100000 ''Den''
     external_initial = Inl Out_of_bounds"
  using external_command_advertises [of "\<lparr>x_pipe = Some (8, 9), x_fcntl = 0, x_fork = 77, x_exec = True\<rparr>" 8 9
      "int_digits 100000" 100000 "\<lparr>x_pipe = Some (8, 9), x_fcntl = 0, x_fork = 77, x_exec = True\<rparr>" False "''Den''"]
  by simp

end
