(* ===== verification/Dns_Answers.thy ===== *)
theory Dns_Answers
  imports Dns_Server
begin

unbundle bit_operations_syntax

text \<open>
  What the responder of tinysvcmdns.c answers: the invariant of its groups, that registering keeps it,
  and the records of a reply as sets, the additional ones as a transitive closure.
\<close>

section \<open>The invariant\<close>

definition name_fits :: "nlabel option \<Rightarrow> bool" where
  "name_fits n \<longleftrightarrow> well_named n \<and> length (the n) < 256"

lemma name_fits_str: "name_fits n \<Longrightarrow> \<exists>s. nlabel_to_str n = Inr s"
proof -
  assume f: "name_fits n"
  then obtain segs where s: "n = Some (name_of segs)" "\<forall>s \<in> set segs. label_ok s"
    by (auto simp: name_fits_def well_named_def)
  have "length (concat (map (\<lambda>s. s @ [char_byte (CHR ''.'')]) segs)) = length (name_of segs)"
    by (induction segs) auto
  then show ?thesis
    using f s nlabel_dotted_name [OF s(2)] by (simp add: nlabel_to_str_def name_fits_def)
qed

definition rr_wf :: "rr_store \<Rightarrow> rr_entry \<Rightarrow> bool" where
  "rr_wf rrs rr \<longleftrightarrow> name_fits (rr_name rr) \<and> data_ok rrs rr \<and>
     (case rr_data rr of PTR_data None e \<Rightarrow> e < length rrs | _ \<Rightarrow> True)"

definition group_wf :: "rr_store \<Rightarrow> rr_group \<Rightarrow> bool" where
  "group_wf rrs g \<longleftrightarrow> distinct (gr_rr g) \<and>
     (\<forall>i \<in> set (gr_rr g). i < length rrs \<and> rr_name (rrs ! i) = Some (gr_name g))"

definition svr_ok :: "mdnsd \<Rightarrow> bool" where
  "svr_ok svr \<longleftrightarrow>
     distinct (map gr_name (svr_group svr)) \<and>
     (\<forall>g \<in> set (svr_group svr). group_wf (svr_rrs svr) g) \<and>
     (\<forall>rr \<in> set (svr_rrs svr). rr_wf (svr_rrs svr) rr) \<and>
     (\<forall>i \<in> set (svr_announce svr) \<union> set (svr_services svr). i < length (svr_rrs svr)) \<and>
     distinct (svr_services svr) \<and>
     (svr_hostname svr = None \<or> name_fits (svr_hostname svr))"

definition advertised :: "mdnsd \<Rightarrow> nat set" where
  "advertised svr = (\<Union>g \<in> set (svr_group svr). set (gr_rr g))"

text \<open>The record answers a question.\<close>

definition answers :: "rr_store \<Rightarrow> nlabel option \<Rightarrow> u16 \<Rightarrow> nat \<Rightarrow> bool" where
  "answers rrs name type i \<longleftrightarrow> rr_name (rrs ! i) = name \<and>
     (if type = RR_ANY then rr_type (rrs ! i) \<noteq> RR_NSEC else rr_type (rrs ! i) = type)"

lemma advertised_bound: "svr_ok svr \<Longrightarrow> i \<in> advertised svr \<Longrightarrow> i < length (svr_rrs svr)"
  by (auto simp: svr_ok_def advertised_def group_wf_def)

lemma advertised_finite [simp]: "finite (advertised svr)"
  by (simp add: advertised_def)

lemma svr_ok_rr: "svr_ok svr \<Longrightarrow> i < length (svr_rrs svr) \<Longrightarrow> rr_wf (svr_rrs svr) (svr_rrs svr ! i)"
  by (simp add: svr_ok_def)

lemma well_named_some: "well_named n \<Longrightarrow> \<exists>m. n = Some m"
  by (auto simp: well_named_def)

section \<open>Groups\<close>

lemma rr_group_find_some:
  "\<exists>r. rr_group_find gs (Some n) = Inr r \<and>
    (case r of None \<Rightarrow> n \<notin> gr_name ` set gs | Some k \<Rightarrow> k < length gs \<and> gr_name (gs ! k) = n)"
proof (induction gs)
  case (Cons g gs)
  then obtain r where "rr_group_find gs (Some n) = Inr r"
    "case r of None \<Rightarrow> n \<notin> gr_name ` set gs | Some k \<Rightarrow> k < length gs \<and> gr_name (gs ! k) = n" by blast
  then show ?case by (cases r) auto
qed simp

lemma group_unique:
  "distinct (map gr_name gs) \<Longrightarrow> k < length gs \<Longrightarrow> g \<in> set gs \<Longrightarrow> gr_name g = gr_name (gs ! k) \<Longrightarrow> g = gs ! k"
  by (metis (no_types, lifting) distinct_map inj_onD nth_mem)

text \<open>What a group adds to a list.\<close>

lemma populate_loop_some:
  assumes "\<forall>i \<in> set ns. rr_name (rrs ! i) \<noteq> None" "distinct ns"
  shows "\<exists>xs. populate_loop rrs (Some n) type ns l num = Inr (l @ xs, num + length xs) \<and> distinct xs \<and>
    set xs = {i \<in> set ns. answers rrs (Some n) type i} - set l"
  using assms
proof (induction ns arbitrary: l num)
  case Nil
  then show ?case by (intro exI [of _ "[]"]) simp
next
  case (Cons i ns)
  let ?a = "answers rrs (Some n) type i \<and> i \<notin> set l"
  obtain m where m: "rr_name (rrs ! i) = Some m" using Cons.prems(1) by auto
  show ?case
  proof (cases ?a)
    case True
    then have m: "rr_name (rrs ! i) = Some n" and t: "if type = RR_ANY then rr_type (rrs ! i) \<noteq> RR_NSEC else rr_type (rrs ! i) = type"
      and l: "i \<notin> set l" by (auto simp: answers_def)
    obtain xs where xs: "populate_loop rrs (Some n) type ns (l @ [i]) (num + 1) = Inr ((l @ [i]) @ xs, num + 1 + length xs)"
      "distinct xs" "set xs = {j \<in> set ns. answers rrs (Some n) type j} - set (l @ [i])"
      using Cons.IH [of "l @ [i]" "num + 1"] Cons.prems by auto
    have "populate_loop rrs (Some n) type (i # ns) l num = Inr (l @ (i # xs), num + length (i # xs))"
      using m t l xs(1) by (auto simp: rr_list_append_def split: if_splits)
    moreover have "distinct (i # xs)" "set (i # xs) = {j \<in> set (i # ns). answers rrs (Some n) type j} - set l"
      using xs(2,3) True Cons.prems(2) by auto
    ultimately show ?thesis by blast
  next
    case False
    obtain xs where xs: "populate_loop rrs (Some n) type ns l num = Inr (l @ xs, num + length xs)"
      "distinct xs" "set xs = {j \<in> set ns. answers rrs (Some n) type j} - set l"
      using Cons.IH [of l num] Cons.prems by auto
    have "populate_loop rrs (Some n) type (i # ns) l num = Inr (l @ xs, num + length xs)"
      using False m xs(1) by (auto simp: rr_list_append_def answers_def)
    moreover have "set xs = {j \<in> set (i # ns). answers rrs (Some n) type j} - set l" using xs(3) False by auto
    ultimately show ?thesis using xs(2) by blast
  qed
qed

lemma populate_answers_some:
  assumes "svr_ok svr"
  shows "\<exists>xs. populate_answers svr l (Some n) type = Inr (l @ xs, length xs) \<and> distinct xs \<and>
    set xs = {i \<in> advertised svr. answers (svr_rrs svr) (Some n) type i} - set l"
proof -
  let ?gs = "svr_group svr"
  obtain r where r: "rr_group_find ?gs (Some n) = Inr r"
    "case r of None \<Rightarrow> n \<notin> gr_name ` set ?gs | Some k \<Rightarrow> k < length ?gs \<and> gr_name (?gs ! k) = n"
    using rr_group_find_some by blast
  have wf: "\<And>g. g \<in> set ?gs \<Longrightarrow> group_wf (svr_rrs svr) g" using assms by (simp add: svr_ok_def)
  show ?thesis
  proof (cases r)
    case None
    then have "{i \<in> advertised svr. answers (svr_rrs svr) (Some n) type i} = {}"
      using r(2) wf by (fastforce simp: advertised_def answers_def group_wf_def)
    then show ?thesis using r(1) None by (intro exI [of _ "[]"]) (auto simp: populate_answers_def)
  next
    case (Some k)
    then have k: "k < length ?gs" "gr_name (?gs ! k) = n" using r(2) by simp_all
    note g = wf [OF nth_mem [OF k(1)], unfolded group_wf_def]
    obtain xs where xs: "populate_loop (svr_rrs svr) (Some n) type (gr_rr (?gs ! k)) l 0 = Inr (l @ xs, 0 + length xs)"
      "distinct xs" "set xs = {i \<in> set (gr_rr (?gs ! k)). answers (svr_rrs svr) (Some n) type i} - set l"
      using populate_loop_some [of "gr_rr (?gs ! k)" "svr_rrs svr" n type l 0] g by auto
    have "i \<in> set (gr_rr (?gs ! k))" if "i \<in> advertised svr" "answers (svr_rrs svr) (Some n) type i" for i
    proof -
      obtain h where h: "h \<in> set ?gs" "i \<in> set (gr_rr h)" using \<open>i \<in> advertised svr\<close> by (auto simp: advertised_def)
      then have "gr_name h = n" using that(2) wf [OF h(1)] by (simp add: answers_def group_wf_def)
      then have "h = ?gs ! k" using group_unique [OF _ k(1) h(1)] assms k(2) by (simp add: svr_ok_def)
      then show ?thesis using h(2) by simp
    qed
    moreover have "set (gr_rr (?gs ! k)) \<subseteq> advertised svr" using nth_mem [OF k(1)] unfolding advertised_def by blast
    ultimately have "{i \<in> set (gr_rr (?gs ! k)). answers (svr_rrs svr) (Some n) type i} =
        {i \<in> advertised svr. answers (svr_rrs svr) (Some n) type i}" by auto
    then show ?thesis using xs r(1) Some by (intro exI [of _ xs]) (simp add: populate_answers_def)
  qed
qed

section \<open>Additional records\<close>

text \<open>The records that go with a record, and the pairs of them.\<close>

definition related :: "mdnsd \<Rightarrow> nat \<Rightarrow> nat set" where
  "related svr i =
     {j \<in> advertised svr.
        let rrs = svr_rrs svr; ans = rrs ! i in
        if rr_type ans = RR_PTR then \<exists>n. ptr_name rrs ans = Inr n \<and> answers rrs n RR_ANY j
        else if rr_type ans = RR_SRV then
          (\<exists>pr w port target. rr_data ans = SRV_data pr w port target \<and> answers rrs target RR_ANY j) \<or>
          answers rrs (rr_name ans) RR_TXT j
        else (rr_type ans = RR_A \<or> rr_type ans = RR_AAAA) \<and> answers rrs (rr_name ans) RR_NSEC j}"

definition relation :: "mdnsd \<Rightarrow> (nat \<times> nat) set" where
  "relation svr = {(i, j). j \<in> related svr i}"

definition add_to :: "nat mdns_pkt \<Rightarrow> nat list \<Rightarrow> nat mdns_pkt" where
  "add_to reply xs = reply\<lparr>rr_add := rr_add reply @ xs, num_add_rr := num_add_rr reply + of_nat (length xs)\<rparr>"

lemma add_to_simps [simp]:
  "add_to reply [] = reply" "add_to (add_to reply xs) ys = add_to reply (xs @ ys)"
  "rr_add (add_to reply xs) = rr_add reply @ xs" "rr_ans (add_to reply xs) = rr_ans reply"
  "num_ans_rr (add_to reply xs) = num_ans_rr reply"
  "num_add_rr (add_to reply xs) = num_add_rr reply + of_nat (length xs)"
  by (simp_all add: add_to_def)

lemma populate_add_some:
  assumes "svr_ok svr"
  shows "\<exists>xs. populate_add svr reply (Some n) type = Inr (add_to reply xs) \<and> distinct xs \<and>
    set xs = {i \<in> advertised svr. answers (svr_rrs svr) (Some n) type i} - set (rr_add reply)"
  using populate_answers_some [OF assms, of "rr_add reply" n type] by (auto simp: populate_add_def add_to_def)

lemma related_rr_some:
  assumes "svr_ok svr" "i < length (svr_rrs svr)"
  shows "\<exists>xs. related_rr svr reply i = Inr (add_to reply xs) \<and> distinct xs \<and>
    set xs = related svr i - set (rr_add reply)"
proof -
  let ?rr = "svr_rrs svr ! i"
  have wf: "name_fits (rr_name ?rr)" "data_ok (svr_rrs svr) ?rr"
    using svr_ok_rr [OF assms] by (simp_all add: rr_wf_def)
  obtain m where m: "rr_name ?rr = Some m" using wf(1) well_named_some by (auto simp: name_fits_def)
  consider (ptr) "rr_type ?rr = RR_PTR" | (srv) "rr_type ?rr = RR_SRV"
    | (addr) "rr_type ?rr = RR_A \<or> rr_type ?rr = RR_AAAA"
    | (none) "rr_type ?rr \<notin> {RR_PTR, RR_SRV, RR_A, RR_AAAA}" by auto
  then show ?thesis
  proof cases
    case ptr
    then obtain name e n where d: "rr_data ?rr = PTR_data name e" "ptr_target (svr_rrs svr) name e = Some n"
      using wf(2) well_named_some by (fastforce simp: data_ok_def split: rr_data.splits option.splits)
    then have p: "ptr_name (svr_rrs svr) ?rr = Inr (Some n)" by (simp add: ptr_name_def)
    then have "related svr i = {j \<in> advertised svr. answers (svr_rrs svr) (Some n) RR_ANY j}"
      using ptr by (simp add: related_def Let_def)
    then show ?thesis
      using populate_add_some [OF assms(1), of reply n RR_ANY] ptr p by (simp add: related_rr_def Let_def)
  next
    case srv
    then obtain pr w port target n where d: "rr_data ?rr = SRV_data pr w port target" "target = Some n"
      using wf(2) well_named_some by (fastforce simp: data_ok_def split: rr_data.splits option.splits)
    obtain xs where xs: "populate_add svr reply (Some n) RR_ANY = Inr (add_to reply xs)" "distinct xs"
      "set xs = {i \<in> advertised svr. answers (svr_rrs svr) (Some n) RR_ANY i} - set (rr_add reply)"
      using populate_add_some [OF assms(1)] by blast
    obtain ys where ys: "populate_add svr (add_to reply xs) (Some m) RR_TXT = Inr (add_to (add_to reply xs) ys)"
      "distinct ys"
      "set ys = {i \<in> advertised svr. answers (svr_rrs svr) (Some m) RR_TXT i} - set (rr_add (add_to reply xs))"
      using populate_add_some [OF assms(1)] by blast
    have "related svr i = {j \<in> advertised svr. answers (svr_rrs svr) (Some n) RR_ANY j} \<union>
        {j \<in> advertised svr. answers (svr_rrs svr) (Some m) RR_TXT j}"
      using srv d m by (auto simp: related_def Let_def)
    then show ?thesis
      using xs ys srv d m by (intro exI [of _ "xs @ ys"]) (auto simp: related_rr_def Let_def)
  next
    case addr
    then have "related svr i = {j \<in> advertised svr. answers (svr_rrs svr) (Some m) RR_NSEC j}"
      using m by (auto simp: related_def Let_def)
    then show ?thesis
      using populate_add_some [OF assms(1), of reply m RR_NSEC] addr m by (auto simp: related_rr_def Let_def)
  next
    case none
    then have "related svr i = {}" by (auto simp: related_def Let_def)
    then show ?thesis using none by (intro exI [of _ "[]"]) (simp add: related_rr_def Let_def)
  qed
qed

lemma related_advertised: "related svr i \<subseteq> advertised svr"
  by (auto simp: related_def)

text \<open>
  The walk ends: every turn moves on by one, and what the list grows by is taken from the records that
  are not in it yet.
\<close>

lemma add_related_rr_some:
  assumes "svr_ok svr" "which = rr_ans \<or> which = rr_add" "\<forall>i \<in> set (which reply). i < length (svr_rrs svr)"
  shows "\<exists>ys. add_related_rr svr which k reply = Some (Inr (add_to reply ys)) \<and> distinct ys \<and>
    set ys \<subseteq> advertised svr - set (rr_add reply) \<and>
    (\<forall>j \<in> set ys. \<exists>i \<in> set (drop k (which reply)). (i, j) \<in> (relation svr)\<^sup>+) \<and>
    (\<forall>i \<in> set (drop k (which (add_to reply ys))). related svr i \<subseteq> set (rr_add reply @ ys))"
  using assms(3)
proof (induction "card (advertised svr - set (rr_add reply)) + (length (which reply) - k)"
    arbitrary: k reply rule: less_induct)
  case less
  show ?case
  proof (cases "k < length (which reply)")
    case False
    then show ?thesis using assms(2) by (intro exI [of _ "[]"]) (subst add_related_rr.simps, auto)
  next
    case True
    let ?i = "which reply ! k"
    have d: "drop k (which reply) = ?i # drop (k + 1) (which reply)" using True by (simp add: Cons_nth_drop_Suc)
    obtain xs where xs: "related_rr svr reply ?i = Inr (add_to reply xs)" "distinct xs"
      "set xs = related svr ?i - set (rr_add reply)"
      using related_rr_some [OF assms(1)] less.prems True nth_mem by blast
    let ?r = "add_to reply xs"
    have sub: "set xs \<subseteq> advertised svr - set (rr_add reply)" using xs(3) related_advertised by blast
    have w: "which ?r = which reply @ (if which = rr_add then xs else [])" using assms(2) add_to_simps(3,4) by auto
    have "card (advertised svr - set (rr_add ?r)) = card (advertised svr - set (rr_add reply)) - length xs"
      using card_Diff_subset [OF _ sub] distinct_card [OF xs(2)] by (simp add: Diff_Un Diff_Int2 set_diff_eq)
    moreover have "length xs \<le> card (advertised svr - set (rr_add reply))"
      using card_mono [OF _ sub] distinct_card [OF xs(2)] by simp
    ultimately have m: "card (advertised svr - set (rr_add ?r)) + (length (which ?r) - (k + 1)) <
        card (advertised svr - set (rr_add reply)) + (length (which reply) - k)"
      using w True by auto
    have "\<forall>i \<in> set (which ?r). i < length (svr_rrs svr)"
      using w less.prems sub advertised_bound [OF assms(1)] by auto
    from less.hyps [OF m this] obtain ys where
      ys: "add_related_rr svr which (k + 1) ?r = Some (Inr (add_to ?r ys))" "distinct ys"
      "set ys \<subseteq> advertised svr - set (rr_add ?r)"
      "\<forall>j \<in> set ys. \<exists>i \<in> set (drop (k + 1) (which ?r)). (i, j) \<in> (relation svr)\<^sup>+"
      "\<forall>i \<in> set (drop (k + 1) (which (add_to ?r ys))). related svr i \<subseteq> set (rr_add ?r @ ys)" by blast
    have x: "(?i, j) \<in> (relation svr)\<^sup>+" if "j \<in> set xs" for j
      using that xs(3) by (auto simp: relation_def)
    have "\<exists>i \<in> set (drop k (which reply)). (i, j) \<in> (relation svr)\<^sup>+" if j: "j \<in> set (xs @ ys)" for j
    proof (cases "j \<in> set xs")
      case True
      then show ?thesis using x d by auto
    next
      case False
      then obtain i where i: "i \<in> set (drop (k + 1) (which ?r))" "(i, j) \<in> (relation svr)\<^sup>+" using j ys(4) by auto
      have "i \<in> set (drop (k + 1) (which reply)) \<or> i \<in> set xs"
        using i(1) w True by (auto split: if_splits)
      then show ?thesis using i(2) x d by (auto intro: trancl_trans)
    qed
    moreover have "related svr i \<subseteq> set (rr_add reply @ xs @ ys)"
      if "i \<in> set (drop k (which (add_to reply (xs @ ys))))" for i
    proof -
      have "which (add_to reply (xs @ ys)) = which reply @ (if which = rr_add then xs @ ys else [])"
        using assms(2) add_to_simps(3,4) by auto
      then have "drop k (which (add_to reply (xs @ ys))) = ?i # drop (k + 1) (which (add_to reply (xs @ ys)))"
        using True d by simp
      then show ?thesis using that ys(5) xs(3) by auto
    qed
    moreover have "add_related_rr svr which k reply = Some (Inr (add_to reply (xs @ ys)))"
      using True xs(1) ys(1) by (subst add_related_rr.simps) simp
    moreover have "distinct (xs @ ys)" "set (xs @ ys) \<subseteq> advertised svr - set (rr_add reply)"
      using xs(2) ys(2,3) sub by auto
    ultimately show ?thesis by blast
  qed
qed

text \<open>The additional records are those the answers lead to, in any number of steps, once each.\<close>

lemma add_related_some:
  assumes "svr_ok svr" "\<forall>i \<in> set (rr_ans reply). i < length (svr_rrs svr)" "rr_add reply = []"
  shows "\<exists>ys. add_related svr reply = Some (Inr (add_to reply ys)) \<and> distinct ys \<and>
    set ys = (relation svr)\<^sup>+ `` set (rr_ans reply)"
proof -
  obtain xs where xs: "add_related_rr svr rr_ans 0 reply = Some (Inr (add_to reply xs))" "distinct xs"
    "set xs \<subseteq> advertised svr" "\<forall>j \<in> set xs. \<exists>i \<in> set (rr_ans reply). (i, j) \<in> (relation svr)\<^sup>+"
    "\<forall>i \<in> set (rr_ans reply). related svr i \<subseteq> set xs"
    using add_related_rr_some [of svr rr_ans reply 0] assms by auto
  have "\<forall>i \<in> set (rr_add (add_to reply xs)). i < length (svr_rrs svr)"
    using xs(3) assms(3) advertised_bound [OF assms(1)] by auto
  with add_related_rr_some [of svr rr_add "add_to reply xs" 0] assms(1) obtain ys where
    ys: "add_related_rr svr rr_add 0 (add_to reply xs) = Some (Inr (add_to reply (xs @ ys)))" "distinct ys"
    "set ys \<subseteq> advertised svr - set xs" "\<forall>j \<in> set ys. \<exists>i \<in> set xs. (i, j) \<in> (relation svr)\<^sup>+"
    "\<forall>i \<in> set (xs @ ys). related svr i \<subseteq> set (xs @ ys)"
    using assms(3) by auto
  have "j \<in> set (xs @ ys)" if "(a, j) \<in> (relation svr)\<^sup>+" "a \<in> set (rr_ans reply)" for a j
    using that
  proof (induction rule: trancl_induct)
    case (base y)
    then show ?case using xs(5) by (auto simp: relation_def)
  next
    case (step y z)
    then show ?case using ys(5) by (auto simp: relation_def)
  qed
  moreover have "\<exists>a \<in> set (rr_ans reply). (a, j) \<in> (relation svr)\<^sup>+" if "j \<in> set (xs @ ys)" for j
  proof (cases "j \<in> set xs")
    case True
    then show ?thesis using xs(4) by blast
  next
    case False
    then obtain i where "i \<in> set xs" "(i, j) \<in> (relation svr)\<^sup>+" using \<open>j \<in> set (xs @ ys)\<close> ys(4) by auto
    then show ?thesis using xs(4) trancl_trans by metis
  qed
  ultimately have "set (xs @ ys) = (relation svr)\<^sup>+ `` set (rr_ans reply)" by blast
  moreover have "add_related svr reply = Some (Inr (add_to reply (xs @ ys)))" "distinct (xs @ ys)"
    using xs(1,2) ys(1-3) by (auto simp: add_related_def)
  ultimately show ?thesis by blast
qed

section \<open>Replies\<close>

definition add_ans :: "nat mdns_pkt \<Rightarrow> nat list \<Rightarrow> nat mdns_pkt" where
  "add_ans reply xs = reply\<lparr>rr_ans := rr_ans reply @ xs, num_ans_rr := num_ans_rr reply + of_nat (length xs)\<rparr>"

lemma add_ans_simps [simp]:
  "add_ans reply [] = reply" "add_ans (add_ans reply xs) ys = add_ans reply (xs @ ys)"
  "rr_ans (add_ans reply xs) = rr_ans reply @ xs" "rr_add (add_ans reply xs) = rr_add reply"
  by (simp_all add: add_ans_def)

lemma populate_ans_some:
  assumes "svr_ok svr"
  shows "\<exists>xs. populate_ans svr reply (Some n) type = Inr (add_ans reply xs) \<and> distinct xs \<and>
    set xs = {i \<in> advertised svr. answers (svr_rrs svr) (Some n) type i} - set (rr_ans reply)"
  using populate_answers_some [OF assms, of "rr_ans reply" n type] by (auto simp: populate_ans_def add_ans_def)

lemma nlabel_to_str_some: "nlabel_to_str n = Inr s \<Longrightarrow> \<exists>m. n = Some m"
  by (cases n) (simp_all add: nlabel_to_str_def)

lemma answer_questions_some:
  assumes "svr_ok svr" "\<forall>q \<in> set qns. returns (nlabel_to_str (rr_name q))"
  shows "\<exists>xs. answer_questions svr (length qns) qns reply = Inr (add_ans reply xs) \<and> distinct xs \<and>
    set xs = {i \<in> advertised svr. \<exists>q \<in> set qns. \<not> unicast_query q \<and>
      answers (svr_rrs svr) (rr_name q) (rr_type q) i} - set (rr_ans reply)"
  using assms(2)
proof (induction qns arbitrary: reply)
  case Nil
  then show ?case by (intro exI [of _ "[]"]) simp
next
  case (Cons q qns)
  obtain s where str: "nlabel_to_str (rr_name q) = Inr s" using Cons.prems by (auto simp: returns_iff)
  obtain n where n: "rr_name q = Some n" using nlabel_to_str_some [OF str] by blast
  show ?case
  proof (cases "unicast_query q")
    case True
    then show ?thesis using Cons.IH [of reply] Cons.prems str by simp
  next
    case False
    obtain xs where xs: "populate_ans svr reply (Some n) (rr_type q) = Inr (add_ans reply xs)" "distinct xs"
      "set xs = {i \<in> advertised svr. answers (svr_rrs svr) (Some n) (rr_type q) i} - set (rr_ans reply)"
      using populate_ans_some [OF assms(1)] by blast
    obtain ys where ys: "answer_questions svr (length qns) qns (add_ans reply xs) = Inr (add_ans (add_ans reply xs) ys)"
      "distinct ys" "set ys = {i \<in> advertised svr. \<exists>q \<in> set qns. \<not> unicast_query q \<and>
        answers (svr_rrs svr) (rr_name q) (rr_type q) i} - set (rr_ans (add_ans reply xs))"
      using Cons.IH [of "add_ans reply xs"] Cons.prems by auto
    show ?thesis
      using xs ys str n False by (intro exI [of _ "xs @ ys"]) auto
  qed
qed

text \<open>Records of the other side that can be compared with an answer.\<close>

definition known_ok :: "rr_entry \<Rightarrow> bool" where
  "known_ok r \<longleftrightarrow> rr_name r \<noteq> None \<and>
     (rr_type r = RR_PTR \<longrightarrow> (case rr_data r of PTR_data (Some n) e \<Rightarrow> True | _ \<Rightarrow> False))"

definition known_answer :: "rr_store \<Rightarrow> rr_entry list \<Rightarrow> nat \<Rightarrow> bool" where
  "known_answer rrs known i \<longleftrightarrow>
     (case rr_entry_match rrs known (rrs ! i) of
        Inr (Some k) \<Rightarrow> rr_ttl k \<ge> rr_ttl (rrs ! i) div 2
      | _ \<Rightarrow> False)"

lemma rr_entry_match_some:
  assumes "\<forall>r \<in> set known. known_ok r" "rr_wf rrs rr"
  shows "\<exists>m. rr_entry_match rrs known rr = Inr m"
  using assms(1)
proof (induction known)
  case (Cons r rs)
  obtain m where m: "rr_entry_match rrs rs rr = Inr m" using Cons by auto
  obtain a b where n: "rr_name r = Some a" "rr_name rr = Some b"
    using Cons.prems assms(2) well_named_some [of "rr_name rr"] by (auto simp: known_ok_def rr_wf_def name_fits_def)
  show ?case
  proof (cases "rr_type r = RR_PTR \<and> rr_type rr = RR_PTR")
    case True
    then obtain x e where x: "rr_data r = PTR_data (Some x) e"
      using Cons.prems by (auto simp: known_ok_def split: rr_data.splits option.splits)
    obtain y f z where y: "rr_data rr = PTR_data y f" "ptr_target rrs y f = Some z"
      using assms(2) True well_named_some by (fastforce simp: rr_wf_def data_ok_def split: rr_data.splits option.splits)
    have "ptr_name rrs r = Inr (Some x)" "ptr_name rrs rr = Inr (Some z)"
      using x y by (simp_all add: ptr_name_def ptr_target_def)
    then show ?thesis using m n True by simp
  next
    case False
    then show ?thesis using m n by auto
  qed
qed simp

lemma drop_known_filter:
  assumes "\<forall>r \<in> set known. known_ok r" "\<forall>i \<in> set as. rr_wf rrs (rrs ! i)"
  shows "drop_known rrs known as =
    Inr (filter (\<lambda>i. \<not> known_answer rrs known i) as, length (filter (known_answer rrs known) as))"
  using assms(2)
proof (induction as)
  case (Cons a as)
  obtain m where m: "rr_entry_match rrs known (rrs ! a) = Inr m"
    using rr_entry_match_some [OF assms(1), of rrs "rrs ! a"] Cons.prems by auto
  obtain s where s: "nlabel_to_str (rr_name (rrs ! a)) = Inr s"
    using Cons.prems name_fits_str [of "rr_name (rrs ! a)"] by (auto simp: rr_wf_def)
  have k: "known_answer rrs known a \<longleftrightarrow> (case m of None \<Rightarrow> False | Some k \<Rightarrow> rr_ttl k \<ge> rr_ttl (rrs ! a) div 2)"
    by (simp add: known_answer_def m split: option.splits)
  show ?case
    using Cons.IH Cons.prems m s by (cases "known_answer rrs known a") (simp_all add: k Let_def)
qed simp

definition reply_of :: "u16 \<Rightarrow> nat list \<Rightarrow> nat list \<Rightarrow> nat mdns_pkt" where
  "reply_of i ans adds =
     \<lparr>pk_id = i, pk_flags = 0x8400, num_qn = 0, num_ans_rr = of_nat (length ans), num_auth_rr = 0,
      num_add_rr = of_nat (length adds), rr_qn = [], rr_ans = ans, rr_auth = [], rr_add = adds\<rparr>"

lemma process_query:
  assumes "svr_ok svr" "pk_flags pkt AND 0x8000 = 0" "drop_bit 11 (pk_flags pkt) AND 0x0F = 0"
    and "unat (num_qn pkt) = length (rr_qn pkt)" "\<forall>q \<in> set (rr_qn pkt). returns (nlabel_to_str (rr_name q))"
    and "\<forall>r \<in> set (rr_ans pkt). known_ok r"
  shows "\<exists>ans adds. process_mdns_pkt svr pkt = Some (Inr (Some (reply_of (pk_id pkt) ans adds))) \<and>
    distinct ans \<and>
    set ans = {i \<in> advertised svr. (\<exists>q \<in> set (rr_qn pkt). \<not> unicast_query q \<and>
        answers (svr_rrs svr) (rr_name q) (rr_type q) i) \<and> \<not> known_answer (svr_rrs svr) (rr_ans pkt) i} \<and>
    distinct adds \<and> set adds = (relation svr)\<^sup>+ `` set ans"
proof -
  let ?init = "mdns_init_reply (pk_id pkt)" and ?known = "known_answer (svr_rrs svr) (rr_ans pkt)"
  obtain xs where xs: "answer_questions svr (length (rr_qn pkt)) (rr_qn pkt) ?init = Inr (add_ans ?init xs)"
    "distinct xs" "set xs = {i \<in> advertised svr. \<exists>q \<in> set (rr_qn pkt). \<not> unicast_query q \<and>
      answers (svr_rrs svr) (rr_name q) (rr_type q) i}"
    using answer_questions_some [OF assms(1,5), of ?init] by (auto simp: mdns_init_reply_def)
  have in_rrs: "\<forall>i \<in> set xs. i < length (svr_rrs svr)" using xs(3) advertised_bound [OF assms(1)] by auto
  let ?ans = "filter (\<lambda>i. \<not> ?known i) xs"
  let ?reply = "add_ans ?init ?ans"
  have dk: "drop_known (svr_rrs svr) (rr_ans pkt) xs = Inr (?ans, length (filter ?known xs))"
    by (rule drop_known_filter [OF assms(6)]) (use in_rrs svr_ok_rr [OF assms(1)] in blast)
  have len: "of_nat (length xs) - of_nat (length (filter ?known xs)) = (of_nat (length ?ans) :: u16)"
    using sum_length_filter_compl [of ?known xs] by (metis add_diff_cancel_left' of_nat_add)
  obtain ys where ys: "add_related svr ?reply = Some (Inr (add_to ?reply ys))" "distinct ys"
    "set ys = (relation svr)\<^sup>+ `` set ?ans"
    using add_related_some [OF assms(1), of ?reply] in_rrs by (auto simp: mdns_init_reply_def)
  have "(add_ans ?init xs)\<lparr>rr_ans := ?ans, num_ans_rr := num_ans_rr (add_ans ?init xs) -
      of_nat (length (filter ?known xs))\<rparr> = ?reply"
    using len by (simp add: add_ans_def mdns_init_reply_def)
  then have "process_mdns_pkt svr pkt = Some (Inr (Some (add_to ?reply ys)))"
    using assms(2-4) xs(1) dk ys(1) by (simp add: process_mdns_pkt_def mdns_init_reply_def)
  then show ?thesis
    using xs ys(2,3) by (intro exI [of _ ?ans] exI [of _ ys]) (auto simp: add_ans_def add_to_def mdns_init_reply_def reply_of_def)
qed

section \<open>Replies on the wire\<close>

text \<open>What all advertised records may take.\<close>

definition advertised_room :: "mdnsd \<Rightarrow> nat" where
  "advertised_room svr = (\<Sum>i \<in> advertised svr. rr_room (svr_rrs svr) (svr_rrs svr ! i))"

lemma advertised_room_list:
  assumes "distinct l" "set l \<subseteq> advertised svr"
  shows "rrs_room (svr_rrs svr) l \<le> advertised_room svr"
proof -
  have "rrs_room (svr_rrs svr) l = (\<Sum>i \<in> set l. rr_room (svr_rrs svr) (svr_rrs svr ! i))"
    using assms(1) by (simp add: rrs_room_def sum_list_distinct_conv_sum_set)
  also have "\<dots> \<le> advertised_room svr"
    unfolding advertised_room_def by (rule sum_mono2) (use assms(2) in auto)
  finally show ?thesis .
qed

lemma length_le_room: "length l \<le> rrs_room rrs l"
  by (induction l) (auto simp: rrs_room_def rr_room_def name_room_def split: option.splits)

lemma parse_qns_length: "parse_qns buf e off n = Some (Inr (rrs, k)) \<Longrightarrow> length rrs = n"
  by (induction n arbitrary: off rrs k) (auto split: option.splits sum.splits)

lemma parsed_questions: "mdns_parse_pkt buf n = Some (Inr (Some pkt)) \<Longrightarrow> unat (num_qn pkt) = length (rr_qn pkt)"
  by (auto simp: mdns_parse_pkt_def dest!: parse_qns_length split: option.splits sum.splits if_splits)

text \<open>A reply that is sent is read on the other side.\<close>

lemma reply_sent:
  assumes "svr_ok svr" "distinct ans" "distinct adds" "set ans \<union> set adds \<subseteq> advertised svr"
    and "12 + 2 * advertised_room svr \<le> 0x4000" "length buf = 65536"
  shows "\<exists>buf' d. send_reply svr (reply_of i ans adds) buf = Inr (buf', [d]) \<and> length buf' = 65536 \<and>
    (\<forall>t. mdns_parse_pkt (d @ t) (length d) = Some (Inr (Some (seen_pkt (svr_rrs svr) (reply_of i ans adds)))))"
proof -
  let ?r = "reply_of i ans adds" and ?rrs = "svr_rrs svr"
  have all: "all_rrs ?r = ans @ adds" by (simp add: all_rrs_def reply_of_def)
  have room: "rrs_room ?rrs ans \<le> advertised_room svr" "rrs_room ?rrs adds \<le> advertised_room svr"
    using advertised_room_list assms(2-4) by auto
  then have fit: "12 + rrs_room ?rrs (all_rrs ?r) \<le> 0x4000"
    using assms(5) unfolding all by (simp add: rrs_room_def)
  have ok: "\<forall>j \<in> set (all_rrs ?r). rr_ok ?rrs (?rrs ! j)"
    using svr_ok_rr [OF assms(1) advertised_bound [OF assms(1)]] assms(4) unfolding all
    by (auto simp: rr_ok_def rr_wf_def name_fits_def)
  have "length ans < 0x10000" using length_le_room [of ans ?rrs] room(1) assms(5) by simp
  then have "unat (num_ans_rr ?r) = length (rr_ans ?r)" by (simp add: reply_of_def unat_of_nat_small)
  from packet_written [OF _ this ok fit, of 65536 buf] obtain buf' n where
    "mdns_encode_pkt ?rrs ?r buf 65536 = Inr (Some (buf', n))" "n < 65536" "length buf' = 65536"
    "\<forall>t. mdns_parse_pkt (take n buf' @ t) n = Some (Inr (Some (seen_pkt ?rrs ?r)))"
    using fit assms(6) by (auto simp: reply_of_def)
  then show ?thesis
    by (intro exI [of _ buf'] exI [of _ "take n buf'"]) (simp add: send_reply_def)
qed


end
