(* ===== verification/Dns_Services.thy ===== *)
theory Dns_Services
  imports Dns_Answers
begin

unbundle bit_operations_syntax

text \<open>
  Registering with the responder of tinysvcmdns.c: every operation of the program keeps the invariant, a
  service brings its four records, and a query for its type is answered with all one needs to reach it.
\<close>

section \<open>The store grows\<close>

lemma ptr_target_append:
  "(case name of None \<Rightarrow> e < length rrs | Some _ \<Rightarrow> True) \<Longrightarrow> ptr_target (rrs @ t) name e = ptr_target rrs name e"
  by (auto simp: ptr_target_def nth_append split: option.splits)

lemma rr_wf_append: "rr_wf rrs rr \<Longrightarrow> rr_wf (rrs @ t) rr"
  using ptr_target_append [where rrs = rrs and t = t]
  by (cases "rr_data rr") (auto simp: rr_wf_def data_ok_def split: option.splits)

lemma group_wf_append: "group_wf rrs g \<Longrightarrow> group_wf (rrs @ t) g"
  by (auto simp: group_wf_def nth_append)

lemma advertised_rrs [simp]: "advertised (svr\<lparr>svr_rrs := rrs\<rparr>) = advertised svr"
  by (simp add: advertised_def)

lemma svr_ok_new:
  assumes "svr_ok svr" "rr_wf (svr_rrs svr @ [rr]) rr"
  shows "svr_ok (svr\<lparr>svr_rrs := svr_rrs svr @ [rr]\<rparr>)"
  using assms by (auto simp: svr_ok_def less_SucI intro: rr_wf_append group_wf_append)

section \<open>A record joins its group\<close>

lemma dup_nlabel_well_named: "well_named (Some n) \<Longrightarrow> dup_nlabel n = Inr n"
proof -
  assume "well_named (Some n)"
  then obtain segs where s: "n = name_of segs" "\<forall>s \<in> set segs. label_ok s" by (auto simp: well_named_def)
  show ?thesis
  proof (cases segs)
    case (Cons l ls)
    have "label_ok l" using s(2) Cons by simp
    then have "(of_nat (length l) :: u8) \<le> 63"
      using label_length(1) [of l] by (simp add: word_le_nat_alt label_ok_def)
    then show ?thesis using s(1) Cons by (simp add: dup_nlabel_def)
  qed (simp add: s dup_nlabel_def)
qed

lemma group_add_some:
  assumes "svr_ok svr" "i < length (svr_rrs svr)"
  shows "\<exists>gs. group_add svr i = Inr (svr\<lparr>svr_group := gs\<rparr>) \<and> svr_ok (svr\<lparr>svr_group := gs\<rparr>) \<and>
    advertised (svr\<lparr>svr_group := gs\<rparr>) = insert i (advertised svr)"
proof -
  let ?gs = "svr_group svr" and ?rrs = "svr_rrs svr"
  have w: "well_named (rr_name (?rrs ! i))" using svr_ok_rr [OF assms] by (simp add: rr_wf_def name_fits_def)
  then obtain n where n: "rr_name (?rrs ! i) = Some n" using well_named_some by blast
  obtain r where r: "rr_group_find ?gs (Some n) = Inr r"
    "case r of None \<Rightarrow> n \<notin> gr_name ` set ?gs | Some k \<Rightarrow> k < length ?gs \<and> gr_name (?gs ! k) = n"
    using rr_group_find_some by blast
  have g: "distinct (map gr_name ?gs)" "\<And>g. g \<in> set ?gs \<Longrightarrow> group_wf ?rrs g"
    using assms(1) by (simp_all add: svr_ok_def)
  have ok: "svr_ok (svr\<lparr>svr_group := gs\<rparr>)"
    if "distinct (map gr_name gs)" "\<forall>g \<in> set gs. group_wf ?rrs g" for gs
    using assms(1) that by (simp add: svr_ok_def)
  show ?thesis
  proof (cases r)
    case None
    let ?new = "\<lparr>gr_name = n, gr_rr = [i]\<rparr> # ?gs"
    have "group_add svr i = Inr (svr\<lparr>svr_group := ?new\<rparr>)"
      using r(1) None n dup_nlabel_well_named w by (simp add: group_add_def rr_group_add_def)
    moreover have "svr_ok (svr\<lparr>svr_group := ?new\<rparr>)"
      using r(2) None g n assms(2) by (intro ok) (auto simp: group_wf_def)
    ultimately show ?thesis by (intro exI [of _ ?new]) (simp add: advertised_def)
  next
    case (Some k)
    then have k: "k < length ?gs" "gr_name (?gs ! k) = n" using r(2) by simp_all
    let ?g = "(?gs ! k)\<lparr>gr_rr := fst (rr_list_append (gr_rr (?gs ! k)) i)\<rparr>"
    have "group_add svr i = Inr (svr\<lparr>svr_group := ?gs[k := ?g]\<rparr>)"
      using r(1) Some n by (simp add: group_add_def rr_group_add_def)
    moreover have "map gr_name (?gs[k := ?g]) = map gr_name ?gs" using k(1) by (simp add: map_update list_update_same_conv)
    moreover have "group_wf ?rrs ?g"
      using g(2) [OF nth_mem [OF k(1)]] k(2) n assms(2) by (auto simp: group_wf_def rr_list_append_def)
    then have "\<forall>g \<in> set (?gs[k := ?g]). group_wf ?rrs g" using g(2) set_update_subset_insert by fastforce
    moreover have "advertised (svr\<lparr>svr_group := ?gs[k := ?g]\<rparr>) = insert i (advertised svr)"
    proof -
      have "?gs = take k ?gs @ ?gs ! k # drop (Suc k) ?gs" using k(1) by (rule id_take_nth_drop)
      then have "advertised svr = (\<Union>g \<in> set (take k ?gs). set (gr_rr g)) \<union> set (gr_rr (?gs ! k)) \<union>
          (\<Union>g \<in> set (drop (Suc k) ?gs). set (gr_rr g))"
        unfolding advertised_def by (metis (no_types, lifting) UN_Un UN_insert list.simps(15) set_append sup_assoc)
      moreover have "set (gr_rr ?g) = insert i (set (gr_rr (?gs ! k)))" by (auto simp: rr_list_append_def)
      ultimately show ?thesis using k(1) by (auto simp: advertised_def upd_conv_take_nth_drop)
    qed
    ultimately show ?thesis using ok g(1) by (intro exI [of _ "?gs[k := ?g]"]) simp
  qed
qed

text \<open>A new record that joins its group.\<close>

lemma mdnsd_add_rr_some:
  assumes "svr_ok svr" "rr_wf (svr_rrs svr @ [rr]) rr"
  shows "\<exists>svr'. mdnsd_add_rr svr rr = Inr svr' \<and> svr_ok svr' \<and> svr_rrs svr' = svr_rrs svr @ [rr] \<and>
    advertised svr' = insert (length (svr_rrs svr)) (advertised svr) \<and> svr_hostname svr' = svr_hostname svr"
proof -
  let ?s = "svr\<lparr>svr_rrs := svr_rrs svr @ [rr]\<rparr>"
  obtain gs where "group_add ?s (length (svr_rrs svr)) = Inr (?s\<lparr>svr_group := gs\<rparr>)" "svr_ok (?s\<lparr>svr_group := gs\<rparr>)"
    "advertised (?s\<lparr>svr_group := gs\<rparr>) = insert (length (svr_rrs svr)) (advertised ?s)"
    using group_add_some [OF svr_ok_new [OF assms], of "length (svr_rrs svr)"] by auto
  then show ?thesis by (simp add: mdnsd_add_rr_def new_rr_def)
qed

section \<open>Records that are well formed\<close>

lemma rr_wf_srv:
  "name_fits (Some n) \<Longrightarrow> name_fits (Some target) \<Longrightarrow> rr_wf rrs (rr_create_srv n port target)"
  by (simp add: rr_wf_def data_ok_def rr_create_srv_def fill_rr_entry_def name_fits_def)

lemma rr_wf_ptr:
  "name_fits (Some n) \<Longrightarrow> e < length rrs \<Longrightarrow> well_named (rr_name (rrs ! e)) \<Longrightarrow> rr_wf rrs (rr_create_ptr n e)"
  by (simp add: rr_wf_def data_ok_def rr_create_ptr_def fill_rr_entry_def ptr_target_def)

lemma rr_wf_a: "name_fits (Some n) \<Longrightarrow> rr_wf rrs (rr_create_a n a)"
  by (simp add: rr_wf_def data_ok_def rr_create_a_def fill_rr_entry_def)

lemma rr_wf_aaaa: "name_fits (Some n) \<Longrightarrow> length a = 16 \<Longrightarrow> rr_wf rrs (rr_create_aaaa n a)"
  by (simp add: rr_wf_def data_ok_def rr_create_aaaa_def fill_rr_entry_def)

definition string_ok :: "string \<Rightarrow> bool" where
  "string_ok t \<longleftrightarrow> length t \<le> 62 \<and> NUL \<notin> set t"

lemma create_label_ok: "string_ok t \<Longrightarrow> txt_ok (create_label t)"
  by (auto simp: string_ok_def create_label_def txt_ok_def)

lemma add_txts_filled:
  "rr_type rr = RR_TXT \<Longrightarrow> rr_data rr = TXT_data (Some x # xs) \<Longrightarrow>
    add_txts rr ts = Inr (rr\<lparr>rr_data := TXT_data (Some x # xs @ map create_label ts)\<rparr>)"
proof (induction ts arbitrary: rr xs)
  case (Cons t ts)
  let ?rr = "rr\<lparr>rr_data := TXT_data (Some x # xs @ [create_label t])\<rparr>"
  have "rr_add_txt rr t = Inr ?rr" using Cons.prems by (simp add: rr_add_txt_def)
  then show ?case using Cons.IH [of ?rr "xs @ [create_label t]"] Cons.prems by simp
qed simp

definition txt_record :: "nlabel \<Rightarrow> string list \<Rightarrow> rr_entry" where
  "txt_record n txt = fill_rr_entry (Some n) RR_TXT (TXT_data (map create_label txt))"

lemma add_txts_record:
  assumes "txt \<noteq> []" "\<forall>t \<in> set txt. string_ok t"
  shows "add_txts (rr_create n RR_TXT) txt = Inr (txt_record n txt)"
proof -
  obtain t ts where t: "txt = t # ts" using assms(1) by (cases "txt") auto
  then obtain x where x: "create_label t = Some x" using assms(2) by (auto simp: string_ok_def create_label_def)
  have "rr_add_txt (rr_create n RR_TXT) t = Inr (fill_rr_entry (Some n) RR_TXT (TXT_data [Some x]))"
    using x by (simp add: rr_add_txt_def rr_create_def fill_rr_entry_def)
  then show ?thesis
    using t x add_txts_filled [of "fill_rr_entry (Some n) RR_TXT (TXT_data [Some x])" x "[]" ts]
    by (simp add: txt_record_def fill_rr_entry_def)
qed

lemma rr_wf_txt:
  "name_fits (Some n) \<Longrightarrow> txt \<noteq> [] \<Longrightarrow> \<forall>t \<in> set txt. string_ok t \<Longrightarrow> rr_wf rrs (txt_record n txt)"
  by (auto simp: rr_wf_def data_ok_def txt_record_def fill_rr_entry_def intro: create_label_ok)

lemma services_nlabel_fits: "name_fits (Some services_nlabel)"
proof -
  have "\<forall>s \<in> set (map (map char_byte) [''_services'', ''_dns-sd'', ''_udp'', ''local'']). label_ok s"
    by (simp add: label_ok_def)
  then have "well_named (Some services_nlabel)" unfolding services_nlabel_def by (rule well_named_of)
  moreover have "length services_nlabel < 256" by (simp add: services_nlabel_def)
  ultimately show ?thesis by (simp add: name_fits_def)
qed

section \<open>A host\<close>

definition nsec_record :: "nlabel \<Rightarrow> u16 \<Rightarrow> rr_entry" where
  "nsec_record n type = fill_rr_entry (Some n) RR_NSEC
     (NSEC_data ([0, 0, 0, 0, 0][unat type div 8 := push_bit (7 - unat type mod 8) 1]))"

lemma set_host_some:
  assumes "svr_ok svr" "svr_hostname svr = None" "name_fits (Some (create_nlabel junk hostname))"
    and "rr_wf (svr_rrs svr @ [a_rr]) a_rr" "rr_type a_rr = RR_A \<or> rr_type a_rr = RR_AAAA"
  shows "\<exists>svr'. set_host junk svr hostname a_rr = Inr svr' \<and> svr_ok svr' \<and>
    svr_rrs svr' = svr_rrs svr @ [a_rr, nsec_record (create_nlabel junk hostname) (rr_type a_rr)] \<and>
    advertised svr' = {length (svr_rrs svr), length (svr_rrs svr) + 1} \<union> advertised svr \<and>
    svr_hostname svr' = Some (create_nlabel junk hostname)"
proof -
  let ?n = "length (svr_rrs svr)" and ?h = "create_nlabel junk hostname"
  let ?nsec = "nsec_record ?h (rr_type a_rr)"
  have ns: "rr_set_nsec (rr_create ?h RR_NSEC) (rr_type a_rr) = Inr ?nsec"
    using assms(5) by (auto simp: rr_set_nsec_def rr_create_def fill_rr_entry_def nsec_record_def)
  have wf: "rr_wf rrs ?nsec" for rrs
    using assms(3,5) by (auto simp: rr_wf_def data_ok_def nsec_record_def fill_rr_entry_def)
  let ?s1 = "svr\<lparr>svr_rrs := svr_rrs svr @ [a_rr]\<rparr>"
  let ?s2 = "?s1\<lparr>svr_rrs := svr_rrs ?s1 @ [?nsec]\<rparr>"
  let ?s3 = "?s2\<lparr>svr_hostname := Some ?h\<rparr>"
  have "svr_ok ?s2" by (rule svr_ok_new [OF svr_ok_new [OF assms(1,4)] wf])
  then have s3: "svr_ok ?s3" using assms(3) by (simp add: svr_ok_def)
  obtain g1 where g1: "group_add ?s3 ?n = Inr (?s3\<lparr>svr_group := g1\<rparr>)" "svr_ok (?s3\<lparr>svr_group := g1\<rparr>)"
    "advertised (?s3\<lparr>svr_group := g1\<rparr>) = insert ?n (advertised ?s3)"
    using group_add_some [OF s3, of ?n] by auto
  obtain g2 where g2: "group_add (?s3\<lparr>svr_group := g1\<rparr>) (Suc ?n) = Inr (?s3\<lparr>svr_group := g2\<rparr>)"
    "svr_ok (?s3\<lparr>svr_group := g2\<rparr>)"
    "advertised (?s3\<lparr>svr_group := g2\<rparr>) = insert (Suc ?n) (advertised (?s3\<lparr>svr_group := g1\<rparr>))"
    using group_add_some [OF g1(2), of "Suc ?n"] by auto
  have "set_host junk svr hostname a_rr = Inr (?s3\<lparr>svr_group := g2\<rparr>)"
    using assms(2) ns g1(1) g2(1) by (simp add: set_host_def new_rr_def Let_def)
  moreover have "advertised ?s3 = advertised svr" by (simp add: advertised_def)
  ultimately show ?thesis using g1(3) g2(2,3) by auto
qed

section \<open>A service\<close>

fun group_all :: "mdnsd \<Rightarrow> nat list \<Rightarrow> fault + mdnsd" where
  "group_all svr [] = Inr svr"
| "group_all svr (i # is) = bind_fault (group_add svr i) (\<lambda>svr. group_all svr is)"

lemma group_all_some:
  assumes "svr_ok svr" "\<forall>i \<in> set is. i < length (svr_rrs svr)"
  shows "\<exists>gs. group_all svr is = Inr (svr\<lparr>svr_group := gs\<rparr>) \<and> svr_ok (svr\<lparr>svr_group := gs\<rparr>) \<and>
    advertised (svr\<lparr>svr_group := gs\<rparr>) = set is \<union> advertised svr"
  using assms
proof (induction "is" arbitrary: svr)
  case Nil
  then show ?case by (intro exI [of _ "svr_group svr"]) simp
next
  case (Cons i "is")
  obtain gs where g: "group_add svr i = Inr (svr\<lparr>svr_group := gs\<rparr>)" "svr_ok (svr\<lparr>svr_group := gs\<rparr>)"
    "advertised (svr\<lparr>svr_group := gs\<rparr>) = insert i (advertised svr)"
    using group_add_some [OF Cons.prems(1), of i] Cons.prems(2) by auto
  obtain hs where "group_all (svr\<lparr>svr_group := gs\<rparr>) is = Inr (svr\<lparr>svr_group := hs\<rparr>)" "svr_ok (svr\<lparr>svr_group := hs\<rparr>)"
    "advertised (svr\<lparr>svr_group := hs\<rparr>) = set is \<union> advertised (svr\<lparr>svr_group := gs\<rparr>)"
    using Cons.IH [OF g(2)] Cons.prems(2) by auto
  then show ?case using g(1,3) by (intro exI [of _ hs]) auto
qed

definition txt_records :: "nlabel \<Rightarrow> string list \<Rightarrow> rr_entry list" where
  "txt_records n txts = (if txts = [] then [] else [txt_record n txts])"

definition service_records :: "nat \<Rightarrow> nlabel \<Rightarrow> nlabel \<Rightarrow> u16 \<Rightarrow> nlabel \<Rightarrow> string list \<Rightarrow> rr_entry list" where
  "service_records i n type port target txts =
     txt_records n txts @ [rr_create_srv n port target, rr_create_ptr type (i + length (txt_records n txts)),
       rr_create_ptr services_nlabel (i + length (txt_records n txts) + 1)]"

lemma length_service_records [simp]: "length (service_records i n type port target txts) = length (txt_records n txts) + 3"
  by (simp add: service_records_def)

lemma service_records_wf:
  assumes "name_fits (Some n)" "name_fits (Some type)" "name_fits (Some target)" "\<forall>t \<in> set txts. string_ok t"
    and "i = length rrs" "rr \<in> set (service_records i n type port target txts)"
  shows "rr_wf (rrs @ service_records i n type port target txts) rr"
proof -
  let ?all = "rrs @ service_records i n type port target txts" and ?k = "length (txt_records n txts)"
  have "?all ! (i + ?k) = rr_create_srv n port target"
    "?all ! (i + ?k + 1) = rr_create_ptr type (i + ?k)"
    using assms(5) by (simp_all add: service_records_def nth_append)
  then have at: "rr_name (?all ! (i + ?k)) = Some n" "rr_name (?all ! (i + ?k + 1)) = Some type"
    by (simp_all add: rr_create_srv_def rr_create_ptr_def fill_rr_entry_def)
  have w: "well_named (rr_name (?all ! (i + ?k)))" "well_named (rr_name (?all ! (i + ?k + 1)))"
    unfolding at using assms(1,2) by (simp_all add: name_fits_def)
  have len: "i + ?k < length ?all" "i + ?k + 1 < length ?all" using assms(5) by simp_all
  consider "txts \<noteq> []" "rr = txt_record n txts" | "rr = rr_create_srv n port target"
    | "rr = rr_create_ptr type (i + ?k)" | "rr = rr_create_ptr services_nlabel (i + ?k + 1)"
    using assms(6) by (auto simp: service_records_def txt_records_def split: if_splits)
  then show ?thesis
  proof cases
    case 1
    then show ?thesis using rr_wf_txt [OF assms(1) _ assms(4)] by simp
  next
    case 2
    then show ?thesis using rr_wf_srv [OF assms(1,3)] by simp
  next
    case 3
    show ?thesis unfolding 3 by (rule rr_wf_ptr [OF assms(2) len(1) w(1)])
  next
    case 4
    show ?thesis unfolding 4 by (rule rr_wf_ptr [OF services_nlabel_fits len(2) w(2)])
  qed
qed

lemma svr_ok_append:
  assumes "svr_ok svr" "\<forall>rr \<in> set new. rr_wf (svr_rrs svr @ new) rr"
  shows "svr_ok (svr\<lparr>svr_rrs := svr_rrs svr @ new\<rparr>)"
  using assms by (auto simp: svr_ok_def trans_less_add1 intro: rr_wf_append group_wf_append)

lemma add_service_some:
  assumes "svr_ok svr" "name_fits (Some n)" "name_fits (Some type)" "name_fits (Some target)"
    and "\<forall>t \<in> set txts. string_ok t" "i = length (svr_rrs svr)" "k = i + length (txt_records n txts)"
  shows "\<exists>gs svr'. add_service svr n type port target txts = Inr (svr', [i..<k + 1], k + 1) \<and>
    svr' = svr\<lparr>svr_rrs := svr_rrs svr @ service_records i n type port target txts, svr_group := gs\<rparr> \<and>
    svr_ok svr' \<and> advertised svr' = {i..<k + 3} \<union> advertised svr"
proof -
  let ?new = "service_records i n type port target txts"
  let ?s = "svr\<lparr>svr_rrs := svr_rrs svr @ ?new\<rparr>"
  have "svr_ok ?s" using service_records_wf [OF assms(2-6)] by (intro svr_ok_append [OF assms(1)]) blast
  moreover have "\<forall>j \<in> set [i..<k + 3]. j < length (svr_rrs ?s)" using assms(6,7) by simp
  ultimately obtain gs where g: "group_all ?s [i..<k + 3] = Inr (?s\<lparr>svr_group := gs\<rparr>)"
    "svr_ok (?s\<lparr>svr_group := gs\<rparr>)" "advertised (?s\<lparr>svr_group := gs\<rparr>) = set [i..<k + 3] \<union> advertised ?s"
    using group_all_some by blast
  have "add_service svr n type port target txts =
      bind_fault (group_all ?s [i..<k + 3]) (\<lambda>svr. Inr (svr, [i..<k + 1], k + 1))"
  proof (cases "txts = []")
    case True
    then have "[i..<k + 3] = [i, i + 1, i + 2]" "k = i"
      using assms(7) by (simp_all add: txt_records_def upt_conv_Cons numeral_3_eq_3)
    then show ?thesis
      using True assms(6) by (simp add: add_service_def new_rr_def bind_fault_assoc service_records_def txt_records_def)
  next
    case False
    then have "[i..<k + 3] = [i, i + 1, i + 2, i + 3]" "k = i + 1"
      using assms(7) by (simp_all add: txt_records_def upt_conv_Cons numeral_3_eq_3)
    then show ?thesis
      using False assms(6) add_txts_record [OF False assms(5)]
      by (simp add: add_service_def new_rr_def bind_fault_assoc service_records_def txt_records_def numeral_3_eq_3)
  qed
  then have "add_service svr n type port target txts = Inr (?s\<lparr>svr_group := gs\<rparr>, [i..<k + 1], k + 1)" using g(1) by simp
  then show ?thesis using g(2,3) by (intro exI [of _ gs] exI [of _ "?s\<lparr>svr_group := gs\<rparr>"]) (simp del: upt_Suc)
qed

text \<open>The instance is a label in front of the type.\<close>

definition instance_nlabel :: "string \<Rightarrow> nlabel \<Rightarrow> nlabel" where
  "instance_nlabel instance_name type = of_nat (length instance_name) # map char_byte instance_name @ type"

lemma instance_nlabel_joined:
  assumes "label_ok (map char_byte instance_name)" "well_named (Some type)"
  shows "(case create_label instance_name of
       None \<Rightarrow> Inl Null_pointer
     | Some inst_nlabel \<Rightarrow> join_nlabel (cbytes inst_nlabel) type) = Inr (instance_nlabel instance_name type)"
    "well_named (Some (instance_nlabel instance_name type))"
proof -
  let ?s = "map char_byte instance_name"
  let ?l = "of_nat (length ?s) # ?s :: bytes"
  have c: "create_label instance_name = Some ?l"
    using assms(1) by (simp add: create_label_def label_ok_def)
  have z: "cbytes ?l = ?l"
    using assms(1) label_length(2) [OF assms(1)] by (intro cbytes_no_nul(2)) (auto simp: label_ok_def)
  have "well_named (Some (name_of [?s]))" by (rule well_named_of) (use assms(1) in simp)
  then have d: "dup_nlabel ?l = Inr ?l" using dup_nlabel_well_named by simp
  show "(case create_label instance_name of
       None \<Rightarrow> Inl Null_pointer
     | Some inst_nlabel \<Rightarrow> join_nlabel (cbytes inst_nlabel) type) = Inr (instance_nlabel instance_name type)"
    unfolding c option.case z join_nlabel_def d dup_nlabel_well_named [OF assms(2)]
    by (simp add: instance_nlabel_def)
  obtain segs where s: "type = name_of segs" "\<forall>s \<in> set segs. label_ok s"
    using assms(2) by (auto simp: well_named_def)
  have "well_named (Some (name_of (?s # segs)))" by (rule well_named_of) (use assms(1) s(2) in simp)
  then show "well_named (Some (instance_nlabel instance_name type))" by (simp add: instance_nlabel_def s(1))
qed

definition target_nlabel :: "u8 \<Rightarrow> mdnsd \<Rightarrow> string option \<Rightarrow> nlabel option" where
  "target_nlabel junk svr hostname =
     (case hostname of Some h \<Rightarrow> Some (create_nlabel junk h) | None \<Rightarrow> svr_hostname svr)"

text \<open>
  Registering succeeds, keeps the invariant, and adds exactly the records of the service, each of them
  advertised under its name; the pointer is put on the list of what to announce and of what to say
  goodbye for.
\<close>

lemma register_svc_some:
  assumes "svr_ok svr" "label_ok (map char_byte instance_name)" "name_fits (Some (create_nlabel junk type))"
    and "length instance_name + 1 + length (create_nlabel junk type) < 256"
    and "target_nlabel junk svr hostname = Some target" "name_fits (Some target)"
    and "\<forall>t \<in> set txts. string_ok t" "i = length (svr_rrs svr)"
    and "k = i + length (txt_records (instance_nlabel instance_name (create_nlabel junk type)) txts)"
  shows "\<exists>svr'. mdnsd_register_svc junk svr instance_name type port hostname txts = Inr (svr', [i..<k + 1]) \<and>
    svr_ok svr' \<and>
    svr_rrs svr' = svr_rrs svr @ service_records i (instance_nlabel instance_name (create_nlabel junk type))
      (create_nlabel junk type) port target txts \<and>
    advertised svr' = {i..<k + 3} \<union> advertised svr \<and>
    svr_announce svr' = svr_announce svr @ [k + 1] \<and> svr_services svr' = svr_services svr @ [k + 1] \<and>
    svr_hostname svr' = svr_hostname svr"
proof -
  let ?type = "create_nlabel junk type"
  let ?n = "instance_nlabel instance_name ?type"
  have wt: "well_named (Some ?type)" using assms(3) by (simp add: name_fits_def)
  note joined = instance_nlabel_joined [OF assms(2) wt]
  have n: "name_fits (Some ?n)" using joined(2) assms(4) by (simp add: name_fits_def instance_nlabel_def)
  obtain gs svr' where s: "add_service svr ?n ?type port target txts = Inr (svr', [i..<k + 1], k + 1)"
    "svr' = svr\<lparr>svr_rrs := svr_rrs svr @ service_records i ?n ?type port target txts, svr_group := gs\<rparr>"
    "svr_ok svr'" "advertised svr' = {i..<k + 3} \<union> advertised svr"
    using add_service_some [OF assms(1) n assms(3,6,7,8,9)] by blast
  have t: "(case hostname of Some h \<Rightarrow> Inr (create_nlabel junk h)
      | None \<Rightarrow> (case svr_hostname svr of None \<Rightarrow> Inl Assert_failed | Some h \<Rightarrow> dup_nlabel h)) = Inr target"
    using assms(5,6) dup_nlabel_well_named by (auto simp: target_nlabel_def name_fits_def split: option.splits)
  have "j < k + 1" if "j \<in> set (svr_announce svr) \<union> set (svr_services svr)" for j
  proof -
    have "j < i" using that assms(1,8) by (simp add: svr_ok_def)
    then show ?thesis using assms(9) by simp
  qed
  then have fresh: "k + 1 \<notin> set (svr_announce svr)" "k + 1 \<notin> set (svr_services svr)" by blast+
  let ?svr = "svr'\<lparr>svr_announce := svr_announce svr @ [k + 1], svr_services := svr_services svr @ [k + 1]\<rparr>"
  have "mdnsd_register_svc junk svr instance_name type port hostname txts = Inr (?svr, [i..<k + 1])"
    using s(1,2) fresh by (simp add: mdnsd_register_svc_def Let_def joined(1) t rr_list_append_def)
  moreover have "svr_ok ?svr"
    using s(2,3) assms(1,8,9) fresh by (auto simp: svr_ok_def)
  moreover have "advertised ?svr = {i..<k + 3} \<union> advertised svr" using s(4) by (simp add: advertised_def)
  ultimately show ?thesis using s(2) by simp
qed

section \<open>A service is found\<close>

text \<open>The question for the services of a type.\<close>

definition ptr_query :: "u16 \<Rightarrow> nlabel \<Rightarrow> rr_entry mdns_pkt" where
  "ptr_query i n = \<lparr>pk_id = i, pk_flags = 0, num_qn = 1, num_ans_rr = 0, num_auth_rr = 0, num_add_rr = 0,
     rr_qn = [(fill_rr_entry (Some n) RR_PTR No_data)\<lparr>rr_ttl := 0, cache_flush := False\<rparr>],
     rr_ans = [], rr_auth = [], rr_add = []\<rparr>"

text \<open>
  C26: once a service is registered, a query for its type is answered with the pointer to it, and the
  additional records hold what is needed to reach it: where it is, its strings, and every address
  the server advertises under the name of its host.
\<close>

theorem service_is_found:
  assumes "svr_ok svr" "label_ok (map char_byte instance_name)" "name_fits (Some (create_nlabel junk type))"
    and "length instance_name + 1 + length (create_nlabel junk type) < 256"
    and "target_nlabel junk svr hostname = Some target" "name_fits (Some target)"
    and "\<forall>t \<in> set txts. string_ok t" "n = instance_nlabel instance_name (create_nlabel junk type)"
  shows "\<exists>svr' entries reply. mdnsd_register_svc junk svr instance_name type port hostname txts = Inr (svr', entries) \<and>
    process_mdns_pkt svr' (ptr_query qid (create_nlabel junk type)) = Some (Inr (Some reply)) \<and>
    (\<exists>p \<in> set (rr_ans reply). rr_name (svr_rrs svr' ! p) = Some (create_nlabel junk type) \<and>
      ptr_name (svr_rrs svr') (svr_rrs svr' ! p) = Inr (Some n)) \<and>
    rr_create_srv n port target \<in> (!) (svr_rrs svr') ` set (rr_add reply) \<and>
    set (txt_records n txts) \<subseteq> (!) (svr_rrs svr') ` set (rr_add reply) \<and>
    {j \<in> advertised svr. rr_name (svr_rrs svr ! j) = Some target \<and> rr_type (svr_rrs svr ! j) \<in> {RR_A, RR_AAAA}}
      \<subseteq> set (rr_add reply)"
proof -
  let ?type = "create_nlabel junk type" and ?i = "length (svr_rrs svr)"
  let ?k = "?i + length (txt_records n txts)"
  obtain svr' where s: "mdnsd_register_svc junk svr instance_name type port hostname txts = Inr (svr', [?i..<?k + 1])"
    "svr_ok svr'" "svr_rrs svr' = svr_rrs svr @ service_records ?i n ?type port target txts"
    "advertised svr' = {?i..<?k + 3} \<union> advertised svr"
    using register_svc_some [OF assms(1-7) refl refl, of port] assms(8) by auto
  let ?pkt = "ptr_query qid ?type"
  have q: "\<forall>q \<in> set (rr_qn ?pkt). returns (nlabel_to_str (rr_name q))"
    using name_fits_str [OF assms(3)] by (simp add: ptr_query_def fill_rr_entry_def returns_iff)
  have "pk_flags ?pkt AND 0x8000 = 0" "drop_bit 11 (pk_flags ?pkt) AND 0x0F = 0" "unat (num_qn ?pkt) = length (rr_qn ?pkt)"
    "\<forall>r \<in> set (rr_ans ?pkt). known_ok r" by (simp_all add: ptr_query_def)
  from process_query [OF s(2) this(1-3) q this(4)] obtain ans adds reply where
    r: "process_mdns_pkt svr' ?pkt = Some (Inr (Some reply))" "rr_ans reply = ans" "rr_add reply = adds"
    "set ans = {j \<in> advertised svr'. answers (svr_rrs svr') (Some ?type) RR_PTR j}"
    "set adds = (relation svr')\<^sup>+ `` set ans"
    by (auto simp: ptr_query_def fill_rr_entry_def known_answer_def reply_of_def)
  have at: "svr_rrs svr' ! ?k = rr_create_srv n port target" "svr_rrs svr' ! (?k + 1) = rr_create_ptr ?type ?k"
    "txts \<noteq> [] \<Longrightarrow> svr_rrs svr' ! ?i = txt_record n txts"
    by (simp_all add: s(3) service_records_def txt_records_def nth_append)
  have name: "ptr_name (svr_rrs svr') (svr_rrs svr' ! (?k + 1)) = Inr (Some n)"
    unfolding at(2) by (simp add: ptr_name_def rr_create_ptr_def fill_rr_entry_def ptr_target_def at(1) rr_create_srv_def)
  have p: "?k + 1 \<in> set ans"
    using at(2) by (simp add: r(4) s(4) answers_def rr_create_ptr_def fill_rr_entry_def)
  have step: "(?k + 1, j) \<in> relation svr'" if "j \<in> {?i..<?k + 3}" "answers (svr_rrs svr') (Some n) RR_ANY j" for j
    using that name at(2) s(4)
    by (simp add: relation_def related_def Let_def rr_create_ptr_def fill_rr_entry_def)
  have srv: "(?k + 1, ?k) \<in> relation svr'"
    by (rule step) (simp_all add: at(1) answers_def rr_create_srv_def fill_rr_entry_def)
  have "?k \<in> set adds" using p srv r(5) by blast
  then have "rr_create_srv n port target \<in> (!) (svr_rrs svr') ` set adds" using at(1) by (metis image_eqI)
  moreover have "txt_record n txts \<in> (!) (svr_rrs svr') ` set adds" if "txts \<noteq> []"
  proof -
    have "(?k + 1, ?i) \<in> relation svr'"
      by (rule step) (use that in \<open>simp_all add: at(3) answers_def txt_record_def fill_rr_entry_def\<close>)
    then have "?i \<in> set adds" using p r(5) by blast
    then show ?thesis using at(3) [OF that] by (metis image_eqI)
  qed
  then have "set (txt_records n txts) \<subseteq> (!) (svr_rrs svr') ` set adds" by (simp add: txt_records_def)
  moreover have "j \<in> set adds" if "j \<in> advertised svr" "rr_name (svr_rrs svr ! j) = Some target"
    "rr_type (svr_rrs svr ! j) \<in> {RR_A, RR_AAAA}" for j
  proof -
    have "svr_rrs svr' ! j = svr_rrs svr ! j"
      using advertised_bound [OF assms(1) that(1)] by (simp add: s(3) nth_append)
    then have "(?k, j) \<in> relation svr'"
      using that at(1) s(4)
      by (auto simp: relation_def related_def Let_def answers_def rr_create_srv_def fill_rr_entry_def)
    then have "(?k + 1, j) \<in> (relation svr')\<^sup>+" using srv by (auto intro: trancl_trans)
    then show ?thesis using p r(5) by blast
  qed
  moreover have "rr_name (svr_rrs svr' ! (?k + 1)) = Some ?type"
    unfolding at(2) by (simp add: rr_create_ptr_def fill_rr_entry_def)
  ultimately show ?thesis
    using s(1) r(1) p name unfolding r(2,3) [symmetric]
    by (intro exI conjI bexI [of _ "?k + 1"] subsetI) auto
qed

section \<open>Every state of the server\<close>

text \<open>What the program does to the server, in any order; host names, types and strings that fit.\<close>

inductive server_state :: "mdnsd \<Rightarrow> bool" where
  start: "server_state mdnsd_start"
| set_hostname: "server_state svr \<Longrightarrow> name_fits (Some (create_nlabel junk h)) \<Longrightarrow>
    mdnsd_set_hostname junk svr h ip = Inr svr' \<Longrightarrow> server_state svr'"
| set_hostname_v6: "server_state svr \<Longrightarrow> name_fits (Some (create_nlabel junk h)) \<Longrightarrow> length addr = 16 \<Longrightarrow>
    mdnsd_set_hostname_v6 junk svr h addr = Inr svr' \<Longrightarrow> server_state svr'"
| add_rr: "server_state svr \<Longrightarrow> rr_wf (svr_rrs svr @ [rr]) rr \<Longrightarrow> mdnsd_add_rr svr rr = Inr svr' \<Longrightarrow> server_state svr'"
| register_svc: "server_state svr \<Longrightarrow> label_ok (map char_byte name) \<Longrightarrow> name_fits (Some (create_nlabel junk type)) \<Longrightarrow>
    length name + 1 + length (create_nlabel junk type) < 256 \<Longrightarrow>
    (\<forall>h. hostname = Some h \<longrightarrow> name_fits (Some (create_nlabel junk h))) \<Longrightarrow> \<forall>t \<in> set txts. string_ok t \<Longrightarrow>
    mdnsd_register_svc junk svr name type port hostname txts = Inr (svr', entries) \<Longrightarrow> server_state svr'"
| turn: "server_state svr \<Longrightarrow> loop_turn svr buf w = Some (Inr (svr', buf', sent)) \<Longrightarrow> server_state svr'"

lemma set_host_ok:
  assumes "set_host junk svr h a = Inr svr'" "svr_ok svr" "name_fits (Some (create_nlabel junk h))"
    and "rr_wf (svr_rrs svr @ [a]) a" "rr_type a = RR_A \<or> rr_type a = RR_AAAA"
  shows "svr_ok svr'"
proof -
  have "svr_hostname svr = None" using assms(1) by (simp add: set_host_def split: if_splits)
  then show ?thesis using set_host_some [OF assms(2) _ assms(3-5)] assms(1) by auto
qed

lemma register_svc_target:
  "mdnsd_register_svc junk svr name type port hostname txts = Inr r \<Longrightarrow> \<exists>t. target_nlabel junk svr hostname = Some t"
  by (cases "create_label name"; cases hostname; cases "svr_hostname svr";
      cases "join_nlabel (cbytes (the (create_label name))) (create_nlabel junk type)")
    (auto simp: mdnsd_register_svc_def target_nlabel_def Let_def)

lemma server_state_ok: "server_state svr \<Longrightarrow> svr_ok svr"
proof (induction rule: server_state.induct)
  case start
  then show ?case by (simp add: mdnsd_start_def svr_ok_def)
next
  case (set_hostname svr junk h ip svr')
  show ?case
    by (rule set_host_ok [OF set_hostname.hyps(3) [unfolded mdnsd_set_hostname_def] set_hostname.IH set_hostname.hyps(2)
          rr_wf_a [OF set_hostname.hyps(2)]]) (simp add: rr_create_a_def fill_rr_entry_def)
next
  case (set_hostname_v6 svr junk h addr svr')
  show ?case
    by (rule set_host_ok [OF set_hostname_v6.hyps(4) [unfolded mdnsd_set_hostname_v6_def] set_hostname_v6.IH
          set_hostname_v6.hyps(2) rr_wf_aaaa [OF set_hostname_v6.hyps(2,3)]])
      (simp add: rr_create_aaaa_def fill_rr_entry_def)
next
  case (add_rr svr rr svr')
  then show ?case using mdnsd_add_rr_some [of svr rr] by auto
next
  case (register_svc svr name junk type hostname txts port svr' entries)
  obtain t where t: "target_nlabel junk svr hostname = Some t" using register_svc_target register_svc.hyps by blast
  have "name_fits (Some t)"
    using t register_svc.hyps(5) register_svc.IH by (auto simp: target_nlabel_def svr_ok_def split: option.splits)
  from register_svc_some [OF register_svc.IH register_svc.hyps(2-4) t this register_svc.hyps(6) refl refl, of port]
  show ?case using register_svc.hyps(7) by fastforce
next
  case (turn svr buf w svr' buf' sent)
  then have "svr' = svr\<lparr>svr_announce := []\<rparr>"
    by (auto simp: loop_turn_def split: option.splits sum.splits)
  then show ?case using turn.IH by (auto simp: svr_ok_def)
qed

section \<open>Goodbye\<close>

text \<open>The store after the goodbye: the records of the services live no longer.\<close>

fun quiet :: "rr_store \<Rightarrow> nat list \<Rightarrow> rr_store" where
  "quiet rrs [] = rrs"
| "quiet rrs (e # es) = quiet (rrs[e := (rrs ! e)\<lparr>rr_ttl := 0\<rparr>]) es"

lemma length_quiet [simp]: "length (quiet rrs es) = length rrs"
  by (induction rrs es rule: quiet.induct) auto

lemma quiet_nth:
  "j < length rrs \<Longrightarrow> quiet rrs es ! j = (if j \<in> set es then (rrs ! j)\<lparr>rr_ttl := 0\<rparr> else rrs ! j)"
proof (induction rrs es rule: quiet.induct)
  case (2 rrs e es)
  then show ?case by (cases "e = j") auto
qed simp

lemma goodbye_reply_quiet:
  "distinct es \<Longrightarrow> set es \<inter> set (rr_ans reply) = {} \<Longrightarrow> goodbye_reply rrs es reply = (quiet rrs es, add_ans reply es)"
proof (induction es arbitrary: rrs reply)
  case (Cons e es)
  then show ?case
    using Cons.IH [of "add_ans reply [e]"] by (simp add: rr_list_append_def add_ans_def Let_def)
qed simp

lemma quiet_record:
  assumes "rr_wf rrs (rrs ! i)" "i < length rrs" "i \<in> set es"
  shows "rr_ok (quiet rrs es) (quiet rrs es ! i)" "rr_room (quiet rrs es) (quiet rrs es ! i) = rr_room rrs (rrs ! i)"
    "seen (quiet rrs es) (quiet rrs es ! i) = (seen rrs (rrs ! i))\<lparr>rr_ttl := 0\<rparr>"
proof -
  have q: "quiet rrs es ! i = (rrs ! i)\<lparr>rr_ttl := 0\<rparr>" using quiet_nth [OF assms(2)] assms(3) by simp
  have t: "ptr_target (quiet rrs es) name e = ptr_target rrs name e" if "rr_data (rrs ! i) = PTR_data name e" for name e
    using that assms(1) quiet_nth [of e rrs es] by (auto simp: ptr_target_def rr_wf_def split: option.splits)
  let ?rr = "(rrs ! i)\<lparr>rr_ttl := 0\<rparr>"
  have d: "data_ok (quiet rrs es) ?rr = data_ok rrs (rrs ! i)" "data_room (quiet rrs es) ?rr = data_room rrs (rrs ! i)"
    "seen_data (quiet rrs es) ?rr = seen_data rrs (rrs ! i)"
    using t by (auto simp: data_ok_def data_room_def seen_data_def split: rr_data.split option.split)
  show "rr_ok (quiet rrs es) (quiet rrs es ! i)"
    unfolding q rr_ok_def d(1) using assms(1) by (simp add: rr_wf_def name_fits_def)
  show "rr_room (quiet rrs es) (quiet rrs es ! i) = rr_room rrs (rrs ! i)"
    unfolding q rr_room_def d(2) by simp
  show "seen (quiet rrs es) (quiet rrs es ! i) = (seen rrs (rrs ! i))\<lparr>rr_ttl := 0\<rparr>"
    unfolding q seen_def d(3) by (simp add: seen_class_def)
qed

text \<open>
  When the server stops it says goodbye for every registered service: one datagram goes out, from
  which the parser reads the pointer of each of them, in the order they were registered, as it was
  advertised but with no time to live.
\<close>

theorem services_say_goodbye:
  assumes "server_state svr" "svr_services svr \<noteq> []" "12 + rrs_room (svr_rrs svr) (svr_services svr) \<le> 0x4000"
    and "length buf = 65536"
  shows "\<exists>svr' d pkt. goodbye svr buf = Inr (svr', [d]) \<and> mdns_parse_pkt d (length d) = Some (Inr (Some pkt)) \<and>
    rr_ans pkt = map (\<lambda>i. (seen (svr_rrs svr) (svr_rrs svr ! i))\<lparr>rr_ttl := 0\<rparr>) (svr_services svr)"
proof -
  let ?es = "svr_services svr" and ?q = "quiet (svr_rrs svr) (svr_services svr)"
  let ?r = "reply_of 0 ?es []"
  have ok: "svr_ok svr" by (rule server_state_ok [OF assms(1)])
  then have b: "distinct ?es" "\<forall>i \<in> set ?es. i < length (svr_rrs svr)" by (simp_all add: svr_ok_def)
  have rec: "rr_ok ?q (?q ! i)" "rr_room ?q (?q ! i) = rr_room (svr_rrs svr) (svr_rrs svr ! i)"
    "seen ?q (?q ! i) = (seen (svr_rrs svr) (svr_rrs svr ! i))\<lparr>rr_ttl := 0\<rparr>" if "i \<in> set ?es" for i
    using quiet_record [OF svr_ok_rr [OF ok] _ that] b(2) that by blast+
  have all: "all_rrs ?r = ?es" by (simp add: all_rrs_def reply_of_def)
  have room: "rrs_room ?q ?es = rrs_room (svr_rrs svr) ?es"
    unfolding rrs_room_def using rec(2) by (metis (no_types, lifting) map_eq_conv)
  have len: "length ?es < 0x10000" using length_le_room [of ?es "svr_rrs svr"] assms(3) by simp
  then have u: "unat (of_nat (length ?es) :: u16) = length ?es" by (simp add: unat_of_nat_small)
  then have num: "unat (num_ans_rr ?r) = length (rr_ans ?r)" by (simp add: reply_of_def)
  have "\<forall>i \<in> set (all_rrs ?r). rr_ok ?q (?q ! i)" "12 + rrs_room ?q (all_rrs ?r) \<le> 0x4000"
    using rec(1) assms(3) unfolding all room by simp_all
  from packet_written [OF _ num this, of 65536 buf] obtain buf' n where
    w: "mdns_encode_pkt ?q ?r buf 65536 = Inr (Some (buf', n))" "n < 65536" "length buf' = 65536"
    "mdns_parse_pkt (take n buf') n = Some (Inr (Some (seen_pkt ?q ?r)))"
    using assms(3,4) unfolding all room by (auto simp: reply_of_def elim!: allE [of _ "[]"])
  have "goodbye_reply (svr_rrs svr) ?es (mdns_init_reply 0) = (?q, ?r)"
    using goodbye_reply_quiet [OF b(1), of "mdns_init_reply 0"] by (simp add: mdns_init_reply_def add_ans_def reply_of_def)
  moreover have "0 < num_ans_rr ?r" using u assms(2) by (auto simp: reply_of_def word_less_nat_alt)
  ultimately have "goodbye svr buf = Inr (svr\<lparr>svr_rrs := ?q\<rparr>, [take n buf'])"
    using w(1) by (simp add: goodbye_def send_reply_def)
  moreover have "rr_ans (seen_pkt ?q ?r) = map (\<lambda>i. (seen (svr_rrs svr) (svr_rrs svr ! i))\<lparr>rr_ttl := 0\<rparr>) ?es"
    using rec(3) by (simp add: seen_pkt_def reply_of_def)
  ultimately show ?thesis using w(2-4) by (intro exI [of _ "svr\<lparr>svr_rrs := ?q\<rparr>"]) auto
qed


section \<open>A server\<close>

text \<open>The server of the program, with a host and an address.\<close>

lemma fits_dotted:
  "\<forall>l \<in> set ls. text_ok l \<Longrightarrow> ls \<noteq> [] \<Longrightarrow> length (dotted ls) < 255 \<Longrightarrow> name_fits (Some (create_nlabel junk (dotted ls)))"
proof -
  assume ls: "\<forall>l \<in> set ls. text_ok l" "ls \<noteq> []" "length (dotted ls) < 255"
  have "length (name_of (map (map char_byte) ls)) = length (concat (map (\<lambda>l. l @ ''.'') ls))"
    by (induction ls) auto
  also have "\<dots> = length (dotted ls) + 1" by (rule length_dotted [OF ls(2)])
  finally have l: "length (name_of (map (map char_byte) ls)) < 256" using ls(3) by simp
  have "well_named (Some (name_of (map (map char_byte) ls)))"
    by (rule well_named_of) (use ls(1) text_label_ok in auto)
  then show ?thesis unfolding create_nlabel_dotted [OF ls(1,2)] name_fits_def using l by simp
qed

lemma example_names:
  "name_fits (Some (create_nlabel 0 ''pi.local''))" "name_fits (Some (create_nlabel 0 ''_raop._tcp.local''))"
proof -
  have d: "dotted [''pi'', ''local''] = ''pi.local''" "dotted [''_raop'', ''_tcp'', ''local''] = ''_raop._tcp.local''"
    by simp_all
  have "\<forall>l \<in> set [''pi'', ''local'']. text_ok l" "\<forall>l \<in> set [''_raop'', ''_tcp'', ''local'']. text_ok l" by code_simp+
  then show "name_fits (Some (create_nlabel 0 ''pi.local''))" "name_fits (Some (create_nlabel 0 ''_raop._tcp.local''))"
    using fits_dotted [of "[''pi'', ''local'']" 0] fits_dotted [of "[''_raop'', ''_tcp'', ''local'']" 0]
    unfolding d by simp_all
qed

lemma mdnsd_start_ok: "svr_ok mdnsd_start"
  using server_state_ok [OF server_state.start] .

lemma example_host:
  "\<exists>svr. mdnsd_set_hostname 0 mdnsd_start ''pi.local'' 1 = Inr svr \<and> svr_ok svr \<and> server_state svr \<and>
    svr_rrs svr = [rr_create_a (create_nlabel 0 ''pi.local'') 1, nsec_record (create_nlabel 0 ''pi.local'') RR_A] \<and>
    advertised svr = {0, 1} \<and> svr_hostname svr = Some (create_nlabel 0 ''pi.local'') \<and> svr_services svr = []"
proof -
  let ?a = "rr_create_a (create_nlabel 0 ''pi.local'') 1"
  have t: "rr_type ?a = RR_A" "svr_hostname mdnsd_start = None"
    by (simp_all add: rr_create_a_def fill_rr_entry_def mdnsd_start_def)
  obtain svr where s: "set_host 0 mdnsd_start ''pi.local'' ?a = Inr svr" "svr_ok svr"
    "svr_rrs svr = svr_rrs mdnsd_start @ [?a, nsec_record (create_nlabel 0 ''pi.local'') (rr_type ?a)]"
    "advertised svr = {length (svr_rrs mdnsd_start), length (svr_rrs mdnsd_start) + 1} \<union> advertised mdnsd_start"
    "svr_hostname svr = Some (create_nlabel 0 ''pi.local'')"
    using set_host_some [OF mdnsd_start_ok t(2) example_names(1) rr_wf_a [OF example_names(1)]] t(1) by blast
  have reg: "mdnsd_set_hostname 0 mdnsd_start ''pi.local'' 1 = Inr svr" using s(1) by (simp add: mdnsd_set_hostname_def)
  have "server_state svr" by (rule server_state.set_hostname [OF server_state.start example_names(1) reg])
  moreover have "svr_services svr = []"
    using s(1) by (auto simp: set_host_def new_rr_def group_add_def mdnsd_start_def Let_def split: if_splits
        elim!: bind_fault_Inr)
  moreover have "advertised svr = {0, 1}" using s(4) by (auto simp: mdnsd_start_def advertised_def)
  ultimately show ?thesis using reg s t(1) by (intro exI [of _ svr]) (simp add: mdnsd_start_def)
qed


theorem service_is_found_witness:
  "\<exists>svr svr' entries reply. mdnsd_set_hostname 0 mdnsd_start ''pi.local'' 1 = Inr svr \<and>
    mdnsd_register_svc 0 svr ''0A0B@Den'' ''_raop._tcp.local'' 5002 None [''tp=UDP''] = Inr (svr', entries) \<and>
    process_mdns_pkt svr' (ptr_query 0 (create_nlabel 0 ''_raop._tcp.local'')) = Some (Inr (Some reply)) \<and>
    0 \<in> set (rr_add reply)"
proof -
  obtain svr where s: "mdnsd_set_hostname 0 mdnsd_start ''pi.local'' 1 = Inr svr" "svr_ok svr"
    "svr_rrs svr = [rr_create_a (create_nlabel 0 ''pi.local'') 1, nsec_record (create_nlabel 0 ''pi.local'') RR_A]"
    "advertised svr = {0, 1}" "svr_hostname svr = Some (create_nlabel 0 ''pi.local'')"
    using example_host by blast
  have h: "label_ok (map char_byte ''0A0B@Den'')" "\<forall>t \<in> set [''tp=UDP'']. string_ok t" by code_simp+
  have l: "length ''0A0B@Den'' + 1 + length (create_nlabel 0 ''_raop._tcp.local'') < 256"
    by code_simp
  have t: "target_nlabel 0 svr None = Some (create_nlabel 0 ''pi.local'')" using s(5) by (simp add: target_nlabel_def)
  have "0 \<in> {j \<in> advertised svr. rr_name (svr_rrs svr ! j) = Some (create_nlabel 0 ''pi.local'') \<and>
      rr_type (svr_rrs svr ! j) \<in> {RR_A, RR_AAAA}}"
    by (simp add: s(3,4) rr_create_a_def fill_rr_entry_def)
  then show ?thesis
    using service_is_found [OF s(2) h(1) example_names(2) l t example_names(1) h(2) refl, of 5002 0] s(1) by blast
qed

theorem services_say_goodbye_witness:
  "\<exists>svr svr' entries end d pkt. mdnsd_set_hostname 0 mdnsd_start ''pi.local'' 1 = Inr svr \<and>
    mdnsd_register_svc 0 svr ''0A0B@Den'' ''_raop._tcp.local'' 5002 None [''tp=UDP''] = Inr (svr', entries) \<and>
    goodbye svr' (replicate 65536 0) = Inr (end, [d]) \<and>
    mdns_parse_pkt d (length d) = Some (Inr (Some pkt)) \<and> map rr_ttl (rr_ans pkt) = [0]"
proof -
  obtain svr where s: "mdnsd_set_hostname 0 mdnsd_start ''pi.local'' 1 = Inr svr" "svr_ok svr" "server_state svr"
    "svr_rrs svr = [rr_create_a (create_nlabel 0 ''pi.local'') 1, nsec_record (create_nlabel 0 ''pi.local'') RR_A]"
    "svr_hostname svr = Some (create_nlabel 0 ''pi.local'')" "svr_services svr = []"
    using example_host by blast
  let ?n = "instance_nlabel ''0A0B@Den'' (create_nlabel 0 ''_raop._tcp.local'')"
  have h: "label_ok (map char_byte ''0A0B@Den'')" "\<forall>t \<in> set [''tp=UDP'']. string_ok t" by code_simp+
  have l: "length ''0A0B@Den'' + 1 + length (create_nlabel 0 ''_raop._tcp.local'') < 256"
    "length (create_nlabel 0 ''_raop._tcp.local'') = 17" "length ?n = 26" by code_simp+
  have t: "target_nlabel 0 svr None = Some (create_nlabel 0 ''pi.local'')" using s(5) by (simp add: target_nlabel_def)
  have k: "4 = length (svr_rrs svr) + length (txt_records ?n [''tp=UDP'']) + 1" "length (svr_rrs svr) = 2"
    by (simp_all add: s(4) txt_records_def)
  obtain svr' where r: "mdnsd_register_svc 0 svr ''0A0B@Den'' ''_raop._tcp.local'' 5002 None [''tp=UDP''] = Inr (svr', [2..<4])"
    "svr_services svr' = [4]" "svr_rrs svr' = svr_rrs svr @ service_records 2 ?n (create_nlabel 0 ''_raop._tcp.local'')
      5002 (create_nlabel 0 ''pi.local'') [''tp=UDP'']"
    using register_svc_some [OF s(2) h(1) example_names(2) l(1) t example_names(1) h(2) refl refl, of 5002] s(6)
    by (auto simp: k(2) txt_records_def)
  have st: "server_state svr'"
    by (rule server_state.register_svc [OF s(3) h(1) example_names(2) l(1) _ h(2) r(1)]) simp
  have at: "svr_rrs svr' ! 4 = rr_create_ptr (create_nlabel 0 ''_raop._tcp.local'') 3"
    "svr_rrs svr' ! 3 = rr_create_srv ?n 5002 (create_nlabel 0 ''pi.local'')"
    by (simp_all add: r(3) s(4) service_records_def txt_records_def nth_append)
  have room: "rrs_room (svr_rrs svr') (svr_services svr') = 55"
    by (simp add: r(2) rrs_room_def at(1) rr_room_def name_room_def data_room_def rr_create_ptr_def fill_rr_entry_def
        ptr_target_def l(2))
      (simp add: at(2) rr_create_srv_def fill_rr_entry_def l(3))
  have "svr_services svr' \<noteq> []" "12 + rrs_room (svr_rrs svr') (svr_services svr') \<le> 0x4000"
    using r(2) room by simp_all
  from services_say_goodbye [OF st this, of "replicate 65536 0"] obtain e d pkt where
    g: "goodbye svr' (replicate 65536 0) = Inr (e, [d])" "mdns_parse_pkt d (length d) = Some (Inr (Some pkt))"
    "rr_ans pkt = map (\<lambda>i. (seen (svr_rrs svr') (svr_rrs svr' ! i))\<lparr>rr_ttl := 0\<rparr>) (svr_services svr')"
    by (metis length_replicate)
  have "map rr_ttl (rr_ans pkt) = [0]" by (simp add: g(3) r(2))
  with s(1) r(1) g(1,2) show ?thesis by (intro exI conjI)
qed

definition query_bytes :: bytes where
  "query_bytes = [0, 7, 0, 0, 0, 1, 0, 0, 0, 0, 0, 0, 2, 0x70, 0x69, 5, 0x6c, 0x6f, 0x63, 0x61, 0x6c, 0, 0, 1, 0, 1]"

lemma query_bytes_parsed:
  "mdns_parse_pkt (query_bytes @ t) 26 = Some (Inr (Some
    \<lparr>pk_id = 7, pk_flags = 0, num_qn = 1, num_ans_rr = 0, num_auth_rr = 0, num_add_rr = 0,
     rr_qn = [\<lparr>rr_name = Some (create_nlabel 0 ''pi.local''), rr_type = RR_A, rr_ttl = 0, unicast_query = False,
       cache_flush = False, rr_class = 1, rr_data = No_data\<rparr>], rr_ans = [], rr_auth = [], rr_add = []\<rparr>))"
proof -
  let ?buf = "query_bytes @ t" and ?segs = "[[0x70, 0x69], [0x6c, 0x6f, 0x63, 0x61, 0x6c]] :: bytes list"
  have n: "create_nlabel 0 ''pi.local'' = name_of ?segs" by code_simp
  have "name_at ?buf 26 12 ?segs"
    by (simp add: query_bytes_def name_step_def byte_at_def)
  then have u: "uncompress_nlabel ?buf 26 12 = Some (Inr (Some (name_of ?segs)))"
    by (rule uncompress_name_at) (simp_all add: label_ok_def)
  have l: "label_len ?buf 26 12 = Inr 10"
    by (simp add: label_len_def label_len_loop.simps query_bytes_def byte_at_def)
  have h: "get_u16 ?buf 0 = Inr 7" "get_u16 ?buf 2 = Inr 0" "get_u16 ?buf 4 = Inr 1" "get_u16 ?buf 6 = Inr 0"
    "get_u16 ?buf 8 = Inr 0" "get_u16 ?buf 10 = Inr 0" "get_u16 ?buf 22 = Inr 1" "get_u16 ?buf 24 = Inr 1"
    by (simp_all add: get_u16_def query_bytes_def be16_def)
  then show ?thesis unfolding n by (simp add: mdns_parse_pkt_def mdns_parse_qn_def u l del: name_of_simps)
qed


section \<open>The backend\<close>

definition if_ok :: "ifaddrs \<Rightarrow> bool" where
  "if_ok i \<longleftrightarrow> ifa_loopback i \<or>
     (case ifa_addr i of None \<Rightarrow> False | Some (Inet6 a) \<Rightarrow> length a = 16 | _ \<Rightarrow> True)"

definition if_record :: "nlabel \<Rightarrow> if_addr \<Rightarrow> rr_entry list" where
  "if_record h a = (case a of Inet ip \<Rightarrow> [rr_create_a h ip] | Inet6 ip \<Rightarrow> [rr_create_aaaa h ip] | Other_family \<Rightarrow> [])"

definition if_records :: "nlabel \<Rightarrow> ifaddrs list \<Rightarrow> rr_entry list" where
  "if_records h is = concat (map (\<lambda>i. case ifa_addr i of None \<Rightarrow> [] | Some a \<Rightarrow> if_record h a)
     (filter (\<lambda>i. \<not> ifa_loopback i) is))"

definition advertised_rrs :: "mdnsd \<Rightarrow> rr_entry set" where
  "advertised_rrs svr = (\<lambda>i. svr_rrs svr ! i) ` advertised svr"

lemma add_rr_grows:
  assumes "server_state svr" "rr_wf (svr_rrs svr @ [rr]) rr"
  obtains svr' where "mdnsd_add_rr svr rr = Inr svr'" "server_state svr'" "svr_hostname svr' = svr_hostname svr"
    "advertised_rrs svr' = insert rr (advertised_rrs svr)"
proof -
  have ok: "svr_ok svr" by (rule server_state_ok [OF assms(1)])
  obtain svr' where s: "mdnsd_add_rr svr rr = Inr svr'" "svr_rrs svr' = svr_rrs svr @ [rr]"
    "advertised svr' = insert (length (svr_rrs svr)) (advertised svr)" "svr_hostname svr' = svr_hostname svr"
    using mdnsd_add_rr_some [OF ok assms(2)] by auto
  have "server_state svr'" by (rule server_state.add_rr [OF assms s(1)])
  moreover have "(\<lambda>i. svr_rrs svr' ! i) ` advertised svr = advertised_rrs svr"
    unfolding advertised_rrs_def using advertised_bound [OF ok] by (intro image_cong) (auto simp: s(2) nth_append)
  then have "advertised_rrs svr' = insert rr (advertised_rrs svr)"
    unfolding advertised_rrs_def [of svr'] by (simp add: s(3)) (simp add: s(2))
  ultimately show ?thesis using that s(1,4) by blast
qed

lemma add_interfaces_some:
  assumes "name_fits (Some (create_nlabel junk h))" "\<forall>i \<in> set is. if_ok i" "server_state svr"
  shows "\<exists>svr'. add_interfaces junk h is svr = Inr svr' \<and> server_state svr' \<and> svr_hostname svr' = svr_hostname svr \<and>
    advertised_rrs svr' = set (if_records (create_nlabel junk h) is) \<union> advertised_rrs svr"
  using assms(2,3)
proof (induction "is" arbitrary: svr)
  case Nil
  then show ?case by (simp add: if_records_def)
next
  case (Cons i "is")
  note wf = rr_wf_a [OF assms(1)] rr_wf_aaaa [OF assms(1)]
  have IH: "\<exists>svr'. add_interfaces junk h is s = Inr svr' \<and> server_state svr' \<and> svr_hostname svr' = svr_hostname s \<and>
      advertised_rrs svr' = set (if_records (create_nlabel junk h) is) \<union> advertised_rrs s" if "server_state s" for s
    by (rule Cons.IH) (use Cons.prems that in auto)
  show ?case
  proof (cases "ifa_loopback i")
    case True
    then show ?thesis using IH [OF Cons.prems(2)] by (simp add: if_records_def)
  next
    case False
    have "if_ok i" using Cons.prems(1) by simp
    then consider (a) ip where "ifa_addr i = Some (Inet ip)" | (aaaa) ip where "ifa_addr i = Some (Inet6 ip)" "length ip = 16"
      | (other) "ifa_addr i = Some Other_family"
      using False by (auto simp: if_ok_def split: option.splits if_addr.splits)
    then show ?thesis
    proof cases
      case a
      obtain s where s: "mdnsd_add_rr svr (rr_create_a (create_nlabel junk h) ip) = Inr s" "server_state s"
        "svr_hostname s = svr_hostname svr"
        "advertised_rrs s = insert (rr_create_a (create_nlabel junk h) ip) (advertised_rrs svr)"
        by (rule add_rr_grows [OF Cons.prems(2) wf(1)])
      then show ?thesis using IH [OF s(2)] a False by (auto simp: if_records_def if_record_def)
    next
      case aaaa
      obtain s where s: "mdnsd_add_rr svr (rr_create_aaaa (create_nlabel junk h) ip) = Inr s" "server_state s"
        "svr_hostname s = svr_hostname svr"
        "advertised_rrs s = insert (rr_create_aaaa (create_nlabel junk h) ip) (advertised_rrs svr)"
        by (rule add_rr_grows [OF Cons.prems(2) wf(2) [OF aaaa(2)]])
      then show ?thesis using IH [OF s(2)] aaaa False by (auto simp: if_records_def if_record_def)
    next
      case other
      then show ?thesis using IH [OF Cons.prems(2)] False by (simp add: if_records_def if_record_def)
    qed
  qed
qed

lemma main_interface_ok:
  "main_interface is = Some (a, rest) \<Longrightarrow> \<forall>i \<in> set is. if_ok i \<Longrightarrow>
    (\<forall>i \<in> set rest. if_ok i) \<and> (case a of Inet ip \<Rightarrow> True | Inet6 ip \<Rightarrow> length ip = 16 | Other_family \<Rightarrow> False)"
  by (induction "is" rule: main_interface.induct) (auto simp: if_ok_def split: if_splits option.splits if_addr.splits)

lemma set_host_state:
  assumes "name_fits (Some (create_nlabel junk h))" "case a of Inet ip \<Rightarrow> True | Inet6 ip \<Rightarrow> length ip = 16 | Other_family \<Rightarrow> False"
  shows "\<exists>svr. (case a of Inet a \<Rightarrow> mdnsd_set_hostname junk mdnsd_start h a
       | Inet6 a \<Rightarrow> mdnsd_set_hostname_v6 junk mdnsd_start h a | Other_family \<Rightarrow> Inr mdnsd_start) = Inr svr \<and>
    server_state svr \<and> svr_hostname svr = Some (create_nlabel junk h) \<and>
    set (if_record (create_nlabel junk h) a) \<subseteq> advertised_rrs svr"
proof -
  let ?h = "create_nlabel junk h"
  obtain rr where r: "if_record ?h a = [rr]" "rr_type rr = RR_A \<or> rr_type rr = RR_AAAA" "rr_wf (svr_rrs mdnsd_start @ [rr]) rr"
    using assms rr_wf_a [OF assms(1)] rr_wf_aaaa [OF assms(1)]
    by (cases a) (auto simp: if_record_def rr_create_a_def rr_create_aaaa_def fill_rr_entry_def)
  have "svr_hostname mdnsd_start = None" by (simp add: mdnsd_start_def)
  from set_host_some [OF mdnsd_start_ok this assms(1) r(3,2)] obtain svr where
    s: "set_host junk mdnsd_start h rr = Inr svr" "svr_rrs svr = svr_rrs mdnsd_start @ [rr, nsec_record ?h (rr_type rr)]"
    "advertised svr = {length (svr_rrs mdnsd_start), length (svr_rrs mdnsd_start) + 1} \<union> advertised mdnsd_start"
    "svr_hostname svr = Some ?h" by blast
  have "rr \<in> advertised_rrs svr" by (simp add: advertised_rrs_def s(2,3))
  moreover have "server_state svr \<and> (case a of Inet a \<Rightarrow> mdnsd_set_hostname junk mdnsd_start h a
       | Inet6 a \<Rightarrow> mdnsd_set_hostname_v6 junk mdnsd_start h a | Other_family \<Rightarrow> Inr mdnsd_start) = Inr svr"
    using s(1) r(1) assms(2) server_state.set_hostname [OF server_state.start assms(1)]
      server_state.set_hostname_v6 [OF server_state.start assms(1)]
    by (cases a) (auto simp: if_record_def mdnsd_set_hostname_def mdnsd_set_hostname_v6_def)
  ultimately show ?thesis using s(4) r(1) by auto
qed

lemma raop_type: "create_nlabel junk ''_raop._tcp.local'' = name_of (map (map char_byte) [''_raop'', ''_tcp'', ''local''])"
proof -
  have "dotted [''_raop'', ''_tcp'', ''local''] = ''_raop._tcp.local''" by simp
  moreover have "\<forall>l \<in> set [''_raop'', ''_tcp'', ''local'']. text_ok l" by code_simp
  ultimately show ?thesis using create_nlabel_dotted [of "[''_raop'', ''_tcp'', ''local'']" junk] by simp
qed

lemma mdns_txt_ok: "\<forall>t \<in> set (mdns_txt password). string_ok t"
  by (cases password) (simp_all add: mdns_txt_def string_ok_def)



end
