(* ===== verification/Dns_Lifetime.thy ===== *)
theory Dns_Lifetime
  imports Dns_Services
begin

text \<open>
  The life of the responder of tinysvcmdns.c: its socket, its pipe and its thread come with
  \<open>mdnsd_start\<close>, and \<open>mdnsd_stop\<close> ends them. The thread and the caller of \<open>mdnsd_stop\<close> meet through
  \<open>stop_flag\<close> and the pipe alone, so their steps interleave. At the end everything the server
  allocated is freed.
\<close>

section \<open>Sockets and descriptors\<close>

text \<open>What \<open>socket\<close>, \<open>bind\<close> and the calls of \<open>setsockopt\<close> return; the list has the open descriptors.\<close>

record sock_answers =
  sk_socket :: int
  sk_reuseaddr :: int
  sk_bind :: int
  sk_membership :: int
  sk_loop :: int
  sk_pktinfo :: int

definition create_recv_sock :: "sock_answers \<Rightarrow> int list \<Rightarrow> int \<times> int list" where
  "create_recv_sock a fds =
     (if sk_socket a < 0 then (sk_socket a, fds)
      else
        let fds = sk_socket a # fds in
        if sk_reuseaddr a < 0 then (sk_reuseaddr a, fds)
        else if sk_membership a < 0 then (sk_membership a, fds)
        else if sk_loop a < 0 then (sk_loop a, fds)
        else if sk_pktinfo a < 0 then (sk_pktinfo a, fds)
        else (sk_socket a, fds))"

record responder =
  sockfd :: int
  notify_read :: int
  notify_write :: int

text \<open>\<open>create_pipe\<close> gives its two ends, or fails; then the socket, then the thread.\<close>

definition start_responder ::
    "(int \<times> int) option \<Rightarrow> sock_answers \<Rightarrow> int \<Rightarrow> int list \<Rightarrow> responder option \<times> int list" where
  "start_responder pipe a create_ret fds =
     (case pipe of
        None \<Rightarrow> (None, fds)
      | Some (r, w) \<Rightarrow>
          let (sock, fds) = create_recv_sock a (r # w # fds) in
          if sock < 0 then (None, fds)
          else if create_ret \<noteq> 0 then (None, fds)
          else (Some \<lparr>sockfd = sock, notify_read = r, notify_write = w\<rparr>, fds))"

section \<open>The thread and its end\<close>

text \<open>
  Where the thread is in \<open>main_loop\<close>: at the test of \<open>stop_flag\<close>, in \<open>select\<close>, at the work that follows,
  at the goodbye, before it closes the socket, before it sets the flag to 2, ended. Where the
  program is with \<open>mdnsd_stop\<close>: not in it, before it writes to the pipe, in its loop, before it closes
  the pipe, before it frees the server, returned.
\<close>

datatype loop_pc = L_test | L_select | L_serve | L_goodbye | L_close | L_flag | L_done

datatype stop_pc = S_run | S_wake | S_wait | S_pipe | S_free | S_gone

record life =
  stop_flag :: nat
  notify :: nat
  at_loop :: loop_pc
  at_stop :: stop_pc
  sock_open :: bool
  pipe_open :: bool
  freed :: bool

definition life_started :: life where
  "life_started = \<lparr>stop_flag = 0, notify = 0, at_loop = L_test, at_stop = S_run, sock_open = True,
     pipe_open = True, freed = False\<rparr>"

text \<open>
  A step of the thread; in \<open>select\<close> it waits, \<open>None\<close>, until there is a byte in the pipe, which it reads,
  or a packet.
\<close>

fun loop_step :: "bool \<Rightarrow> life \<Rightarrow> life option" where
  "loop_step packet st =
     (case at_loop st of
        L_test \<Rightarrow> Some (st\<lparr>at_loop := if stop_flag st \<noteq> 0 then L_goodbye else L_select\<rparr>)
      | L_select \<Rightarrow>
          if 0 < notify st then Some (st\<lparr>notify := notify st - 1, at_loop := L_serve\<rparr>)
          else if packet then Some (st\<lparr>at_loop := L_serve\<rparr>)
          else None
      | L_serve \<Rightarrow> Some (st\<lparr>at_loop := L_test\<rparr>)
      | L_goodbye \<Rightarrow> Some (st\<lparr>at_loop := L_close\<rparr>)
      | L_close \<Rightarrow> Some (st\<lparr>sock_open := False, at_loop := L_flag\<rparr>)
      | L_flag \<Rightarrow> Some (st\<lparr>stop_flag := 2, at_loop := L_done\<rparr>)
      | L_done \<Rightarrow> None)"

text \<open>A step of the program: a service is registered, or \<open>mdnsd_stop\<close> is called and goes on.\<close>

fun stop_step :: "bool \<Rightarrow> life \<Rightarrow> life option" where
  "stop_step stop st =
     (case at_stop st of
        S_run \<Rightarrow> Some (if stop then st\<lparr>stop_flag := 1, at_stop := S_wake\<rparr> else st\<lparr>notify := notify st + 1\<rparr>)
      | S_wake \<Rightarrow> Some (st\<lparr>notify := notify st + 1, at_stop := S_wait\<rparr>)
      | S_wait \<Rightarrow> Some (if stop_flag st \<noteq> 2 then st else st\<lparr>at_stop := S_pipe\<rparr>)
      | S_pipe \<Rightarrow> Some (st\<lparr>pipe_open := False, at_stop := S_free\<rparr>)
      | S_free \<Rightarrow> Some (st\<lparr>freed := True, at_stop := S_gone\<rparr>)
      | S_gone \<Rightarrow> None)"

declare loop_step.simps [simp del] stop_step.simps [simp del]

inductive life_reached :: "life \<Rightarrow> bool" where
  started: "life_reached life_started"
| loop: "life_reached st \<Longrightarrow> loop_step packet st = Some st' \<Longrightarrow> life_reached st'"
| stop: "life_reached st \<Longrightarrow> stop_step s st = Some st' \<Longrightarrow> life_reached st'"

fun loop_run :: "bool list \<Rightarrow> life \<Rightarrow> life option" where
  "loop_run [] st = Some st"
| "loop_run (p # ps) st = (case loop_step p st of None \<Rightarrow> None | Some st \<Rightarrow> loop_run ps st)"

definition life_inv :: "life \<Rightarrow> bool" where
  "life_inv st \<longleftrightarrow>
     (stop_flag st = 0 \<longleftrightarrow> at_stop st = S_run) \<and>
     (stop_flag st = 2 \<longleftrightarrow> at_loop st = L_done) \<and>
     (at_loop st \<in> {L_goodbye, L_close, L_flag} \<longrightarrow> stop_flag st \<noteq> 0) \<and>
     (at_stop st \<in> {S_pipe, S_free, S_gone} \<longrightarrow> at_loop st = L_done) \<and>
     (at_stop st = S_wait \<and> at_loop st = L_select \<longrightarrow> 0 < notify st) \<and>
     (sock_open st \<longleftrightarrow> at_loop st \<notin> {L_flag, L_done}) \<and>
     (pipe_open st \<longleftrightarrow> at_stop st \<notin> {S_free, S_gone}) \<and>
     (freed st \<longleftrightarrow> at_stop st = S_gone)"

lemma loop_step_inv: "life_inv st \<Longrightarrow> loop_step p st = Some st' \<Longrightarrow> life_inv st'"
  by (cases "at_loop st"; cases "at_stop st") (auto simp: life_inv_def loop_step.simps split: if_splits)

lemma stop_step_inv: "life_inv st \<Longrightarrow> stop_step s st = Some st' \<Longrightarrow> life_inv st'"
  by (cases "at_stop st"; cases "at_loop st") (auto simp: life_inv_def stop_step.simps split: if_splits)

lemma life_reached_inv: "life_reached st \<Longrightarrow> life_inv st"
proof (induction rule: life_reached.induct)
  case started
  then show ?case by (simp add: life_inv_def life_started_def)
qed (blast intro: loop_step_inv stop_step_inv)+

text \<open>How many steps the thread has left once it is told to stop.\<close>

fun steps_left :: "loop_pc \<Rightarrow> nat" where
  "steps_left L_select = 6"
| "steps_left L_serve = 5"
| "steps_left L_test = 4"
| "steps_left L_goodbye = 3"
| "steps_left L_close = 2"
| "steps_left L_flag = 1"
| "steps_left L_done = 0"

lemma loop_step_waiting:
  assumes "life_inv st" "at_stop st = S_wait" "at_loop st \<noteq> L_done"
  shows "\<exists>st'. loop_step p st = Some st' \<and> life_inv st' \<and> at_stop st' = S_wait \<and>
    Suc (steps_left (at_loop st')) = steps_left (at_loop st)"
proof -
  have "\<exists>st'. loop_step p st = Some st' \<and> at_stop st' = S_wait \<and>
      Suc (steps_left (at_loop st')) = steps_left (at_loop st)"
    using assms by (cases "at_loop st") (auto simp: loop_step.simps life_inv_def)
  then show ?thesis using loop_step_inv [OF assms(1)] by blast
qed

lemma loop_run_done:
  assumes "life_inv st" "at_stop st = S_wait" "length ps = steps_left (at_loop st)"
  shows "\<exists>st'. loop_run ps st = Some st' \<and> life_inv st' \<and> at_stop st' = S_wait \<and> at_loop st' = L_done"
  using assms
proof (induction ps arbitrary: st)
  case Nil
  then show ?case by (cases "at_loop st") auto
next
  case (Cons p ps)
  then have "at_loop st \<noteq> L_done" by auto
  from loop_step_waiting [OF Cons.prems(1,2) this, of p] Cons show ?case by auto
qed

section \<open>What is freed\<close>

text \<open>
  The blocks a server has: a record, its name, what its data points to, the nodes of its strings; a
  group, its name, the nodes of its list; the nodes of the two other lists, the host name, itself.
\<close>

datatype block =
    Rr_block nat
  | Name_block nat
  | Data_block nat nat
  | Text_node nat nat
  | Group_block nat
  | Group_name nat
  | Group_node nat nat
  | Announce_node nat
  | Services_node nat
  | Hostname_block
  | Server_block

fun destroy_texts :: "nat \<Rightarrow> nat \<Rightarrow> bytes option list \<Rightarrow> block list" where
  "destroy_texts i k [] = []"
| "destroy_texts i k (t # ts) =
     (if t \<noteq> None then [Data_block i k] else []) @ (if k \<noteq> 0 then [Text_node i k] else []) @
     destroy_texts i (k + 1) ts"

definition rr_entry_destroy :: "rr_store \<Rightarrow> nat \<Rightarrow> block list" where
  "rr_entry_destroy rrs i =
     (let rr = rrs ! i in
      (if rr_type rr = RR_PTR then
         (case rr_data rr of PTR_data name e \<Rightarrow> if name \<noteq> None then [Data_block i 0] else [] | _ \<Rightarrow> [])
       else if rr_type rr = RR_TXT then
         (case rr_data rr of TXT_data ts \<Rightarrow> destroy_texts i 0 ts | _ \<Rightarrow> [])
       else if rr_type rr = RR_SRV then
         (case rr_data rr of SRV_data pr we po target \<Rightarrow> if target \<noteq> None then [Data_block i 0] else [] | _ \<Rightarrow> [])
       else []) @ [Name_block i, Rr_block i])"

text \<open>The nodes of a list are told apart by their place in it; \<open>node\<close> makes the block of one.\<close>

fun rr_list_destroy :: "rr_store \<Rightarrow> (nat \<Rightarrow> block) \<Rightarrow> nat \<Rightarrow> nat list \<Rightarrow> bool \<Rightarrow> block list" where
  "rr_list_destroy rrs node k [] destroy_items = []"
| "rr_list_destroy rrs node k (i # is) destroy_items =
     (if destroy_items then rr_entry_destroy rrs i else []) @ node k #
     rr_list_destroy rrs node (k + 1) is destroy_items"

fun rr_group_destroy :: "rr_store \<Rightarrow> nat \<Rightarrow> rr_group list \<Rightarrow> block list" where
  "rr_group_destroy rrs j [] = []"
| "rr_group_destroy rrs j (g # gs) =
     Group_name j # rr_list_destroy rrs (Group_node j) 0 (gr_rr g) True @ Group_block j #
     rr_group_destroy rrs (j + 1) gs"

text \<open>The end of \<open>mdnsd_stop\<close>: what it frees, in order.\<close>

definition mdnsd_stop_frees :: "mdnsd \<Rightarrow> block list" where
  "mdnsd_stop_frees s =
     rr_group_destroy (svr_rrs s) 0 (svr_group s) @
     rr_list_destroy (svr_rrs s) Announce_node 0 (svr_announce s) False @
     rr_list_destroy (svr_rrs s) Services_node 0 (svr_services s) False @
     (if svr_hostname s \<noteq> None then [Hostname_block] else []) @ [Server_block]"

text \<open>
  What registering hands back is destroyed at once, without its records. The backend stops the
  server it has, once.
\<close>

definition mdns_service_destroy :: "mdnsd \<Rightarrow> nat list \<Rightarrow> block list" where
  "mdns_service_destroy s entries = rr_list_destroy (svr_rrs s) Services_node 0 entries False"

definition mdns_tinysvcmdns_unregister :: "mdnsd option \<Rightarrow> block list \<times> mdnsd option" where
  "mdns_tinysvcmdns_unregister svr =
     (case svr of None \<Rightarrow> ([], None) | Some s \<Rightarrow> (mdnsd_stop_frees s, None))"

section \<open>Nothing is freed twice\<close>

definition entry_blocks :: "nat \<Rightarrow> block set" where
  "entry_blocks i = {b. \<exists>k. b = Rr_block i \<or> b = Name_block i \<or> b = Data_block i k \<or> b = Text_node i k}"

lemma entry_blocks_disjoint: "i \<noteq> j \<Longrightarrow> entry_blocks i \<inter> entry_blocks j = {}"
  by (auto simp: entry_blocks_def)

lemma destroy_texts_blocks:
  "distinct (destroy_texts i k ts) \<and> (\<forall>b \<in> set (destroy_texts i k ts). \<exists>m \<ge> k. b = Data_block i m \<or> b = Text_node i m)"
proof (induction ts arbitrary: k)
  case (Cons t ts)
  have "\<exists>m \<ge> k. b = Data_block i m \<or> b = Text_node i m" if "b \<in> set (destroy_texts i (k + 1) ts)" for b
    using Cons [of "k + 1"] that by (metis add_leD1)
  moreover have "Data_block i k \<notin> set (destroy_texts i (k + 1) ts)" "Text_node i k \<notin> set (destroy_texts i (k + 1) ts)"
    using Cons [of "k + 1"] by fastforce+
  ultimately show ?case using Cons [of "k + 1"] by auto
qed simp

lemma destroy_texts_facts:
  "distinct (destroy_texts i 0 ts)" "set (destroy_texts i 0 ts) \<subseteq> entry_blocks i"
  "Name_block i \<notin> set (destroy_texts i 0 ts)" "Rr_block i \<notin> set (destroy_texts i 0 ts)"
  using destroy_texts_blocks [of i 0 ts] by (fastforce simp: entry_blocks_def)+

lemma rr_entry_destroy_blocks:
  "distinct (rr_entry_destroy rrs i)" "set (rr_entry_destroy rrs i) \<subseteq> entry_blocks i"
  "Rr_block i \<in> set (rr_entry_destroy rrs i)"
proof -
  have own: "Data_block i 0 \<in> entry_blocks i" "Name_block i \<in> entry_blocks i" "Rr_block i \<in> entry_blocks i"
    by (simp_all add: entry_blocks_def)
  consider (texts) ts where "rr_entry_destroy rrs i = destroy_texts i 0 ts @ [Name_block i, Rr_block i]"
    | (one) "rr_entry_destroy rrs i = [Data_block i 0, Name_block i, Rr_block i]"
    | (none) "rr_entry_destroy rrs i = [Name_block i, Rr_block i]"
  proof -
    have "(\<exists>ts. rr_entry_destroy rrs i = destroy_texts i 0 ts @ [Name_block i, Rr_block i]) \<or>
        rr_entry_destroy rrs i = [Data_block i 0, Name_block i, Rr_block i] \<or>
        rr_entry_destroy rrs i = [Name_block i, Rr_block i]"
      unfolding rr_entry_destroy_def Let_def by (cases "rr_data (rrs ! i)") (simp_all, blast?)
    then show ?thesis using that by blast
  qed
  then have "distinct (rr_entry_destroy rrs i) \<and> set (rr_entry_destroy rrs i) \<subseteq> entry_blocks i \<and>
      Rr_block i \<in> set (rr_entry_destroy rrs i)"
  proof cases
    case texts
    then show ?thesis using destroy_texts_facts [of i ts] own by simp
  qed (use own in simp_all)
  then show "distinct (rr_entry_destroy rrs i)" "set (rr_entry_destroy rrs i) \<subseteq> entry_blocks i"
    "Rr_block i \<in> set (rr_entry_destroy rrs i)" by blast+
qed

lemma rr_list_destroy_blocks:
  "set (rr_list_destroy rrs node k l d) \<subseteq> (if d then \<Union>i \<in> set l. entry_blocks i else {}) \<union> node ` {k..}"
proof (induction l arbitrary: k)
  case (Cons i l)
  have "node ` {k + 1..} \<subseteq> node ` {k..}" by auto
  then show ?case using Cons [of "k + 1"] rr_entry_destroy_blocks(2) [of rrs i] by (cases d) auto
qed simp

lemma rr_list_destroy_entries: "i \<in> set l \<Longrightarrow> Rr_block i \<in> set (rr_list_destroy rrs node k l True)"
  by (induction l arbitrary: k) (auto simp: rr_entry_destroy_blocks(3))

lemma rr_list_destroy_distinct:
  assumes "inj node" "\<And>i. range node \<inter> entry_blocks i = {}" "distinct l"
  shows "distinct (rr_list_destroy rrs node k l d)"
  using assms(3)
proof (induction l arbitrary: k)
  case (Cons i l)
  let ?rest = "rr_list_destroy rrs node (k + 1) l d"
  have sub: "set ?rest \<subseteq> (if d then \<Union>i \<in> set l. entry_blocks i else {}) \<union> node ` {k + 1..}"
    by (rule rr_list_destroy_blocks)
  have "node k \<notin> entry_blocks j" for j using assms(2) [of j] by auto
  have "node k \<notin> set ?rest"
  proof
    assume "node k \<in> set ?rest"
    then have "node k \<in> node ` {k + 1..}"
      using sub \<open>\<And>j. node k \<notin> entry_blocks j\<close> by (auto split: if_splits)
    then show False using assms(1) by (auto dest: injD)
  qed
  moreover have "b \<notin> set ?rest" if b: "b \<in> entry_blocks i" for b
  proof
    assume "b \<in> set ?rest"
    then consider j where "j \<in> set l" "b \<in> entry_blocks j" | "b \<in> range node"
      using sub by (auto split: if_splits)
    then show False
    proof cases
      case 1
      then have "i \<noteq> j" using Cons.prems by auto
      then show False using entry_blocks_disjoint b 1(2) by blast
    next
      case 2
      then show False using assms(2) [of i] b by blast
    qed
  qed
  then have "set (rr_entry_destroy rrs i) \<inter> set ?rest = {}" using rr_entry_destroy_blocks(2) [of rrs i] by blast
  moreover have "node k \<notin> set (rr_entry_destroy rrs i)"
    using \<open>\<And>j. node k \<notin> entry_blocks j\<close> rr_entry_destroy_blocks(2) [of rrs i] by blast
  moreover have "distinct ?rest" using Cons by simp
  ultimately show ?case using rr_entry_destroy_blocks(1) [of rrs i] by (cases d) simp_all
qed simp

definition group_blocks :: "nat \<Rightarrow> block set" where
  "group_blocks j = {b. \<exists>k. b = Group_block j \<or> b = Group_name j \<or> b = Group_node j k}"

lemma rr_group_destroy_blocks:
  "set (rr_group_destroy rrs j gs) \<subseteq> (\<Union>g \<in> set gs. \<Union>i \<in> set (gr_rr g). entry_blocks i) \<union> (\<Union>m \<in> {j..}. group_blocks m)"
proof (induction gs arbitrary: j)
  case (Cons g gs)
  let ?e = "\<lambda>g. \<Union>i \<in> set (gr_rr g). entry_blocks i"
  let ?bound = "(\<Union>g \<in> set (g # gs). ?e g) \<union> (\<Union>m \<in> {j..}. group_blocks m)"
  have later: "(\<Union>m \<in> {j + 1..}. group_blocks m) \<subseteq> (\<Union>m \<in> {j..}. group_blocks m)" by (rule UN_mono) auto
  have own: "group_blocks j \<subseteq> ?bound" by auto
  have "set (rr_list_destroy rrs (Group_node j) 0 (gr_rr g) True) \<subseteq> ?e g \<union> group_blocks j"
    using rr_list_destroy_blocks [of rrs "Group_node j" 0 "gr_rr g" True] by (auto simp: group_blocks_def)
  then have l: "set (rr_list_destroy rrs (Group_node j) 0 (gr_rr g) True) \<subseteq> ?bound" using own by auto
  have r: "set (rr_group_destroy rrs (j + 1) gs) \<subseteq> ?bound" using Cons [of "j + 1"] later by auto
  have "Group_name j \<in> group_blocks j" "Group_block j \<in> group_blocks j" by (auto simp: group_blocks_def)
  then have n: "{Group_name j, Group_block j} \<subseteq> ?bound" using own by blast
  have "set (rr_group_destroy rrs j (g # gs)) = {Group_name j, Group_block j} \<union>
      (set (rr_list_destroy rrs (Group_node j) 0 (gr_rr g) True) \<union> set (rr_group_destroy rrs (j + 1) gs))"
    by auto
  then show ?case using n l r by (simp only: Un_least)
qed simp

lemma disjoint_cover: "A \<subseteq> B \<union> C \<Longrightarrow> B \<inter> R = {} \<Longrightarrow> C \<inter> R = {} \<Longrightarrow> A \<inter> R = {}"
  by blast

lemma rr_group_destroy_distinct:
  assumes "distinct (map gr_name gs)" "\<forall>g \<in> set gs. group_wf rrs g"
  shows "distinct (rr_group_destroy rrs j gs)"
  using assms
proof (induction gs arbitrary: j)
  case (Cons g gs)
  let ?l = "rr_list_destroy rrs (Group_node j) 0 (gr_rr g) True" and ?rest = "rr_group_destroy rrs (j + 1) gs"
  have wf: "group_wf rrs g" using Cons.prems(2) by simp
  have rest: "set ?rest \<subseteq> (\<Union>g \<in> set gs. \<Union>i \<in> set (gr_rr g). entry_blocks i) \<union> (\<Union>m \<in> {j + 1..}. group_blocks m)"
    by (rule rr_group_destroy_blocks)
  have l: "set ?l \<subseteq> (\<Union>i \<in> set (gr_rr g). entry_blocks i) \<union> range (Group_node j)"
    using rr_list_destroy_blocks [of rrs "Group_node j" 0 "gr_rr g" True] by auto
  have apart: "entry_blocks i \<inter> group_blocks m = {}" for i m by (auto simp: entry_blocks_def group_blocks_def)
  have old: "group_blocks j \<inter> set ?rest = {}"
  proof -
    have "group_blocks j \<inter> group_blocks m = {}" if "m \<in> {j + 1..}" for m using that by (auto simp: group_blocks_def)
    then show ?thesis using rest apart by blast
  qed
  have other: "set (gr_rr g) \<inter> set (gr_rr h) = {}" if "h \<in> set gs" for h
  proof -
    have "gr_name g \<notin> gr_name ` set gs" using Cons.prems(1) by simp
    then have "gr_name h \<noteq> gr_name g" using that by (metis imageI)
    then show ?thesis using wf Cons.prems(2) that by (fastforce simp: group_wf_def)
  qed
  have "entry_blocks i \<inter> set ?rest = {}" if "i \<in> set (gr_rr g)" for i
  proof -
    have "entry_blocks i \<inter> entry_blocks k = {}" if "h \<in> set gs" "k \<in> set (gr_rr h)" for h k
      using other [OF that(1)] that(2) \<open>i \<in> set (gr_rr g)\<close> by (intro entry_blocks_disjoint) blast
    then show ?thesis using rest apart [of i] by blast
  qed
  then have "(\<Union>i \<in> set (gr_rr g). entry_blocks i) \<inter> set ?rest = {}" by blast
  moreover have "range (Group_node j) \<inter> set ?rest = {}"
  proof -
    have "range (Group_node j) \<subseteq> group_blocks j" by (auto simp: group_blocks_def)
    then show ?thesis using old by blast
  qed
  ultimately have "set ?l \<inter> set ?rest = {}" by (rule disjoint_cover [OF l])
  moreover have "distinct ?l"
    by (rule rr_list_destroy_distinct) (use wf in \<open>auto simp: inj_on_def entry_blocks_def group_wf_def\<close>)
  moreover have "Group_name j \<notin> set ?l" "Group_block j \<notin> set ?l" using l by (auto simp: entry_blocks_def)
  moreover have "Group_name j \<notin> set ?rest" "Group_block j \<notin> set ?rest" using old by (auto simp: group_blocks_def)
  moreover have "distinct ?rest" using Cons by simp
  ultimately show ?case by auto
qed simp

section \<open>Every record is in a group\<close>

lemma set_host_advertised:
  assumes "set_host junk svr h a = Inr svr'" "svr_ok svr" "name_fits (Some (create_nlabel junk h))"
    and "rr_wf (svr_rrs svr @ [a]) a" "rr_type a = RR_A \<or> rr_type a = RR_AAAA"
    and "advertised svr = {..<length (svr_rrs svr)}"
  shows "advertised svr' = {..<length (svr_rrs svr')}"
proof -
  let ?n = "length (svr_rrs svr)"
  have none: "svr_hostname svr = None" using assms(1) by (simp add: set_host_def split: if_splits)
  obtain svr2 where s: "set_host junk svr h a = Inr svr2"
    "svr_rrs svr2 = svr_rrs svr @ [a, nsec_record (create_nlabel junk h) (rr_type a)]"
    "advertised svr2 = {?n, ?n + 1} \<union> advertised svr"
    using set_host_some [OF assms(2) none assms(3-5)] by (elim exE conjE) (rule that)
  have "svr2 = svr'" using s(1) assms(1) by (simp only: sum.inject)
  moreover have "length (svr_rrs svr2) = ?n + 2" unfolding s(2) by simp
  moreover have "{?n, ?n + 1} \<union> {..<?n} = {..<?n + 2}" by auto
  ultimately show ?thesis using s(3) assms(6) by (simp only:)
qed

lemma server_state_advertised: "server_state svr \<Longrightarrow> advertised svr = {..<length (svr_rrs svr)}"
proof (induction rule: server_state.induct)
  case start
  then show ?case by (simp add: mdnsd_start_def advertised_def)
next
  case (set_hostname svr junk h ip svr')
  show ?case
    by (rule set_host_advertised [OF set_hostname.hyps(3) [unfolded mdnsd_set_hostname_def]
          server_state_ok [OF set_hostname.hyps(1)] set_hostname.hyps(2) rr_wf_a [OF set_hostname.hyps(2)] _ set_hostname.IH])
      (simp add: rr_create_a_def fill_rr_entry_def)
next
  case (set_hostname_v6 svr junk h addr svr')
  show ?case
    by (rule set_host_advertised [OF set_hostname_v6.hyps(4) [unfolded mdnsd_set_hostname_v6_def]
          server_state_ok [OF set_hostname_v6.hyps(1)] set_hostname_v6.hyps(2) rr_wf_aaaa [OF set_hostname_v6.hyps(2,3)] _
          set_hostname_v6.IH])
      (simp add: rr_create_aaaa_def fill_rr_entry_def)
next
  case (add_rr svr rr svr')
  let ?n = "length (svr_rrs svr)"
  obtain svr2 where s: "mdnsd_add_rr svr rr = Inr svr2" "svr_rrs svr2 = svr_rrs svr @ [rr]"
    "advertised svr2 = insert ?n (advertised svr)"
    using mdnsd_add_rr_some [OF server_state_ok [OF add_rr.hyps(1)] add_rr.hyps(2)] by (elim exE conjE) (rule that)
  have "svr2 = svr'" using s(1) add_rr.hyps(3) by (simp only: sum.inject)
  moreover have "length (svr_rrs svr2) = ?n + 1" unfolding s(2) by simp
  moreover have "insert ?n {..<?n} = {..<?n + 1}" by auto
  ultimately show ?case using s(3) add_rr.IH by (simp only:)
next
  case (register_svc svr name junk type hostname txts port svr' entries)
  obtain t where t: "target_nlabel junk svr hostname = Some t" using register_svc_target register_svc.hyps by blast
  have ok: "svr_ok svr" by (rule server_state_ok [OF register_svc.hyps(1)])
  have tn: "name_fits (Some t)"
    using t register_svc.hyps(5) ok by (auto simp: target_nlabel_def svr_ok_def split: option.splits)
  let ?n = "instance_nlabel name (create_nlabel junk type)" and ?i = "length (svr_rrs svr)"
  obtain svr2 ptr where s: "mdnsd_register_svc junk svr name type port hostname txts = Inr (svr2, ptr)"
    "svr_rrs svr2 = svr_rrs svr @ service_records ?i ?n (create_nlabel junk type) port t txts"
    "advertised svr2 = {?i..<?i + length (txt_records ?n txts) + 3} \<union> advertised svr"
    using register_svc_some [OF ok register_svc.hyps(2-4) t tn register_svc.hyps(6) refl refl, of port]
    by (elim exE conjE) (rule that)
  have "svr2 = svr'" using s(1) register_svc.hyps(7) by (simp only: sum.inject prod.inject)
  moreover have "length (svr_rrs svr2) = ?i + length (txt_records ?n txts) + 3" unfolding s(2) by simp
  moreover have "{?i..<?i + length (txt_records ?n txts) + 3} \<union> {..<?i} = {..<?i + length (txt_records ?n txts) + 3}"
    by auto
  ultimately show ?case using s(3) register_svc.IH by (simp only:)
next
  case (turn svr buf w svr' buf' sent)
  from turn.hyps(2) have "svr' = svr\<lparr>svr_announce := []\<rparr>"
    by (auto simp: loop_turn_def split: option.splits sum.splits)
  then show ?case using turn.IH by (simp add: advertised_def)
qed

lemma rr_group_destroy_entries:
  "i \<in> (\<Union>g \<in> set gs. set (gr_rr g)) \<Longrightarrow> Rr_block i \<in> set (rr_group_destroy rrs j gs)"
  by (induction gs arbitrary: j) (auto simp: rr_list_destroy_entries)

section \<open>Properties\<close>

text \<open>
  C27: in every state the program can bring the responder to, unregistering frees no block twice, each
  record that was ever created exactly once, and the server last; a second time it does nothing.
\<close>

theorem server_freed_once:
  assumes "server_state svr"
  shows "\<exists>blocks. mdns_tinysvcmdns_unregister (Some svr) = (blocks, None) \<and>
    mdns_tinysvcmdns_unregister (snd (mdns_tinysvcmdns_unregister (Some svr))) = ([], None) \<and>
    distinct blocks \<and> (\<forall>i < length (svr_rrs svr). Rr_block i \<in> set blocks) \<and> last blocks = Server_block"
proof -
  have ok: "svr_ok svr" by (rule server_state_ok [OF assms])
  let ?G = "rr_group_destroy (svr_rrs svr) 0 (svr_group svr)"
    and ?A = "rr_list_destroy (svr_rrs svr) Announce_node 0 (svr_announce svr) False"
    and ?S = "rr_list_destroy (svr_rrs svr) Services_node 0 (svr_services svr) False"
  have G: "distinct ?G" by (rule rr_group_destroy_distinct) (use ok in \<open>simp_all add: svr_ok_def\<close>)
  have sub: "set ?G \<subseteq> (\<Union>g \<in> set (svr_group svr). \<Union>i \<in> set (gr_rr g). entry_blocks i) \<union> (\<Union>m \<in> {0..}. group_blocks m)"
    by (rule rr_group_destroy_blocks)
  have A: "set ?A \<subseteq> range Announce_node" and S: "set ?S \<subseteq> range Services_node"
    using rr_list_destroy_blocks [of "svr_rrs svr" Announce_node 0 "svr_announce svr" False]
      rr_list_destroy_blocks [of "svr_rrs svr" Services_node 0 "svr_services svr" False] by auto
  have "distinct (rr_list_destroy rrs node k l False)" if "inj node" for rrs node k l
  proof (induction l arbitrary: k)
    case (Cons i l)
    have "node k \<notin> node ` {k + 1..}" using \<open>inj node\<close> by (auto dest: injD)
    then show ?case using Cons [of "k + 1"] rr_list_destroy_blocks [of rrs node "k + 1" l False] by auto
  qed simp
  then have "distinct ?A" "distinct ?S" by (auto simp: inj_on_def)
  moreover have "Announce_node k \<notin> set ?G" "Services_node k \<notin> set ?G" "Hostname_block \<notin> set ?G" "Server_block \<notin> set ?G" for k
    using sub by (auto simp: entry_blocks_def group_blocks_def)
  ultimately have "distinct (mdnsd_stop_frees svr)"
    using G A S unfolding mdnsd_stop_frees_def by (auto simp del: rr_list_destroy.simps)
  moreover have "Rr_block i \<in> set (mdnsd_stop_frees svr)" if "i < length (svr_rrs svr)" for i
  proof -
    have "i \<in> (\<Union>g \<in> set (svr_group svr). set (gr_rr g))"
      using server_state_advertised [OF assms] that by (auto simp: advertised_def)
    then show ?thesis by (simp add: mdnsd_stop_frees_def rr_group_destroy_entries)
  qed
  moreover have "last (mdnsd_stop_frees svr) = Server_block" by (simp add: mdnsd_stop_frees_def)
  ultimately show ?thesis
    by (intro exI [of _ "mdnsd_stop_frees svr"]) (simp add: mdns_tinysvcmdns_unregister_def)
qed

theorem server_freed_once_witness:
  "\<exists>svr blocks. mdnsd_set_hostname 0 mdnsd_start ''pi.local'' 1 = Inr svr \<and> length (svr_rrs svr) = 2 \<and>
    mdns_tinysvcmdns_unregister (Some svr) = (blocks, None) \<and> distinct blocks \<and>
    Rr_block 0 \<in> set blocks \<and> Rr_block 1 \<in> set blocks"
proof -
  obtain svr where s: "mdnsd_set_hostname 0 mdnsd_start ''pi.local'' 1 = Inr svr" "server_state svr"
    "length (svr_rrs svr) = 2"
    using example_host by auto
  obtain blocks where b: "mdns_tinysvcmdns_unregister (Some svr) = (blocks, None)" "distinct blocks"
    "\<forall>i < length (svr_rrs svr). Rr_block i \<in> set blocks"
    using server_freed_once [OF s(2)] by blast
  then have "Rr_block 0 \<in> set blocks" "Rr_block 1 \<in> set blocks" using s(3) by simp_all
  then show ?thesis using s b by blast
qed



text \<open>
  \<open>mdnsd_start\<close> gives a responder, with its three descriptors, exactly when the pipe, the socket,
  the four socket options and the thread are there, whether the port can be bound or not; when
  it gives up after the pipe is made the descriptors it has by then stay open.
\<close>

theorem start_keeps_descriptors:
  "start_responder pipe a create_ret fds =
    (case pipe of
       None \<Rightarrow> (None, fds)
     | Some (r, w) \<Rightarrow>
         if sk_socket a < 0 then (None, r # w # fds)
         else if \<exists>ret \<in> {sk_reuseaddr a, sk_membership a, sk_loop a, sk_pktinfo a}. ret < 0
         then (None, sk_socket a # r # w # fds)
         else if create_ret \<noteq> 0 then (None, sk_socket a # r # w # fds)
         else (Some \<lparr>sockfd = sk_socket a, notify_read = r, notify_write = w\<rparr>, sk_socket a # r # w # fds))"
  by (simp add: start_responder_def create_recv_sock_def Let_def split: option.splits prod.splits)

end
