(* ===== verification/Options.thy ===== *)
theory Options
  imports Prelude
begin

text \<open>
  The command line: the program's own \<open>getopt_long\<close> (getopt_long.c), \<open>parse_options\<close> and the checks
  of \<open>main\<close> (shairport.c). Arguments are C strings without their NUL, in the list \<open>argv\<close>. The
  static variables of getopt are a record that is passed along.
\<close>

section \<open>getopt\_long\<close>

record long_option =
  opt_name :: string
  has_arg :: bool
  opt_flag :: "nat option"
  opt_val :: int

record getopt_state =
  place :: string
  optind :: nat
  optarg :: "string option"
  flags :: "(nat \<times> int) list"

definition getopt_initial :: getopt_state where
  "getopt_initial = \<lparr>place = '''', optind = 1, optarg = None, flags = []\<rparr>"

definition chr_int :: "char \<Rightarrow> int" where
  "chr_int c = of_char c"

definition BADCH :: int where
  "BADCH = chr_int (CHR ''?'')"

definition BADARG :: int where
  "BADARG = chr_int (CHR '':'')"

definition missing_argument :: "string \<Rightarrow> int" where
  "missing_argument ostr = (case ostr of c # _ \<Rightarrow> if c = CHR '':'' then BADARG else BADCH | [] \<Rightarrow> BADCH)"

fun find_long :: "long_option list \<Rightarrow> string \<Rightarrow> long_option option" where
  "find_long [] name = None"
| "find_long (l # ls) name = (if opt_name l = name then Some l else find_long ls name)"

text \<open>The end of a long option that was found.\<close>

definition finish_long :: "long_option \<Rightarrow> getopt_state \<Rightarrow> getopt_state \<times> int" where
  "finish_long l st =
     (let st = st\<lparr>optind := optind st + 1, place := ''''\<rparr> in
      case opt_flag l of
        None \<Rightarrow> (st, opt_val l)
      | Some f \<Rightarrow> (st\<lparr>flags := (f, opt_val l) # flags st\<rparr>, 0))"

definition long_opt ::
    "string list \<Rightarrow> string \<Rightarrow> long_option list \<Rightarrow> string \<Rightarrow> getopt_state \<Rightarrow> getopt_state \<times> int" where
  "long_opt argv ostr longopts p st =
     (let name = takeWhile (\<lambda>c. c \<noteq> CHR ''='') p;
          tail = dropWhile (\<lambda>c. c \<noteq> CHR ''='') p
      in
        case find_long longopts name of
          None \<Rightarrow> (st\<lparr>place := '''', optind := optind st + 1\<rparr>, BADCH)
        | Some l \<Rightarrow>
            if has_arg l then
              (case tail of
                 _ # arg \<Rightarrow> finish_long l (st\<lparr>optarg := Some arg\<rparr>)
               | [] \<Rightarrow>
                   if optind st + 1 < length argv then
                     finish_long l (st\<lparr>optind := optind st + 1, optarg := Some (argv ! (optind st + 1))\<rparr>)
                   else if missing_argument ostr = BADARG then (st\<lparr>place := p\<rparr>, BADARG)
                   else (st\<lparr>place := '''', optind := optind st + 1\<rparr>, BADCH))
            else finish_long l (st\<lparr>optarg := None\<rparr>))"

text \<open>
  A short option. When there is no letter, as for the argument \<open>-\<close>, \<open>strchr\<close> finds the end of
  \<open>optstring\<close> and the character behind it is read.
\<close>

definition short_opt ::
    "string list \<Rightarrow> string \<Rightarrow> getopt_state \<Rightarrow> fault + (getopt_state \<times> int)" where
  "short_opt argv ostr st =
     (case place st of
        [] \<Rightarrow> Inl Out_of_bounds
      | optopt # rest \<Rightarrow>
          let skip = (if rest = '''' then optind st + 1 else optind st) in
          case strchr ostr optopt of
            None \<Rightarrow> Inr (st\<lparr>place := rest, optind := skip\<rparr>, BADCH)
          | Some oli \<Rightarrow>
              if \<not> (length oli > 1 \<and> oli ! 1 = CHR '':'') then
                Inr (st\<lparr>place := rest, optarg := None, optind := skip\<rparr>, chr_int optopt)
              else if rest \<noteq> '''' then
                Inr (st\<lparr>optarg := Some rest, place := '''', optind := optind st + 1\<rparr>, chr_int optopt)
              else if length argv \<le> optind st + 1 then
                Inr (st\<lparr>place := '''', optind := optind st + 1\<rparr>, missing_argument ostr)
              else
                Inr (st\<lparr>optarg := Some (argv ! (optind st + 1)), place := '''', optind := optind st + 2\<rparr>,
                     chr_int optopt))"

definition getopt_long ::
    "string list \<Rightarrow> string \<Rightarrow> long_option list \<Rightarrow> getopt_state \<Rightarrow> fault + (getopt_state \<times> int)" where
  "getopt_long argv ostr longopts st =
     (if place st = '''' then
        if optind st \<ge> length argv then Inr (st, -1)
        else
          (case argv ! optind st of
             [] \<Rightarrow> Inr (st, -1)
           | dash # p \<Rightarrow>
               if dash \<noteq> CHR ''-'' then Inr (st, -1)
               else if p = ''-'' then Inr (st\<lparr>optind := optind st + 1\<rparr>, -1)
               else
                 (case p of
                    c # p' \<Rightarrow>
                      if c = CHR ''-'' then Inr (long_opt argv ostr longopts p' st)
                      else short_opt argv ostr (st\<lparr>place := p\<rparr>)
                  | [] \<Rightarrow> short_opt argv ostr (st\<lparr>place := p\<rparr>)))
      else short_opt argv ostr st)"

section \<open>parse\_options\<close>

record config =
  cfg_password :: "string option"
  cfg_apname :: string
  cfg_port :: int
  cfg_output_name :: "string option"
  cfg_mdns_name :: "string option"
  cfg_start_fill :: int
  cfg_daemonise :: bool
  cfg_cmd_start :: "string option"
  cfg_cmd_stop :: "string option"
  cfg_cmd_blocking :: bool
  cfg_meta_dir :: "string option"
  cfg_pidfile :: "string option"
  cfg_logfile :: "string option"
  cfg_errfile :: "string option"
  cfg_debuglev :: int

definition main_defaults :: "string \<Rightarrow> config" where
  "main_defaults hostname = \<lparr>cfg_password = None, cfg_apname = take 119 (''Shairport on '' @ hostname),
     cfg_port = 5002, cfg_output_name = None, cfg_mdns_name = None, cfg_start_fill = 220,
     cfg_daemonise = False, cfg_cmd_start = None, cfg_cmd_stop = None, cfg_cmd_blocking = False,
     cfg_meta_dir = None, cfg_pidfile = None, cfg_logfile = None, cfg_errfile = None, cfg_debuglev = 0\<rparr>"

definition optstring :: string where
  "optstring = ''+hdvP:l:e:p:a:k:o:b:B:E:M:wm:''"

definition long_opt_entry :: "string \<times> bool \<times> char \<Rightarrow> long_option" where
  "long_opt_entry e =
     \<lparr>opt_name = fst e, has_arg = fst (snd e), opt_flag = None, opt_val = chr_int (snd (snd e))\<rparr>"

definition long_table :: "(string \<times> bool \<times> char) list" where
  "long_table =
     [(''help'', False, CHR ''h''), (''daemon'', False, CHR ''d''), (''pidfile'', True, CHR ''P''),
      (''log'', True, CHR ''l''), (''error'', True, CHR ''e''), (''port'', True, CHR ''p''),
      (''name'', True, CHR ''a''), (''password'', True, CHR ''k''), (''output'', True, CHR ''o''),
      (''on-start'', True, CHR ''B''), (''on-stop'', True, CHR ''E''), (''wait-cmd'', False, CHR ''w''),
      (''meta-dir'', True, CHR ''M''), (''mdns'', True, CHR ''m'')]"

definition long_options :: "long_option list" where
  "long_options = map long_opt_entry long_table"

datatype parse_result =
    Parsed config nat
  | Exit int

text \<open>The switch: the new configuration, or the code of \<open>exit\<close> after the usage was printed.\<close>

definition arg_int :: "string option \<Rightarrow> fault + int" where
  "arg_int a = (case a of None \<Rightarrow> Inl Null_pointer | Some s \<Rightarrow> Inr (atoi s))"

definition set_option :: "int \<Rightarrow> string option \<Rightarrow> config \<Rightarrow> fault + (int + config)" where
  "set_option opt arg cfg =
     (let is = (\<lambda>c. opt = chr_int c);
          set_to = (\<lambda>c. Inr (Inr c)) in
      if is (CHR ''h'') then Inr (Inl 0)
      else if is (CHR ''d'') then set_to (cfg\<lparr>cfg_daemonise := True\<rparr>)
      else if is (CHR ''v'') then set_to (cfg\<lparr>cfg_debuglev := cfg_debuglev cfg + 1\<rparr>)
      else if is (CHR ''p'') then
        (case arg_int arg of Inl e \<Rightarrow> Inl e | Inr i \<Rightarrow> set_to (cfg\<lparr>cfg_port := i\<rparr>))
      else if is (CHR ''a'') then
        (case arg of None \<Rightarrow> Inl Null_pointer | Some s \<Rightarrow> set_to (cfg\<lparr>cfg_apname := s\<rparr>))
      else if is (CHR ''o'') then set_to (cfg\<lparr>cfg_output_name := arg\<rparr>)
      else if is (CHR ''k'') then set_to (cfg\<lparr>cfg_password := arg\<rparr>)
      else if is (CHR ''b'') then
        (case arg_int arg of Inl e \<Rightarrow> Inl e | Inr i \<Rightarrow> set_to (cfg\<lparr>cfg_start_fill := i\<rparr>))
      else if is (CHR ''B'') then set_to (cfg\<lparr>cfg_cmd_start := arg\<rparr>)
      else if is (CHR ''E'') then set_to (cfg\<lparr>cfg_cmd_stop := arg\<rparr>)
      else if is (CHR ''w'') then set_to (cfg\<lparr>cfg_cmd_blocking := True\<rparr>)
      else if is (CHR ''M'') then set_to (cfg\<lparr>cfg_meta_dir := arg\<rparr>)
      else if is (CHR ''P'') then set_to (cfg\<lparr>cfg_pidfile := arg\<rparr>)
      else if is (CHR ''l'') then set_to (cfg\<lparr>cfg_logfile := arg\<rparr>)
      else if is (CHR ''e'') then set_to (cfg\<lparr>cfg_errfile := arg\<rparr>)
      else if is (CHR ''m'') then set_to (cfg\<lparr>cfg_mdns_name := arg\<rparr>)
      else Inr (Inl 1))"

text \<open>Every call that returns an option gets closer to the end of the arguments.\<close>

definition to_read :: "string list \<Rightarrow> getopt_state \<Rightarrow> nat" where
  "to_read argv st =
     (if place st = [] then if optind st < length argv then Suc (length (argv ! optind st)) else 0
      else length (place st))"

lemma short_opt_reads:
  assumes "short_opt argv ostr s = Inr (st', opt)"
  shows "place s \<noteq> [] \<and>
    (optind st' = optind s \<and> place st' = tl (place s) \<and> tl (place s) \<noteq> [] \<or>
     optind s < optind st' \<and> place st' = [])"
proof (cases "place s")
  case Nil
  with assms show ?thesis by (simp add: short_opt_def)
next
  case (Cons c rest)
  with assms show ?thesis
    by (cases "strchr ostr c"; cases "rest = []") (auto simp: short_opt_def Let_def split: if_splits)
qed

lemma short_opt_progress:
  assumes "short_opt argv ostr s = Inr (st', opt)"
  shows "length argv - optind st' < length argv - optind s \<or>
    length argv - optind st' = length argv - optind s \<and> to_read argv st' < length (place s)"
proof -
  from short_opt_reads [OF assms] consider
    "optind st' = optind s" "place st' = tl (place s)" "tl (place s) \<noteq> []" "place s \<noteq> []"
    | "optind s < optind st'" "place st' = []" "place s \<noteq> []" by blast
  then show ?thesis by cases (auto simp: to_read_def)
qed

lemma long_opt_progress:
  assumes "long_opt argv ostr longopts p st = (st', opt)"
  shows "optind st < optind st' \<or> optind st' = optind st \<and> place st' = p"
  using assms
  by (cases "find_long longopts (takeWhile (\<lambda>c. c \<noteq> CHR ''='') p)";
      cases "dropWhile (\<lambda>c. c \<noteq> CHR ''='') p")
    (auto simp: long_opt_def finish_long_def Let_def simp del: dropWhile_eq_Nil_conv
      split: option.splits if_splits)

lemma getopt_progress:
  assumes "getopt_long argv ostr longopts st = Inr (st', opt)" "opt > 0"
  shows "length argv - optind st' < length argv - optind st \<or>
    length argv - optind st' = length argv - optind st \<and> to_read argv st' < to_read argv st"
proof (cases "place st = []")
  case False
  with assms(1) have "short_opt argv ostr st = Inr (st', opt)" by (simp add: getopt_long_def)
  from short_opt_progress [OF this] False show ?thesis by (auto simp: to_read_def)
next
  case True
  with assms have lt: "optind st < length argv" by (auto simp: getopt_long_def split: if_splits)
  with True assms obtain p where p: "argv ! optind st = CHR ''-'' # p"
    by (auto simp: getopt_long_def split: if_splits list.splits)
  show ?thesis
  proof (cases "\<exists>p'. p = CHR ''-'' # p'")
    case long: True
    then obtain p' where p': "p = CHR ''-'' # p'" by blast
    with True assms lt p have "long_opt argv ostr longopts p' st = (st', opt)"
      by (auto simp: getopt_long_def split: if_splits)
    moreover have "p' \<noteq> []" using True assms lt p p' by (auto simp: getopt_long_def)
    ultimately show ?thesis using long_opt_progress lt True p p' by (fastforce simp: to_read_def)
  next
    case False
    with True assms lt p have "short_opt argv ostr (st\<lparr>place := p\<rparr>) = Inr (st', opt)"
      by (auto simp: getopt_long_def split: if_splits list.splits)
    from short_opt_progress [OF this] show ?thesis using lt True p by (auto simp: to_read_def)
  qed
qed

function parse_loop :: "string list \<Rightarrow> getopt_state \<Rightarrow> config \<Rightarrow> fault + parse_result" where
  "parse_loop argv st cfg =
     (case getopt_long argv optstring long_options st of
        Inl e \<Rightarrow> Inl e
      | Inr (st', opt) \<Rightarrow>
          if opt > 0 then
            (case set_option opt (optarg st') cfg of
               Inl e \<Rightarrow> Inl e
             | Inr (Inl code) \<Rightarrow> Inr (Exit code)
             | Inr (Inr cfg) \<Rightarrow> parse_loop argv st' cfg)
          else Inr (Parsed cfg (optind st')))"
  by pat_completeness auto
termination
  by (relation "measures [\<lambda>(argv, st, cfg). length argv - optind st, \<lambda>(argv, st, cfg). to_read argv st]")
    (simp, clarsimp, drule (1) getopt_progress, linarith)

declare parse_loop.simps [simp del]

definition parse_options :: "string list \<Rightarrow> config \<Rightarrow> fault + parse_result" where
  "parse_options argv cfg = parse_loop argv getopt_initial cfg"

section \<open>Command lines as they are meant\<close>

text \<open>
  The ways to write options: a letter with its argument behind it or in the next word, a long name
  with \<open>=\<close> or with the next word, a word of letters without arguments, a long name without one.
\<close>

datatype item =
    Joined char string
  | Separate char string
  | Long_joined string char string
  | Long_separate string char string
  | Bundle string
  | Long_flag string char

fun item_words :: "item \<Rightarrow> string list" where
  "item_words (Joined c a) = [CHR ''-'' # c # a]"
| "item_words (Separate c a) = [[CHR ''-'', c], a]"
| "item_words (Long_joined n c a) = [''--'' @ n @ ''='' @ a]"
| "item_words (Long_separate n c a) = [''--'' @ n, a]"
| "item_words (Bundle cs) = [CHR ''-'' # cs]"
| "item_words (Long_flag n c) = [''--'' @ n]"

fun item_meaning :: "item \<Rightarrow> (char \<times> string option) list" where
  "item_meaning (Joined c a) = [(c, Some a)]"
| "item_meaning (Separate c a) = [(c, Some a)]"
| "item_meaning (Long_joined n c a) = [(c, Some a)]"
| "item_meaning (Long_separate n c a) = [(c, Some a)]"
| "item_meaning (Bundle cs) = map (\<lambda>c. (c, None)) cs"
| "item_meaning (Long_flag n c) = [(c, None)]"

definition letters_with :: string where
  "letters_with = ''PlepakobBEMm''"

definition letters_without :: string where
  "letters_without = ''hdvw''"

fun item_ok :: "item \<Rightarrow> bool" where
  "item_ok (Joined c a) \<longleftrightarrow> c \<in> set letters_with \<and> a \<noteq> []"
| "item_ok (Separate c a) \<longleftrightarrow> c \<in> set letters_with"
| "item_ok (Long_joined n c a) \<longleftrightarrow> (n, True, c) \<in> set long_table"
| "item_ok (Long_separate n c a) \<longleftrightarrow> (n, True, c) \<in> set long_table"
| "item_ok (Bundle cs) \<longleftrightarrow> cs \<noteq> [] \<and> set cs \<subseteq> set letters_without"
| "item_ok (Long_flag n c) \<longleftrightarrow> (n, False, c) \<in> set long_table"

text \<open>The settings in order, up to an \<open>exit\<close>.\<close>

fun apply_all :: "(char \<times> string option) list \<Rightarrow> config \<Rightarrow> fault + (int + config)" where
  "apply_all [] cfg = Inr (Inr cfg)"
| "apply_all ((c, a) # xs) cfg =
     (case set_option (chr_int c) a cfg of
        Inl e \<Rightarrow> Inl e
      | Inr (Inl code) \<Rightarrow> Inr (Inl code)
      | Inr (Inr cfg) \<Rightarrow> apply_all xs cfg)"

lemma letters_table:
  "\<forall>c \<in> set letters_with. case strchr optstring c of Some (x # y # u) \<Rightarrow> x = c \<and> y = CHR '':'' \<and>
     c \<noteq> CHR ''-'' \<and> 0 < chr_int c | _ \<Rightarrow> False"
  "\<forall>c \<in> set letters_without. case strchr optstring c of Some (x # y # u) \<Rightarrow> x = c \<and> y \<noteq> CHR '':'' \<and>
     c \<noteq> CHR ''-'' \<and> 0 < chr_int c | _ \<Rightarrow> False"
  by code_simp+

lemma letters_with_found:
  assumes "c \<in> set letters_with"
  obtains u where "strchr optstring c = Some (c # CHR '':'' # u)" "c \<noteq> CHR ''-''" "0 < chr_int c"
  using bspec [OF letters_table(1) assms] by (auto split: option.splits list.splits)

lemma letters_without_found:
  assumes "c \<in> set letters_without"
  obtains y u where "strchr optstring c = Some (c # y # u)" "y \<noteq> CHR '':''" "c \<noteq> CHR ''-''" "0 < chr_int c"
  using bspec [OF letters_table(2) assms] by (auto split: option.splits list.splits)

lemma long_found:
  assumes "(n, b, c) \<in> set long_table"
  shows "find_long long_options n = Some (long_opt_entry (n, b, c))"
    "CHR ''='' \<notin> set n" "n \<noteq> []" "0 < chr_int c"
proof -
  have t: "\<forall>(n, b, c) \<in> set long_table. find_long long_options n = Some (long_opt_entry (n, b, c)) \<and>
      CHR ''='' \<notin> set n \<and> n \<noteq> [] \<and> 0 < chr_int c"
    by code_simp
  show "find_long long_options n = Some (long_opt_entry (n, b, c))" "CHR ''='' \<notin> set n" "n \<noteq> []"
    "0 < chr_int c"
    using bspec [OF t assms] by simp_all
qed

section \<open>One item\<close>

abbreviation continue_with ::
    "fault + (int + config) \<Rightarrow> (config \<Rightarrow> fault + parse_result) \<Rightarrow> fault + parse_result" where
  "continue_with r k \<equiv>
     (case r of Inl e \<Rightarrow> Inl e | Inr (Inl code) \<Rightarrow> Inr (Exit code) | Inr (Inr cfg) \<Rightarrow> k cfg)"

lemma parse_one:
  assumes "getopt_long argv optstring long_options st = Inr (st', chr_int c)" "0 < chr_int c" "optarg st' = a"
  shows "parse_loop argv st cfg = continue_with (apply_all [(c, a)] cfg) (parse_loop argv st')"
  by (subst parse_loop.simps) (use assms in \<open>simp split: sum.split\<close>)

lemma getopt_joined:
  assumes "place st = []" "argv ! optind st = CHR ''-'' # c # a" "optind st < length argv"
    and "c \<in> set letters_with" "a \<noteq> []"
  shows "getopt_long argv optstring long_options st =
    Inr (st\<lparr>optarg := Some a, place := [], optind := optind st + 1\<rparr>, chr_int c)"
  by (rule letters_with_found [OF assms(4)]) (use assms in \<open>simp add: getopt_long_def short_opt_def\<close>)

lemma getopt_separate:
  assumes "place st = []" "argv ! optind st = [CHR ''-'', c]" "optind st + 1 < length argv"
    and "c \<in> set letters_with"
  shows "getopt_long argv optstring long_options st =
    Inr (st\<lparr>optarg := Some (argv ! (optind st + 1)), place := [], optind := optind st + 2\<rparr>, chr_int c)"
  by (rule letters_with_found [OF assms(4)]) (use assms in \<open>simp add: getopt_long_def short_opt_def\<close>)

lemma long_name_end:
  assumes "CHR ''='' \<notin> set n"
  shows "takeWhile (\<lambda>c. c \<noteq> CHR ''='') n = n" "dropWhile (\<lambda>c. c \<noteq> CHR ''='') n = []"
    "takeWhile (\<lambda>c. c \<noteq> CHR ''='') (n @ CHR ''='' # a) = n"
    "dropWhile (\<lambda>c. c \<noteq> CHR ''='') (n @ CHR ''='' # a) = CHR ''='' # a"
  using assms by (induction n) auto

lemma getopt_long_name:
  assumes "place st = []" "argv ! optind st = ''--'' @ n @ t" "optind st < length argv" "(n, b, c) \<in> set long_table"
  shows "getopt_long argv optstring long_options st = Inr (long_opt argv optstring long_options (n @ t) st)"
  using assms long_found(3) [OF assms(4)] by (simp add: getopt_long_def)

lemma getopt_long_joined:
  assumes "place st = []" "argv ! optind st = ''--'' @ n @ ''='' @ a" "optind st < length argv"
    and "(n, True, c) \<in> set long_table"
  shows "getopt_long argv optstring long_options st =
    Inr (st\<lparr>optarg := Some a, optind := optind st + 1, place := []\<rparr>, chr_int c)"
proof -
  have "long_opt argv optstring long_options (n @ ''='' @ a) st =
      (st\<lparr>optarg := Some a, optind := optind st + 1, place := []\<rparr>, chr_int c)"
    using long_name_end(3,4) [OF long_found(2) [OF assms(4)], of a] long_found(1) [OF assms(4)]
    by (simp add: long_opt_def Let_def finish_long_def long_opt_entry_def)
  then show ?thesis using getopt_long_name [OF assms] by simp
qed

lemma getopt_long_separate:
  assumes "place st = []" "argv ! optind st = ''--'' @ n" "optind st + 1 < length argv"
    and "(n, True, c) \<in> set long_table"
  shows "getopt_long argv optstring long_options st =
    Inr (st\<lparr>optind := optind st + 2, optarg := Some (argv ! (optind st + 1)), place := []\<rparr>, chr_int c)"
proof -
  have "long_opt argv optstring long_options n st =
      (st\<lparr>optind := optind st + 2, optarg := Some (argv ! (optind st + 1)), place := []\<rparr>, chr_int c)"
    using assms(3)
    unfolding long_opt_def Let_def long_name_end(1,2) [OF long_found(2) [OF assms(4)]] long_found(1) [OF assms(4)]
    by (simp add: finish_long_def long_opt_entry_def)
  then show ?thesis using getopt_long_name [of st argv n "[]"] assms by simp
qed

lemma getopt_long_flag:
  assumes "place st = []" "argv ! optind st = ''--'' @ n" "optind st < length argv"
    and "(n, False, c) \<in> set long_table"
  shows "getopt_long argv optstring long_options st =
    Inr (st\<lparr>optarg := None, optind := optind st + 1, place := []\<rparr>, chr_int c)"
proof -
  have "long_opt argv optstring long_options n st =
      (st\<lparr>optarg := None, optind := optind st + 1, place := []\<rparr>, chr_int c)"
    unfolding long_opt_def Let_def long_name_end(1,2) [OF long_found(2) [OF assms(4)]] long_found(1) [OF assms(4)]
    by (simp add: finish_long_def long_opt_entry_def)
  then show ?thesis using getopt_long_name [of st argv n "[]"] assms by simp
qed

lemma getopt_letter:
  assumes "place st = c # rest" "c \<in> set letters_without"
  shows "getopt_long argv optstring long_options st =
    Inr (st\<lparr>place := rest, optarg := None, optind := if rest = [] then optind st + 1 else optind st\<rparr>, chr_int c)"
  by (rule letters_without_found [OF assms(2)]) (use assms(1) in \<open>simp add: getopt_long_def short_opt_def\<close>)


lemma apply_all_append:
  "apply_all (xs @ ys) cfg =
    (case apply_all xs cfg of Inl e \<Rightarrow> Inl e | Inr (Inl code) \<Rightarrow> Inr (Inl code) | Inr (Inr cfg) \<Rightarrow> apply_all ys cfg)"
  by (induction xs cfg rule: apply_all.induct) (auto split: sum.splits)

lemma continue_with_append:
  "continue_with (apply_all (xs @ ys) cfg) k =
    continue_with (apply_all xs cfg) (\<lambda>cfg. continue_with (apply_all ys cfg) k)"
  by (auto simp: apply_all_append split: sum.splits)

lemma parse_bundle:
  assumes "place st = cs" "cs \<noteq> []" "set cs \<subseteq> set letters_without"
  shows "\<exists>st'. place st' = [] \<and> optind st' = optind st + 1 \<and>
    (\<forall>cfg. parse_loop argv st cfg = continue_with (apply_all (map (\<lambda>c. (c, None)) cs) cfg) (parse_loop argv st'))"
  using assms
proof (induction cs arbitrary: st)
  case (Cons c cs)
  obtain y u where c: "0 < chr_int c" by (rule letters_without_found [of c]) (use Cons.prems in auto)
  let ?st = "st\<lparr>place := cs, optarg := None, optind := if cs = [] then optind st + 1 else optind st\<rparr>"
  have one: "parse_loop argv st cfg = continue_with (apply_all [(c, None)] cfg) (parse_loop argv ?st)" for cfg
    by (rule parse_one [OF getopt_letter c]) (use Cons.prems in auto)
  show ?case
  proof (cases "cs = []")
    case True
    then show ?thesis using one by (intro exI [of _ ?st]) simp
  next
    case False
    then obtain st' where st': "place st' = []" "optind st' = optind st + 1"
      "\<And>cfg. parse_loop argv ?st cfg = continue_with (apply_all (map (\<lambda>c. (c, None)) cs) cfg) (parse_loop argv st')"
      using Cons.IH [of ?st] Cons.prems by auto
    have "parse_loop argv st cfg =
        continue_with (apply_all ([(c, None)] @ map (\<lambda>c. (c, None)) cs) cfg) (parse_loop argv st')" for cfg
      unfolding continue_with_append one st'(3) ..
    then show ?thesis using st'(1,2) by auto
  qed
qed simp

lemma parse_single:
  assumes "getopt_long argv optstring long_options st = Inr (st', chr_int c)" "0 < chr_int c"
    and "place st' = []" "optind st' = n" "optarg st' = a"
  shows "\<exists>st'. place st' = [] \<and> optind st' = n \<and>
    (\<forall>cfg. parse_loop argv st cfg = continue_with (apply_all [(c, a)] cfg) (parse_loop argv st'))"
  by (intro exI [of _ st'] conjI allI parse_one assms)

lemma parse_item:
  assumes "item_ok it" "place st = []" "argv = pre @ item_words it @ post" "optind st = length pre"
  shows "\<exists>st'. place st' = [] \<and> optind st' = length pre + length (item_words it) \<and>
    (\<forall>cfg. parse_loop argv st cfg = continue_with (apply_all (item_meaning it) cfg) (parse_loop argv st'))"
proof (cases it)
  case (Bundle cs)
  then obtain c rest where cs: "cs = c # rest" "c \<in> set letters_without" "set cs \<subseteq> set letters_without"
    using assms(1) by (cases cs) auto
  obtain y u where "c \<noteq> CHR ''-''" by (rule letters_without_found [OF cs(2)]) auto
  then have "getopt_long argv optstring long_options st = getopt_long argv optstring long_options (st\<lparr>place := cs\<rparr>)"
    using assms Bundle cs(1) by (simp add: getopt_long_def nth_append)
  then have "parse_loop argv st cfg = parse_loop argv (st\<lparr>place := cs\<rparr>) cfg" for cfg
    by (subst (1 2) parse_loop.simps) simp
  moreover obtain st' where "place st' = []" "optind st' = optind st + 1"
    "\<forall>cfg. parse_loop argv (st\<lparr>place := cs\<rparr>) cfg =
      continue_with (apply_all (map (\<lambda>c. (c, None)) cs) cfg) (parse_loop argv st')"
    using parse_bundle [of "st\<lparr>place := cs\<rparr>" cs argv] cs(1,3) by auto
  ultimately show ?thesis using assms(4) Bundle by auto
next
  case (Joined c a)
  then have c: "c \<in> set letters_with" using assms(1) by simp
  show ?thesis unfolding Joined item_meaning.simps
    by (rule letters_with_found [OF c], rule parse_single [OF getopt_joined [of st argv c a]])
      (use assms Joined in \<open>simp_all add: nth_append\<close>)
next
  case (Separate c a)
  then have c: "c \<in> set letters_with" using assms(1) by simp
  show ?thesis unfolding Separate item_meaning.simps
    by (rule letters_with_found [OF c], rule parse_single [OF getopt_separate [of st argv c]])
      (use assms Separate in \<open>simp_all add: nth_append\<close>)
next
  case (Long_joined n c a)
  show ?thesis unfolding Long_joined item_meaning.simps
    by (rule parse_single [OF getopt_long_joined [of st argv n a c] long_found(4) [of n True c]])
      (use assms Long_joined in \<open>simp_all add: nth_append\<close>)
next
  case (Long_separate n c a)
  show ?thesis unfolding Long_separate item_meaning.simps
    by (rule parse_single [OF getopt_long_separate [of st argv n c] long_found(4) [of n True c]])
      (use assms Long_separate in \<open>simp_all add: nth_append\<close>)
next
  case (Long_flag n c)
  show ?thesis unfolding Long_flag item_meaning.simps
    by (rule parse_single [OF getopt_long_flag [of st argv n c] long_found(4) [of n False c]])
      (use assms Long_flag in \<open>simp_all add: nth_append\<close>)
qed

text \<open>What ends the options: the end of the words, a word that is no option, or \<open>--\<close>.\<close>

definition options_end :: "string list \<Rightarrow> bool" where
  "options_end rest \<longleftrightarrow> rest = [] \<or> hd rest = ''--'' \<or> (\<forall>p. hd rest \<noteq> CHR ''-'' # p)"

definition end_words :: "string list \<Rightarrow> nat" where
  "end_words rest = (if rest \<noteq> [] \<and> hd rest = ''--'' then 1 else 0)"

lemma parse_end:
  assumes "options_end rest" "place st = []" "argv = pre @ rest" "optind st = length pre"
  shows "parse_loop argv st cfg = Inr (Parsed cfg (length pre + end_words rest))"
proof (cases rest)
  case Nil
  then show ?thesis using assms by (subst parse_loop.simps) (simp add: getopt_long_def end_words_def)
next
  case (Cons w ws)
  then show ?thesis
    using assms
    by (subst parse_loop.simps) (cases w; auto simp: getopt_long_def end_words_def options_end_def nth_append)
qed

lemma parse_items:
  assumes "\<forall>it \<in> set items. item_ok it" "options_end rest" "place st = []"
    and "argv = pre @ concat (map item_words items) @ rest" "optind st = length pre"
  shows "parse_loop argv st cfg = continue_with (apply_all (concat (map item_meaning items)) cfg)
    (\<lambda>cfg. Inr (Parsed cfg (length pre + length (concat (map item_words items)) + end_words rest)))"
  using assms
proof (induction items arbitrary: pre st cfg)
  case Nil
  then show ?case using parse_end [of rest st argv pre] by simp
next
  case (Cons it items)
  have a: "argv = pre @ item_words it @ concat (map item_words items) @ rest" "item_ok it" using Cons.prems by auto
  obtain st' where st': "place st' = []" "optind st' = length pre + length (item_words it)"
    "\<forall>cfg. parse_loop argv st cfg = continue_with (apply_all (item_meaning it) cfg) (parse_loop argv st')"
    using parse_item [OF a(2) Cons.prems(3) a(1) Cons.prems(5)] by blast
  have IH: "parse_loop argv st' cfg = continue_with (apply_all (concat (map item_meaning items)) cfg)
    (\<lambda>cfg. Inr (Parsed cfg (length (pre @ item_words it) + length (concat (map item_words items)) + end_words rest)))" for cfg
    by (rule Cons.IH) (use Cons.prems st'(1,2) in auto)
  show ?case
    by (simp only: list.map concat.simps continue_with_append spec [OF st'(3)] IH length_append add.assoc)
qed



end
