(* ===== verification/Startup.thy ===== *)
theory Startup
  imports Options Metadata
begin

text \<open>
  Starting and stopping: \<open>audio_get_output\<close> (audio.c), \<open>mdns_register\<close> (mdns.c), the handshake of the
  daemon with its parent (daemon.c), \<open>die\<close> and the hooks that run commands (common.c), \<open>main\<close> and
  \<open>shairport_shutdown\<close> (shairport.c). The backends and the operating system are arguments.
\<close>

section \<open>Choosing the output\<close>

text \<open>The arguments say which backends are configured; dummy and pipe always are.\<close>

definition outputs :: "bool \<Rightarrow> bool \<Rightarrow> bool \<Rightarrow> bool \<Rightarrow> string list" where
  "outputs sndio alsa pulse ao =
     (if sndio then [''sndio''] else []) @ (if alsa then [''alsa''] else []) @
     (if pulse then [''pulse''] else []) @ (if ao then [''ao''] else []) @ [''dummy'', ''pipe'']"

fun find_output :: "string list \<Rightarrow> string \<Rightarrow> string option" where
  "find_output [] name = None"
| "find_output (out # outs) name = (if strcasecmp_eq name out then Some out else find_output outs name)"

definition audio_get_output :: "string list \<Rightarrow> string option \<Rightarrow> string option" where
  "audio_get_output outs name =
     (case name of
        None \<Rightarrow> (case outs of out # _ \<Rightarrow> Some out | [] \<Rightarrow> None)
      | Some name \<Rightarrow> find_output outs name)"

section \<open>Advertising\<close>

text \<open>A backend is its name and the result of its \<open>mdns_register\<close>.\<close>

type_synonym mdns_backend = "string \<times> (string \<Rightarrow> int \<Rightarrow> int)"

definition upper_hex_digit :: "nat \<Rightarrow> char" where
  "upper_hex_digit n = ''0123456789ABCDEF'' ! n"

definition mdns_apname :: "bytes \<Rightarrow> string \<Rightarrow> string" where
  "mdns_apname hw_addr apname =
     concat (map (\<lambda>b. [upper_hex_digit (unat b div 16), upper_hex_digit (unat b mod 16)]) (take 6 hw_addr)) @
     ''@'' @ apname"

fun register_named :: "mdns_backend list \<Rightarrow> string \<Rightarrow> string \<Rightarrow> int \<Rightarrow> fault + string option" where
  "register_named [] wanted name port = Inl Out_of_bounds"
| "register_named ((n, reg) # bs) wanted name port =
     (if n \<noteq> wanted then register_named bs wanted name port
      else Inr (if reg name port \<ge> 0 then Some n else None))"

fun register_first :: "mdns_backend list \<Rightarrow> string \<Rightarrow> int \<Rightarrow> string option" where
  "register_first [] name port = None"
| "register_first ((n, reg) # bs) name port =
     (if reg name port \<ge> 0 then Some n else register_first bs name port)"

text \<open>
  The backend that is used. When the wanted one does not exist, \<open>warn\<close> gets a format without its
  argument and reads one that was not passed.
\<close>

definition mdns_register ::
    "mdns_backend list \<Rightarrow> string option \<Rightarrow> bytes \<Rightarrow> string \<Rightarrow> int \<Rightarrow> fault + string" where
  "mdns_register backends mdns_name hw_addr apname port =
     (let name = mdns_apname hw_addr apname;
          chosen = (case mdns_name of
            Some wanted \<Rightarrow> register_named backends wanted name port
          | None \<Rightarrow> Inr (register_first backends name port))
      in
        case chosen of
          Inl e \<Rightarrow> Inl e
        | Inr None \<Rightarrow> Inl (Die ''Could not establish mDNS advertisement!'')
        | Inr (Some n) \<Rightarrow> Inr n)"

section \<open>The daemon and its parent\<close>

text \<open>
  What the child does before the parent stops waiting: it gets ready, dies with a message, or
  ends without one.
\<close>

datatype child_event =
    Ready
  | Died string
  | Gone

record daemon_state =
  daemon_pipe :: bool
  lock_held :: bool
  pipe_text :: string

definition daemon_ready :: "daemon_state \<Rightarrow> daemon_state" where
  "daemon_ready d =
     (if daemon_pipe d then d\<lparr>pipe_text := pipe_text d @ [NUL], daemon_pipe := False\<rparr> else d)"

definition daemon_fail :: "string \<Rightarrow> daemon_state \<Rightarrow> daemon_state" where
  "daemon_fail msg d = (if daemon_pipe d then d\<lparr>pipe_text := pipe_text d @ msg\<rparr> else d)"

definition daemon_exit :: "daemon_state \<Rightarrow> daemon_state" where
  "daemon_exit d = d\<lparr>lock_held := False\<rparr>"

record lock_env =
  open_lock_ok :: bool
  lock_ok :: bool

text \<open>The child's half of \<open>daemon_init\<close>.\<close>

definition daemon_child :: "lock_env \<Rightarrow> string option \<Rightarrow> fault + daemon_state" where
  "daemon_child env pidfile =
     (let d = \<lparr>daemon_pipe = True, lock_held = False, pipe_text = ''''\<rparr> in
      case pidfile of
        None \<Rightarrow> Inr d
      | Some _ \<Rightarrow>
          if \<not> open_lock_ok env then Inl (Die ''Could not open pidfile'')
          else if \<not> lock_ok env then Inl (Die ''Could not lock pidfile. Is an other instance running ?'')
          else Inr (d\<lparr>lock_held := True\<rparr>))"

text \<open>
  The parent's half: its exit code, from what \<open>read\<close> gave. When nothing arrived, the first byte of
  the buffer is what the stack held, \<open>junk\<close>.
\<close>

definition daemon_parent :: "char \<Rightarrow> string option \<Rightarrow> int" where
  "daemon_parent junk received =
     (case received of
        None \<Rightarrow> 1
      | Some text \<Rightarrow>
          let buf = take 64 text @ [junk] in
          if hd buf \<noteq> NUL then 1 else 0)"

section \<open>Shutting down\<close>

datatype exit_event =
    Mdns_unregister
  | Rtsp_shutdown_stream
  | Output_deinit
  | Pidfile_removed

record server =
  shutting_down :: bool
  mdns_chosen :: "string option"
  output_chosen :: "string option"
  daemon :: daemon_state

text \<open>The result is the server, what is done and the exit code; \<open>None\<close> when the function returns.\<close>

definition shairport_shutdown :: "int \<Rightarrow> server \<Rightarrow> server \<times> exit_event list \<times> int option" where
  "shairport_shutdown retval s =
     (if shutting_down s then (s, [], None)
      else
        (s\<lparr>shutting_down := True, daemon := daemon_exit (daemon s)\<rparr>,
         (if mdns_chosen s \<noteq> None then [Mdns_unregister] else []) @ [Rtsp_shutdown_stream] @
         (if output_chosen s \<noteq> None then [Output_deinit] else []) @
         (if lock_held (daemon s) then [Pidfile_removed] else []),
         Some retval))"

definition die :: "bool \<Rightarrow> string \<Rightarrow> server \<Rightarrow> server \<times> exit_event list \<times> int option" where
  "die daemonise msg s =
     shairport_shutdown 1 (if daemonise then s\<lparr>daemon := daemon_fail msg (daemon s)\<rparr> else s)"

text \<open>SIGCHLD: only the death of the mDNS helper matters. \<open>None\<close> is the return from the handler.\<close>

fun sig_child :: "bool \<Rightarrow> int \<Rightarrow> int list \<Rightarrow> server \<Rightarrow> (server \<times> exit_event list \<times> int option) option" where
  "sig_child daemonise mdns_pid [] s = None"
| "sig_child daemonise mdns_pid (pid # pids) s =
     (if pid = mdns_pid \<and> \<not> shutting_down s
      then Some (die daemonise ''MDNS child process died unexpectedly!'' s)
      else sig_child daemonise mdns_pid pids s)"

section \<open>Commands\<close>

text \<open>
  The hooks: \<open>fork_ret\<close> is what \<open>fork\<close> returns in this process. The result is the command this
  process runs, if any, and whether the process then ends with \<open>exit(0)\<close>.
\<close>

definition run_command :: "string option \<Rightarrow> bool \<Rightarrow> int \<Rightarrow> string option \<times> bool" where
  "run_command cmd cmd_blocking fork_ret =
     (case cmd of
        None \<Rightarrow> (None, False)
      | Some c \<Rightarrow>
          if \<not> cmd_blocking \<and> fork_ret \<noteq> 0 then (None, False)
          else (Some c, \<not> cmd_blocking))"

definition command_start :: "config \<Rightarrow> int \<Rightarrow> string option \<times> bool" where
  "command_start cfg fork_ret = run_command (cfg_cmd_start cfg) (cfg_cmd_blocking cfg) fork_ret"

definition command_stop :: "config \<Rightarrow> int \<Rightarrow> string option \<times> bool" where
  "command_stop cfg fork_ret = run_command (cfg_cmd_stop cfg) (cfg_cmd_blocking cfg) fork_ret"

section \<open>main\<close>

record main_env =
  env_outputs :: "string list"
  env_md5 :: "string \<Rightarrow> bytes"
  env_lock :: lock_env
  env_log_ok :: bool
  env_err_ok :: bool
  env_fifo :: fifo_env

record started =
  st_cfg :: config
  st_output :: string
  st_output_args :: "string list"
  st_hw_addr :: bytes
  st_meta :: meta_state
  st_server :: server
  st_stdout :: "string option"
  st_stderr :: "string option"

text \<open>Where the standard output and the error output go; \<open>None\<close> is where they were.\<close>

definition log_setup :: "main_env \<Rightarrow> config \<Rightarrow> fault + (string option \<times> string option)" where
  "log_setup env cfg =
     (case (case cfg_logfile cfg of
              None \<Rightarrow> Inr (None, None)
            | Some f \<Rightarrow>
                if \<not> env_log_ok env then Inl (Die ''Could not open logfile'')
                else Inr (Some f, if cfg_errfile cfg = None then Some f else None)) of
        Inl e \<Rightarrow> Inl e
      | Inr (out, err) \<Rightarrow>
          (case cfg_errfile cfg of
             None \<Rightarrow> Inr (out, err)
           | Some f \<Rightarrow>
               if \<not> env_err_ok env then Inl (Die ''Could not open logfile'')
               else Inr (out, Some f)))"

text \<open>\<open>main\<close> of the process that goes on, up to the listen loop; \<open>Inl\<close> of the result is \<open>exit\<close>.\<close>

definition main_setup :: "main_env \<Rightarrow> string \<Rightarrow> string list \<Rightarrow> fault + (int + started)" where
  "main_setup env hostname argv =
     (case parse_options argv (main_defaults hostname) of
        Inl e \<Rightarrow> Inl e
      | Inr (Exit code) \<Rightarrow> Inr (Inl code)
      | Inr (Parsed cfg audio_arg) \<Rightarrow>
          if length (cfg_apname cfg) > 50 then Inl (Die ''Supplied name too long (max 50 characters)'')
          else
            case (if cfg_daemonise cfg then daemon_child (env_lock env) (cfg_pidfile cfg)
                  else Inr \<lparr>daemon_pipe = False, lock_held = False, pipe_text = ''''\<rparr>) of
              Inl e \<Rightarrow> Inl e
            | Inr d \<Rightarrow>
                case log_setup env cfg of
                  Inl e \<Rightarrow> Inl e
                | Inr (out, err) \<Rightarrow>
                    case audio_get_output (env_outputs env) (cfg_output_name cfg) of
                      None \<Rightarrow> Inl (Die ''Invalid audio output specified!'')
                    | Some output \<Rightarrow>
                        let hw_addr = take 6 (env_md5 env (cfg_apname cfg)) in
                        case (if cfg_meta_dir cfg \<noteq> None
                              then metadata_open ((env_fifo env)\<lparr>meta_dir := cfg_meta_dir cfg\<rparr>) meta_initial
                              else Inr meta_initial) of
                          Inl e \<Rightarrow> Inl e
                        | Inr meta \<Rightarrow>
                            Inr (Inr \<lparr>st_cfg = cfg, st_output = output, st_output_args = drop audio_arg argv,
                              st_hw_addr = hw_addr, st_meta = meta,
                              st_server = \<lparr>shutting_down = False, mdns_chosen = None,
                                output_chosen = Some output, daemon = d\<rparr>,
                              st_stdout = out, st_stderr = err\<rparr>))"

text \<open>\<open>shairport_startup_complete\<close> tells the parent.\<close>

definition startup_complete :: "started \<Rightarrow> started" where
  "startup_complete st =
     (if cfg_daemonise (st_cfg st)
      then st\<lparr>st_server := (st_server st)\<lparr>daemon := daemon_ready (daemon (st_server st))\<rparr>\<rparr> else st)"

section \<open>The properties\<close>

lemma main_setup_name:
  "main_setup env hostname argv = Inr (Inr st) \<Longrightarrow>
    length (cfg_apname (st_cfg st)) \<le> 50 \<and> st_hw_addr st = take 6 (env_md5 env (cfg_apname (st_cfg st)))"
  by (auto simp: main_setup_def Let_def split: sum.splits parse_result.splits if_splits option.splits prod.splits)

lemma length_mdns_apname: "length (mdns_apname hw apname) = 2 * length (take 6 hw) + 1 + length apname"
  by (simp add: mdns_apname_def length_concat comp_def sum_list_triv)

lemma register_named_result:
  "register_named bs wanted name port = Inr (Some n) \<Longrightarrow> n = wanted \<and> (\<exists>reg. (n, reg) \<in> set bs \<and> 0 \<le> reg name port)"
  by (induction bs wanted name port rule: register_named.induct) (auto split: if_splits)

lemma register_first_result:
  "register_first bs name port = Some n \<Longrightarrow>
    \<exists>bs1 reg bs2. bs = bs1 @ (n, reg) # bs2 \<and> 0 \<le> reg name port \<and> (\<forall>(m, r) \<in> set bs1. r name port < 0)"
proof (induction bs)
  case (Cons b bs)
  obtain m r where b: "b = (m, r)" by (cases b)
  show ?case
  proof (cases "r name port \<ge> 0")
    case True
    with Cons.prems show ?thesis by (intro exI [of _ "[]"]) (auto simp: b)
  next
    case False
    with Cons obtain bs1 reg bs2 where "bs = bs1 @ (n, reg) # bs2" "0 \<le> reg name port"
      "\<forall>(m, r) \<in> set bs1. r name port < 0" by (auto simp: b)
    with False show ?thesis by (intro exI [of _ "b # bs1"]) (auto simp: b)
  qed
qed simp

text \<open>
  After the checks of \<open>main\<close> the name that is advertised, the hardware address in hexadecimal, an
  at sign and the name of the server, has at most the 63 characters of an mDNS label, whatever
  the command line; without a wanted backend the first one that accepts the name is used, with one
  only that one, and without any the program dies.
\<close>

theorem advertised_name_fits:
  assumes "main_setup env hostname argv = Inr (Inr st)"
  shows "length (mdns_apname (st_hw_addr st) (cfg_apname (st_cfg st))) \<le> 63 \<and>
    (case mdns_register backends (cfg_mdns_name (st_cfg st)) (st_hw_addr st) (cfg_apname (st_cfg st)) port of
       Inr n \<Rightarrow>
         (\<exists>bs1 reg bs2. backends = bs1 @ (n, reg) # bs2 \<and>
           0 \<le> reg (mdns_apname (st_hw_addr st) (cfg_apname (st_cfg st))) port \<and>
           (cfg_mdns_name (st_cfg st) = Some n \<or>
            cfg_mdns_name (st_cfg st) = None \<and>
              (\<forall>(m, r) \<in> set bs1. r (mdns_apname (st_hw_addr st) (cfg_apname (st_cfg st))) port < 0)))
     | Inl e \<Rightarrow> cfg_mdns_name (st_cfg st) = None \<longrightarrow>
         (\<forall>(m, r) \<in> set backends. r (mdns_apname (st_hw_addr st) (cfg_apname (st_cfg st))) port < 0))"
proof -
  let ?name = "mdns_apname (st_hw_addr st) (cfg_apname (st_cfg st))"
  have len: "length ?name \<le> 63" using main_setup_name [OF assms] by (auto simp: length_mdns_apname min_def)
  have none: "\<forall>(m, r) \<in> set bs. r ?name port < 0" if "register_first bs ?name port = None" for bs
    using that by (induction bs) (auto split: if_splits)
  show ?thesis
  proof (cases "cfg_mdns_name (st_cfg st)")
    case None
    then show ?thesis
      using len none [of backends] register_first_result [of backends ?name port]
      by (cases "register_first backends ?name port") (auto simp: mdns_register_def)
  next
    case (Some wanted)
    have "\<exists>bs1 reg bs2. backends = bs1 @ (n, reg) # bs2 \<and> 0 \<le> reg ?name port" if "n = wanted"
      "register_named backends wanted ?name port = Inr (Some n)" for n
      using register_named_result [OF that(2)] by (metis split_list)
    then show ?thesis
      using len Some register_named_result [of backends wanted ?name port]
      by (auto simp: mdns_register_def split: sum.splits option.splits)
  qed
qed

theorem advertised_name_fits_witness:
  "\<exists>st. main_setup \<lparr>env_outputs = outputs False False False False, env_md5 = \<lambda>s. replicate 16 0xAB,
      env_lock = \<lparr>open_lock_ok = True, lock_ok = True\<rparr>, env_log_ok = True, env_err_ok = True,
      env_fifo = \<lparr>meta_dir = None, mkfifo_fails = False, mkfifo_exists = False, open_fails = False,
        has_reader = False\<rparr>\<rparr> ''host'' [''shairport'', ''-a'', ''Kitchen''] = Inr (Inr st) \<and>
    length (mdns_apname (st_hw_addr st) (cfg_apname (st_cfg st))) \<le> 63 \<and>
    cfg_apname (st_cfg st) = ''Kitchen''"
proof -
  let ?env = "\<lparr>env_outputs = outputs False False False False, env_md5 = \<lambda>s. replicate 16 0xAB,
      env_lock = \<lparr>open_lock_ok = True, lock_ok = True\<rparr>, env_log_ok = True, env_err_ok = True,
      env_fifo = \<lparr>meta_dir = None, mkfifo_fails = False, mkfifo_exists = False, open_fails = False,
        has_reader = False\<rparr>\<rparr>"
  let ?items = "[Separate (CHR ''a'') ''Kitchen'']"
  have ok: "\<forall>it \<in> set ?items. item_ok it" by code_simp
  have a: "apply_all (concat (map item_meaning ?items)) (main_defaults ''host'') =
      Inr (Inr ((main_defaults ''host'')\<lparr>cfg_apname := ''Kitchen''\<rparr>))"
    by code_simp
  have "parse_options [''shairport'', ''-a'', ''Kitchen''] (main_defaults ''host'') =
      Inr (Parsed ((main_defaults ''host'')\<lparr>cfg_apname := ''Kitchen''\<rparr>) 3)"
    using parse_items [OF ok _ _ refl, of "[]" getopt_initial "[''shairport'']" "main_defaults ''host''"] a
    by (simp add: parse_options_def options_end_def getopt_initial_def end_words_def)
  then have m: "main_setup ?env ''host'' [''shairport'', ''-a'', ''Kitchen''] = Inr (Inr
      \<lparr>st_cfg = (main_defaults ''host'')\<lparr>cfg_apname := ''Kitchen''\<rparr>, st_output = ''dummy'', st_output_args = [],
       st_hw_addr = replicate 6 0xAB, st_meta = meta_initial,
       st_server = \<lparr>shutting_down = False, mdns_chosen = None, output_chosen = Some ''dummy'',
         daemon = \<lparr>daemon_pipe = False, lock_held = False, pipe_text = ''''\<rparr>\<rparr>,
       st_stdout = None, st_stderr = None\<rparr>)"
    by (simp add: main_setup_def main_defaults_def log_setup_def audio_get_output_def outputs_def)
  show ?thesis
    using advertised_name_fits [OF m, of "[]" 5002] m by auto
qed

text \<open>What is in the pipe when the parent reads.\<close>

fun child_text :: "child_event \<Rightarrow> daemon_state \<Rightarrow> string" where
  "child_text Ready d = pipe_text (daemon_ready d)"
| "child_text (Died msg) d = pipe_text (daemon_fail msg d)"
| "child_text Gone d = pipe_text d"

text \<open>
  The parent of the daemon exits with 0 when the child got ready and with 1 when it died with a
  message; when it ended without one, the parent's answer is whatever its stack held.
\<close>

theorem parent_learns_outcome:
  assumes "daemon_child env pidfile = Inr d"
  shows "daemon_parent junk (Some (child_text ev d)) =
    (case ev of Ready \<Rightarrow> 0
     | Died msg \<Rightarrow> if msg = '''' then if junk = NUL then 0 else 1 else if hd msg = NUL then 0 else 1
     | Gone \<Rightarrow> if junk = NUL then 0 else 1)"
proof -
  have d: "daemon_pipe d" "pipe_text d = ''''"
    using assms by (auto simp: daemon_child_def Let_def split: option.splits if_splits)
  show ?thesis
  proof (cases ev)
    case (Died msg)
    then show ?thesis using d by (cases msg) (simp_all add: daemon_parent_def daemon_fail_def)
  qed (use d in \<open>simp_all add: daemon_parent_def daemon_ready_def\<close>)
qed

theorem parent_learns_outcome_witness:
  "daemon_parent NUL (Some (child_text (Died ''could not bind any listen sockets!'')
     \<lparr>daemon_pipe = True, lock_held = True, pipe_text = ''''\<rparr>)) = 1"
proof -
  have "daemon_child \<lparr>open_lock_ok = True, lock_ok = True\<rparr> (Some ''pid'') =
      Inr \<lparr>daemon_pipe = True, lock_held = True, pipe_text = ''''\<rparr>"
    by (simp add: daemon_child_def)
  from parent_learns_outcome [OF this, of NUL "Died ''could not bind any listen sockets!''"] show ?thesis by simp
qed

end
