(* ===== verification/Mdns_Choice.thy ===== *)
theory Mdns_Choice
  imports Mdns_Backends Dns_Lifetime Startup
begin

text \<open>
  The choice of mdns.c with the states of the real backends: \<open>mdns_register\<close> tries them in turn, each
  changing the state it has, and \<open>mdns_unregister\<close> withdraws the one that was chosen. The contract a
  backend owes mdns.c is a locale that all five interpret. \<open>Startup\<close> models the same functions for any
  backends without state.
\<close>

section \<open>The backends over one state\<close>

record mdns_world =
  w_external :: external
  w_dns_sd :: "nat option"
  w_avahi :: avahi
  w_tiny :: "mdnsd option"

definition world_initial :: mdns_world where
  "world_initial = \<lparr>w_external = external_initial, w_dns_sd = None, w_avahi = avahi_initial, w_tiny = None\<rparr>"

text \<open>
  Who works at advertising: a child process, mDNSResponder, a client of Avahi with its poll object, the
  own responder. \<open>avahi_unregister\<close> stops the poll object and frees neither the client nor the group: what
  the daemon of Avahi publishes ends with the program.
\<close>

datatype worker = Child | Responder_library | Avahi_client | Own_responder

definition at_work :: "mdns_world \<Rightarrow> worker set" where
  "at_work w =
     (if mdns_pid (w_external w) \<noteq> 0 then {Child} else {}) \<union>
     (if w_dns_sd w \<noteq> None then {Responder_library} else {}) \<union>
     (if av_client (w_avahi w) \<and> av_tpoll (w_avahi w) then {Avahi_client} else {}) \<union>
     (if w_tiny w \<noteq> None then {Own_responder} else {})"

text \<open>The result of \<open>register\<close> with the part of the state it changed put back.\<close>

definition put_state :: "('s \<Rightarrow> mdns_world) \<Rightarrow> fault + int \<times> 's \<Rightarrow> fault + int \<times> mdns_world" where
  "put_state back r = bind_fault r (\<lambda>(ret, s). Inr (ret, back s))"

definition register_avahi ::
    "bool \<times> avahi_event list option \<times> int \<times> bool \<Rightarrow> string \<Rightarrow> int \<Rightarrow> mdns_world \<Rightarrow> fault + int \<times> mdns_world" where
  "register_avahi a n p w =
     (case a of (poll_new, client_new, poll_start, pw) \<Rightarrow>
        put_state (\<lambda>s. w\<lparr>w_avahi := s\<rparr>) (avahi_register poll_new client_new poll_start pw n p (w_avahi w)))"

definition register_dns_sd ::
    "(nat \<Rightarrow> bytes option) \<times> (string \<Rightarrow> u16 \<Rightarrow> bytes \<Rightarrow> int \<times> nat) \<times> bool \<Rightarrow> string \<Rightarrow> int \<Rightarrow> mdns_world
       \<Rightarrow> fault + int \<times> mdns_world" where
  "register_dns_sd a n p w =
     (case a of (block, register, pw) \<Rightarrow>
        put_state (\<lambda>s. w\<lparr>w_dns_sd := s\<rparr>) (mdns_dns_sd_register block register pw n p (w_dns_sd w)))"

definition register_external_avahi ::
    "exec_answer \<times> exec_answer \<times> bool \<Rightarrow> string \<Rightarrow> int \<Rightarrow> mdns_world \<Rightarrow> fault + int \<times> mdns_world" where
  "register_external_avahi a n p w =
     (case a of (x1, x2, pw) \<Rightarrow>
        put_state (\<lambda>s. w\<lparr>w_external := s\<rparr>) (mdns_external_avahi_register x1 x2 pw p n (w_external w)))"

definition register_external_dns_sd ::
    "exec_answer \<times> bool \<Rightarrow> string \<Rightarrow> int \<Rightarrow> mdns_world \<Rightarrow> fault + int \<times> mdns_world" where
  "register_external_dns_sd a n p w =
     (case a of (x, pw) \<Rightarrow>
        put_state (\<lambda>s. w\<lparr>w_external := s\<rparr>) (mdns_external_dns_sd_register x pw p n (w_external w)))"

text \<open>
  An own responder that was started stays in \<open>svr\<close> and runs, also when no interface is found for it and
  \<open>-1\<close> is returned.
\<close>

definition register_tiny ::
    "bool \<times> u8 \<times> string \<times> ifaddrs list option \<times> bool \<Rightarrow> string \<Rightarrow> int \<Rightarrow> mdns_world \<Rightarrow> fault + int \<times> mdns_world" where
  "register_tiny a n p w =
     (case a of (ok, junk, host, ifas, pw) \<Rightarrow>
        bind_fault (mdns_tinysvcmdns_register ok junk host ifas pw n (word_of_int p))
          (\<lambda>r. case r of None \<Rightarrow> Inr (-1, w\<lparr>w_tiny := if ok then Some mdnsd_start else None\<rparr>)
           | Some svr \<Rightarrow> Inr (0, w\<lparr>w_tiny := Some svr\<rparr>)))"

definition unregister_external :: "mdns_world \<Rightarrow> mdns_world" where
  "unregister_external w = w\<lparr>w_external := kill_mdns_child (w_external w)\<rparr>"

definition unregister_dns_sd :: "mdns_world \<Rightarrow> mdns_world" where
  "unregister_dns_sd w = w\<lparr>w_dns_sd := mdns_dns_sd_unregister (w_dns_sd w)\<rparr>"

definition unregister_avahi :: "mdns_world \<Rightarrow> mdns_world" where
  "unregister_avahi w = w\<lparr>w_avahi := avahi_unregister (w_avahi w)\<rparr>"

definition unregister_tiny :: "mdns_world \<Rightarrow> mdns_world" where
  "unregister_tiny w = w\<lparr>w_tiny := snd (mdns_tinysvcmdns_unregister (w_tiny w))\<rparr>"

section \<open>mdns.c\<close>

record backend =
  b_name :: string
  b_register :: "string \<Rightarrow> int \<Rightarrow> mdns_world \<Rightarrow> fault + int \<times> mdns_world"
  b_unregister :: "mdns_world \<Rightarrow> mdns_world"

fun try_named :: "backend list \<Rightarrow> string \<Rightarrow> string \<Rightarrow> int \<Rightarrow> mdns_world \<Rightarrow> fault + backend option \<times> mdns_world" where
  "try_named [] wanted n p w = Inl Out_of_bounds"
| "try_named (b # bs) wanted n p w =
     (if b_name b \<noteq> wanted then try_named bs wanted n p w
      else bind_fault (b_register b n p w) (\<lambda>(err, w). Inr (if err \<ge> 0 then Some b else None, w)))"

fun try_all :: "backend list \<Rightarrow> string \<Rightarrow> int \<Rightarrow> mdns_world \<Rightarrow> fault + backend option \<times> mdns_world" where
  "try_all [] n p w = Inr (None, w)"
| "try_all (b # bs) n p w =
     bind_fault (b_register b n p w) (\<lambda>(err, w). if err \<ge> 0 then Inr (Some b, w) else try_all bs n p w)"

text \<open>The wanted backend, or the first that accepts; the warning for a wrong name reads an argument that is not there.\<close>

definition mdns_register_run ::
    "backend list \<Rightarrow> string option \<Rightarrow> bytes \<Rightarrow> string \<Rightarrow> int \<Rightarrow> mdns_world \<Rightarrow> fault + backend \<times> mdns_world" where
  "mdns_register_run backends mdns_name hw_addr apname port w =
     (let n = mdns_apname hw_addr apname in
      bind_fault (case mdns_name of
          Some wanted \<Rightarrow> try_named backends wanted n port w
        | None \<Rightarrow> try_all backends n port w)
        (\<lambda>(chosen, w). case chosen of
           None \<Rightarrow> Inl (Die ''Could not establish mDNS advertisement!'')
         | Some b \<Rightarrow> Inr (b, w)))"

definition mdns_unregister_run :: "backend option \<Rightarrow> mdns_world \<Rightarrow> mdns_world" where
  "mdns_unregister_run chosen w = (case chosen of None \<Rightarrow> w | Some b \<Rightarrow> b_unregister b w)"

section \<open>The contract\<close>

text \<open>What mdns.c relies on for a backend that is chosen, and for one that fails before another is tried.\<close>

definition keeps_contract :: "backend \<Rightarrow> bool" where
  "keeps_contract b \<longleftrightarrow>
     (\<forall>n p w r w'. at_work w = {} \<longrightarrow> b_register b n p w = Inr (r, w') \<longrightarrow> 0 \<le> r \<longrightarrow>
        (\<exists>s. at_work w' = {s}) \<and> at_work (b_unregister b w') = {})"

definition fails_clean :: "backend \<Rightarrow> bool" where
  "fails_clean b \<longleftrightarrow>
     (\<forall>n p w r w'. at_work w = {} \<longrightarrow> b_register b n p w = Inr (r, w') \<longrightarrow> r < 0 \<longrightarrow> at_work w' = {})"

text \<open>
  What a register function owes when nobody is at work yet. In the locale \<open>good\<close> and \<open>clean\<close> are the
  answers of the outside under which a backend that succeeds, and one that fails, keeps its word;
  \<open>who\<close> is what it puts to work.
\<close>

locale mdns_contract =
  fixes who :: worker and good clean :: "'a \<Rightarrow> bool"
    and register :: "'a \<Rightarrow> string \<Rightarrow> int \<Rightarrow> mdns_world \<Rightarrow> fault + int \<times> mdns_world"
    and unregister :: "mdns_world \<Rightarrow> mdns_world"
  assumes registers: "good a \<Longrightarrow> at_work w = {} \<Longrightarrow> register a n p w = Inr (r, w') \<Longrightarrow> 0 \<le> r \<Longrightarrow> at_work w' = {who}"
    and gives_up: "clean a \<Longrightarrow> at_work w = {} \<Longrightarrow> register a n p w = Inr (r, w') \<Longrightarrow> r < 0 \<Longrightarrow> at_work w' = {}"
    and withdraws: "at_work w = {who} \<Longrightarrow> at_work (unregister w) = {}"
begin

lemma contract:
  "good a \<Longrightarrow> keeps_contract \<lparr>b_name = bn, b_register = register a, b_unregister = unregister\<rparr>"
  unfolding keeps_contract_def using registers withdraws by fastforce

lemma clean_failure:
  "clean a \<Longrightarrow> fails_clean \<lparr>b_name = bn, b_register = register a, b_unregister = unregister\<rparr>"
  unfolding fails_clean_def using gives_up by fastforce

end

lemma idle:
  "at_work w = {} \<longleftrightarrow> mdns_pid (w_external w) = 0 \<and> w_dns_sd w = None \<and>
    \<not> (av_client (w_avahi w) \<and> av_tpoll (w_avahi w)) \<and> w_tiny w = None"
  by (simp add: at_work_def)

lemma put_state_Inr: "put_state back r = Inr (ret, w) \<longleftrightarrow> (\<exists>s. r = Inr (ret, s) \<and> w = back s)"
  by (cases r) (auto simp: put_state_def)

text \<open>The same by one set, and a child that was started has a process number.\<close>

definition outcome :: "worker \<Rightarrow> int \<Rightarrow> mdns_world \<Rightarrow> bool" where
  "outcome who r w' \<longleftrightarrow> at_work w' = (if r < 0 then {} else {who})"

definition real_child :: "exec_answer \<Rightarrow> bool" where
  "real_child x \<longleftrightarrow> x_fork x \<noteq> 0"

lemma fork_execvp_pid:
  "fork_execvp x argv st = (pid, st') \<Longrightarrow> mdns_pid st' = mdns_pid st \<and> (real_child x \<longrightarrow> pid \<noteq> 0)"
  by (auto simp: fork_execvp_def real_child_def Let_def split: option.splits prod.splits if_splits)

lemma external_avahi_pid:
  assumes "mdns_external_avahi_register x1 x2 pw p n st = Inr (r, st')" "mdns_pid st = 0" "real_child x1" "real_child x2"
  shows "if r < 0 then mdns_pid st' = 0 else mdns_pid st' \<noteq> 0"
  using assms fork_execvp_pid
  by (fastforce simp: mdns_external_avahi_register_def Let_def split: prod.splits if_splits elim!: bind_fault_Inr)

lemma external_dns_sd_pid:
  assumes "mdns_external_dns_sd_register x pw p n st = Inr (r, st')" "mdns_pid st = 0" "real_child x"
  shows "if r < 0 then mdns_pid st' = 0 else mdns_pid st' \<noteq> 0"
  using assms fork_execvp_pid
  by (fastforce simp: mdns_external_dns_sd_register_def Let_def split: prod.splits if_splits elim!: bind_fault_Inr)

lemma outcome_external:
  assumes "at_work w = {}" "if r < 0 then mdns_pid st = 0 else mdns_pid st \<noteq> 0"
  shows "outcome Child r (w\<lparr>w_external := st\<rparr>)"
proof -
  have "w_dns_sd w = None" "\<not> (av_client (w_avahi w) \<and> av_tpoll (w_avahi w))" "w_tiny w = None"
    using assms(1) idle by blast+
  then show ?thesis using assms(2) by (auto simp: outcome_def at_work_def)
qed

lemma register_external_avahi_outcome:
  assumes "real_child x1" "real_child x2" "at_work w = {}" "register_external_avahi (x1, x2, pw) n p w = Inr (r, w')"
  shows "outcome Child r w'"
proof -
  obtain st where st: "mdns_external_avahi_register x1 x2 pw p n (w_external w) = Inr (r, st)" "w' = w\<lparr>w_external := st\<rparr>"
    using assms(4) by (auto simp: register_external_avahi_def put_state_Inr)
  have "mdns_pid (w_external w) = 0" using assms(3) idle by blast
  then show ?thesis
    unfolding st(2) by (intro outcome_external [OF assms(3)] external_avahi_pid [OF st(1) _ assms(1,2)])
qed

lemma register_external_dns_sd_outcome:
  assumes "real_child x" "at_work w = {}" "register_external_dns_sd (x, pw) n p w = Inr (r, w')"
  shows "outcome Child r w'"
proof -
  obtain st where st: "mdns_external_dns_sd_register x pw p n (w_external w) = Inr (r, st)" "w' = w\<lparr>w_external := st\<rparr>"
    using assms(3) by (auto simp: register_external_dns_sd_def put_state_Inr)
  have "mdns_pid (w_external w) = 0" using assms(2) idle by blast
  then show ?thesis
    unfolding st(2) by (intro outcome_external [OF assms(2)] external_dns_sd_pid [OF st(1) _ assms(1)])
qed

lemma register_dns_sd_outcome:
  assumes "at_work w = {}" "register_dns_sd (block, reg, pw) n p w = Inr (r, w')"
  shows "outcome Responder_library r w'"
proof -
  obtain s where s: "mdns_dns_sd_register block reg pw n p None = Inr (r, s)" "w' = w\<lparr>w_dns_sd := s\<rparr>"
    using assms idle [of w] by (auto simp: register_dns_sd_def put_state_Inr)
  have "if r < 0 then s = None else s \<noteq> None"
    using s(1) by (auto simp: mdns_dns_sd_register_def Let_def split: option.splits prod.splits if_splits elim!: bind_fault_Inr)
  then show ?thesis
    using assms(1) unfolding s(2) idle by (auto simp: outcome_def at_work_def split: if_splits)
qed

lemma avahi_run_thread: "avahi_run pw evs st = Inr st' \<Longrightarrow> av_tpoll st' = av_tpoll st \<and> av_client st' = av_client st"
proof (induction evs arbitrary: st)
  case (Cons e evs)
  show ?case
  proof (cases e)
    case (Client s ans)
    with Cons.prems obtain st1 where c: "client_callback ans pw s st = Inr st1" "avahi_run pw evs st1 = Inr st'"
      by (auto elim: bind_fault_Inr)
    have "av_tpoll st1 = av_tpoll st \<and> av_client st1 = av_client st"
      using c(1) by (cases s) (auto simp: client_callback_def register_service_def Let_def
          split: option.splits if_splits elim!: bind_fault_Inr)
    with Cons.IH [OF c(2)] show ?thesis by simp
  next
    case (Group s)
    with Cons.prems obtain st1 where "egroup_callback s st = Inr st1" "avahi_run pw evs st1 = Inr st'"
      by (auto elim: bind_fault_Inr)
    with Cons.IH egroup_callback_keeps show ?thesis by blast
  qed
qed simp

lemma register_avahi_at_work:
  assumes "at_work w = {}" "register_avahi (poll_new, client_new, poll_start, pw) n p w = Inr (r, w')"
  shows "0 \<le> r \<Longrightarrow> at_work w' = {Avahi_client}" and "r < 0 \<Longrightarrow> 0 \<le> poll_start \<Longrightarrow> at_work w' = {}"
proof -
  obtain s where s: "avahi_register poll_new client_new poll_start pw n p (w_avahi w) = Inr (r, s)" "w' = w\<lparr>w_avahi := s\<rparr>"
    using assms(2) by (auto simp: register_avahi_def put_state_Inr)
  have "0 \<le> r \<longrightarrow> av_client s \<and> av_tpoll s" "r < 0 \<longrightarrow> 0 \<le> poll_start \<longrightarrow> \<not> (av_client s \<and> av_tpoll s)"
    using s(1)
    by (auto simp: avahi_register_def Let_def split: option.splits if_splits elim!: bind_fault_Inr dest: avahi_run_thread)
  then show "0 \<le> r \<Longrightarrow> at_work w' = {Avahi_client}" "r < 0 \<Longrightarrow> 0 \<le> poll_start \<Longrightarrow> at_work w' = {}"
    using assms(1) unfolding s(2) idle by (auto simp: at_work_def)
qed

text \<open>The answers with which the own responder finds its interface, or is not started.\<close>

definition finds_interface :: "bool \<times> u8 \<times> string \<times> ifaddrs list option \<times> bool \<Rightarrow> bool" where
  "finds_interface a = (case a of (ok, junk, host, ifas, pw) \<Rightarrow>
     ok \<longrightarrow> (case ifas of None \<Rightarrow> False | Some l \<Rightarrow> main_interface l \<noteq> None))"

lemma register_tiny_at_work:
  assumes "at_work w = {}" "register_tiny a n p w = Inr (r, w')"
  shows "0 \<le> r \<Longrightarrow> at_work w' = {Own_responder}" and "r < 0 \<Longrightarrow> finds_interface a \<Longrightarrow> at_work w' = {}"
proof -
  obtain ok junk host ifas pw where a: "a = (ok, junk, host, ifas, pw)" by (cases a)
  obtain x where x: "mdns_tinysvcmdns_register ok junk host ifas pw n (word_of_int p) = Inr x"
    "r = (if x = None then -1 else 0)"
    "w' = w\<lparr>w_tiny := if x = None then if ok then Some mdnsd_start else None else x\<rparr>"
    using assms(2) unfolding a register_tiny_def prod.case by (rule bind_fault_Inr) (auto intro: that split: option.splits)
  show "0 \<le> r \<Longrightarrow> at_work w' = {Own_responder}"
    using assms(1) x(2,3) unfolding idle by (auto simp: at_work_def split: if_splits)
  show "at_work w' = {}" if "r < 0" "finds_interface a"
  proof -
    have "x = None" using that(1) x(2) by (simp split: if_splits)
    moreover from this have "\<not> ok"
      using x(1) that(2) by (auto simp: a finds_interface_def mdns_tinysvcmdns_register_def Let_def
          split: option.splits elim!: bind_fault_Inr)
    ultimately show ?thesis using assms(1) x(3) unfolding idle by (auto simp: at_work_def)
  qed
qed

lemma stops_only:
  "at_work w = {Child} \<Longrightarrow> at_work (unregister_external w) = {}"
  "at_work w = {Responder_library} \<Longrightarrow> at_work (unregister_dns_sd w) = {}"
  "at_work w = {Avahi_client} \<Longrightarrow> at_work (unregister_avahi w) = {}"
  "at_work w = {Own_responder} \<Longrightarrow> at_work (unregister_tiny w) = {}"
  by (auto simp: at_work_def unregister_external_def unregister_dns_sd_def unregister_avahi_def unregister_tiny_def
      kill_mdns_child_def mdns_dns_sd_unregister_def avahi_unregister_def mdns_tinysvcmdns_unregister_def
      split: if_splits option.splits)

lemma outcome_cases:
  "outcome who r w \<Longrightarrow> 0 \<le> r \<Longrightarrow> at_work w = {who}"
  "outcome who r w \<Longrightarrow> r < 0 \<Longrightarrow> at_work w = {}"
  by (simp_all add: outcome_def)

lemmas child_outcomes = outcome_cases [OF register_external_avahi_outcome] outcome_cases [OF register_external_dns_sd_outcome]

interpretation contract_external_avahi: mdns_contract Child "\<lambda>(x1, x2, pw). real_child x1 \<and> real_child x2"
    "\<lambda>(x1, x2, pw). real_child x1 \<and> real_child x2" register_external_avahi unregister_external
  by unfold_locales (auto simp: stops_only split: prod.splits dest: child_outcomes)

interpretation contract_external_dns_sd: mdns_contract Child "\<lambda>(x, pw). real_child x" "\<lambda>(x, pw). real_child x"
    register_external_dns_sd unregister_external
  by unfold_locales (auto simp: stops_only split: prod.splits dest: child_outcomes)

interpretation contract_dns_sd: mdns_contract Responder_library "\<lambda>a. True" "\<lambda>a. True" register_dns_sd unregister_dns_sd
  by unfold_locales (auto simp: stops_only dest: outcome_cases [OF register_dns_sd_outcome])

interpretation contract_avahi: mdns_contract Avahi_client "\<lambda>a. True" "\<lambda>(poll_new, client_new, poll_start, pw). 0 \<le> poll_start"
    register_avahi unregister_avahi
  by unfold_locales (auto simp: stops_only split: prod.splits dest: register_avahi_at_work)

interpretation contract_tiny: mdns_contract Own_responder "\<lambda>a. True" finds_interface register_tiny unregister_tiny
  by unfold_locales (auto simp: stops_only dest: register_tiny_at_work)

section \<open>The client of the contract\<close>

lemma try_all_one:
  assumes "\<forall>b \<in> set bs. keeps_contract b" "\<forall>b \<in> set (butlast bs). fails_clean b" "at_work w = {}"
    and "try_all bs n p w = Inr (Some b, w')"
  shows "b \<in> set bs \<and> (\<exists>s. at_work w' = {s}) \<and> at_work (b_unregister b w') = {}"
  using assms
proof (induction bs arbitrary: w)
  case (Cons c bs)
  obtain err w1 where r: "b_register c n p w = Inr (err, w1)"
    "(if err \<ge> 0 then Inr (Some c, w1) else try_all bs n p w1) = Inr (Some b, w')"
    using Cons.prems(4) by (auto elim!: bind_fault_Inr)
  show ?case
  proof (cases "err \<ge> 0")
    case True
    then show ?thesis using r Cons.prems(1,3) by (auto simp: keeps_contract_def)
  next
    case False
    then have t: "try_all bs n p w1 = Inr (Some b, w')" using r(2) by simp
    then have "bs \<noteq> []" by auto
    then have "at_work w1 = {}" using r(1) False Cons.prems(2,3) by (auto simp: fails_clean_def)
    from Cons.IH [OF _ _ this t] Cons.prems(1,2) \<open>bs \<noteq> []\<close> show ?thesis by simp
  qed
qed simp

lemma try_named_one:
  assumes "\<forall>b \<in> set bs. keeps_contract b" "at_work w = {}" "try_named bs wanted n p w = Inr (Some b, w')"
  shows "b \<in> set bs \<and> b_name b = wanted \<and> (\<exists>s. at_work w' = {s}) \<and> at_work (b_unregister b w') = {}"
  using assms
proof (induction bs)
  case (Cons c bs)
  show ?case
  proof (cases "b_name c = wanted")
    case True
    then obtain err where r: "b_register c n p w = Inr (err, w')" "err \<ge> 0" "b = c"
      using Cons.prems(3) by (auto elim!: bind_fault_Inr split: if_splits)
    then show ?thesis using True Cons.prems(1,2) by (auto simp: keeps_contract_def)
  qed (use Cons in auto)
qed simp

section \<open>The backends of the program\<close>

text \<open>The array of mdns.c, whose first two entries depend on the configuration.\<close>

definition mdns_backends ::
    "bool \<Rightarrow> bool \<Rightarrow> bool \<times> avahi_event list option \<times> int \<times> bool \<Rightarrow>
     (nat \<Rightarrow> bytes option) \<times> (string \<Rightarrow> u16 \<Rightarrow> bytes \<Rightarrow> int \<times> nat) \<times> bool \<Rightarrow> exec_answer \<times> exec_answer \<times> bool \<Rightarrow>
     exec_answer \<times> bool \<Rightarrow> bool \<times> u8 \<times> string \<times> ifaddrs list option \<times> bool \<Rightarrow> backend list" where
  "mdns_backends has_avahi has_dns_sd avahi dns_sd ext_avahi ext_dns_sd tiny =
     (if has_avahi
      then [\<lparr>b_name = ''avahi'', b_register = register_avahi avahi, b_unregister = unregister_avahi\<rparr>] else []) @
     (if has_dns_sd
      then [\<lparr>b_name = ''dns-sd'', b_register = register_dns_sd dns_sd, b_unregister = unregister_dns_sd\<rparr>] else []) @
     [\<lparr>b_name = ''external-avahi'', b_register = register_external_avahi ext_avahi,
        b_unregister = unregister_external\<rparr>,
      \<lparr>b_name = ''external-dns-sd'', b_register = register_external_dns_sd ext_dns_sd,
        b_unregister = unregister_external\<rparr>,
      \<lparr>b_name = ''tinysvcmdns'', b_register = register_tiny tiny, b_unregister = unregister_tiny\<rparr>]"

lemma port_5002: "mdns_port 5002 = Inr (int_digits 5002)"
  by (simp add: mdns_port_fits)

lemma mdns_backends_contract:
  assumes "real_child x1" "real_child x2" "real_child x3" "has_avahi \<longrightarrow> 0 \<le> poll_start"
    and "bs = mdns_backends has_avahi has_dns_sd (poll_new, client_new, poll_start, pw) dns_sd (x1, x2, pw1) (x3, pw2) tiny"
  shows "\<forall>b \<in> set bs. keeps_contract b" and "\<forall>b \<in> set (butlast bs). fails_clean b"
  using assms(1-4) unfolding assms(5)
  by (auto simp: mdns_backends_def butlast_append contract_avahi.contract contract_dns_sd.contract
      contract_external_avahi.contract contract_external_dns_sd.contract contract_tiny.contract
      contract_avahi.clean_failure contract_dns_sd.clean_failure contract_external_avahi.clean_failure
      contract_external_dns_sd.clean_failure)



text \<open>
  When the poll thread of Avahi does not start, \<open>avahi_register\<close> has made the client, possibly with its
  service published, and returns \<open>-1\<close> all the same: with the next backend two are at work, and
  \<open>mdns_unregister\<close> stops the second only.
\<close>

lemma failed_poll_leaves_two:
  "\<exists>b w'. mdns_register_run
      (mdns_backends True False (True, Some [], -1, False) (\<lambda>n. None, \<lambda>n p t. (0, 0), False)
        (\<lparr>x_pipe = Some (8, 9), x_fcntl = 0, x_fork = 77, x_exec = True\<rparr>, x2, False)
        (x3, False) tiny) None [] ''Den'' 5002 world_initial = Inr (b, w') \<and>
    at_work w' = {Child, Avahi_client} \<and> at_work (mdns_unregister_run (Some b) w') = {Avahi_client}"
  by (auto simp: mdns_register_run_def mdns_backends_def register_avahi_def avahi_register_def put_state_def
      register_external_avahi_def mdns_external_avahi_register_def fork_execvp_def port_5002 world_initial_def
      external_initial_def avahi_initial_def at_work_def mdns_unregister_run_def unregister_external_def
      kill_mdns_child_def Let_def)

end
