(* ===== verification/Spec2Isabelle.thy ===== *)
theory Spec2Isabelle
  imports Player_Control Alac_Lossless Alac_Clz Rtsp_Session Rtsp_Threads Rtsp_Listen Rtsp_Dmap Audio_Session
    Mdns_Choice
begin

text \<open>
  A model of Shairport, an AirPlay audio receiver in C, and the properties that make its parts
  correct.

  The program: \<open>shairport.c\<close> reads the options, starts the parts and listens. A client finds the player
  by mDNS (\<open>mdns.c\<close>, \<open>tinysvcmdns.c\<close>), announces an audio stream over RTSP (\<open>rtsp.c\<close>), one thread for each
  connection, sets it up and then sends encrypted ALAC frames in RTP packets (\<open>rtp.c\<close>). The player
  (\<open>player.c\<close>) decrypts and decodes each packet (\<open>alac.c\<close>), keeps the frames in a jitter buffer and plays
  them through an output backend, stretching or shrinking each frame by one sample to follow the clock
  of the sender.

  The theories, from the bottom to the top:
  \<^item> \<open>Prelude\<close>: machine integers, byte orders, \<open>fault\<close> (a program that dies or leaves its memory), C
    strings, lists.

  The player:
  \<^item> \<open>Seqno\<close>: \<open>seq_diff\<close>, \<open>seq_order\<close>, the ring index \<open>BUFIDX\<close> (\<open>player.c\<close>).
  \<^item> \<open>Rtp_Session\<close>: \<open>rtp_setup\<close>, \<open>rtp_shutdown\<close>, \<open>rtp_request_resend\<close> (\<open>rtp.c\<close>).
  \<^item> \<open>Rate_Estimator\<close>: the biquad filters and \<open>bf_est_update\<close> over the reals (\<open>player.c\<close>).
  \<^item> \<open>Player_Buffer\<close>, \<open>Frame_Queue\<close>, \<open>Player_Queue\<close>: the jitter buffer, an abstract queue of frames
    as a locale, and the refinement between them.
  \<^item> \<open>Player_Output\<close>: dithered volume and \<open>stuff_buffer\<close>.
  \<^item> \<open>Alac_Bits\<close>, \<open>Alac_Entropy\<close>, \<open>Alac_Predictor\<close>, \<open>Alac_Frame\<close>: the decoder from bits to frames;
    \<open>Alac_Lossless\<close>: a reference encoder and the proof that the decoder inverts it; \<open>Alac_Clz\<close>: the
    two bodies of \<open>count_leading_zeros\<close> in C and their equivalence with gcc's.
  \<^item> \<open>Player_Control\<close>: \<open>alac_decode\<close>, \<open>player_play\<close>, \<open>player_stop\<close>, the turn of the player thread.
  \<^item> \<open>Rtp_Receiver\<close>: the receiver thread, from datagrams to the jitter buffer.

  The session:
  \<^item> \<open>Rtsp_Message\<close>, \<open>Rtsp_Reader\<close>: lines, headers, requests and responses (\<open>rtsp.c\<close>).
  \<^item> \<open>Base64\<close>, \<open>Metadata\<close>: \<open>common.c\<close> and \<open>metadata.c\<close>.
  \<^item> \<open>Rtsp_Params\<close>: the handlers of ANNOUNCE and SET_PARAMETER.
  \<^item> \<open>Rtsp_Dmap\<close>: the DMAP metadata against the format: what is read, and the item that is read for ever.
  \<^item> \<open>Rtsp_Auth\<close>: \<open>apple_challenge\<close> and \<open>rtsp_auth\<close>, with the cuts they make in the header.
  \<^item> \<open>Rtsp_Session\<close>: every method handler, the dispatch of a request and a whole conversation, from the
    bytes of a connection to its end.
  \<^item> \<open>Rtsp_Threads\<close>: the threads of several connections as a step relation over the mutex of the player,
    \<open>please_shutdown\<close> and the thread that plays; who owns the player, and that one who waits gets it.
  \<^item> \<open>Rtsp_Listen\<close>: \<open>rtsp_listen_loop\<close> and the list of connection threads.

  The output backends, behind \<open>audio_output\<close> (\<open>audio.h\<close>):
  \<^item> \<open>Audio_Devices\<close>: \<open>audio_alsa.c\<close>, \<open>audio_ao.c\<close>, \<open>audio_pulse.c\<close>, \<open>audio_sndio.c\<close>, and the contract of a
    backend with the player as the locale \<open>output_backend\<close>, which ALSA and the FIFO interpret.
  \<^item> \<open>Audio_Pacing\<close>: \<open>audio_dummy.c\<close> and \<open>audio_pipe.c\<close>, how they keep time and what they open.
  \<^item> \<open>Audio_Session\<close>: the backends called as a conversation says: everything is released, and a rate
    the backend does not have.

  The program around it:
  \<^item> \<open>Options\<close>: the program's \<open>getopt_long\<close> (\<open>getopt_long.c\<close>) and \<open>parse_options\<close> (\<open>shairport.c\<close>).
  \<^item> \<open>Startup\<close>: \<open>audio.c\<close>, \<open>mdns.c\<close>, \<open>daemon.c\<close>, \<open>die\<close>, \<open>main\<close> and \<open>shairport_shutdown\<close>.

  The mDNS responder (\<open>tinysvcmdns.c\<close>, \<open>mdns_tinysvcmdns.c\<close>):
  \<^item> \<open>Dns_Names\<close>: labels and names, made from text and read from a packet.
  \<^item> \<open>Dns_Packet\<close>: records and packets, \<open>mdns_encode_pkt\<close> and \<open>mdns_parse_pkt\<close>.
  \<^item> \<open>Dns_Wire\<close>: that the parser reads what the encoder wrote, and a name it never comes back from.
  \<^item> \<open>Dns_Server\<close>: groups, registration, answers, the turns of the thread, the backend.
  \<^item> \<open>Dns_Answers\<close>: the invariant of the groups, and the replies as sets of records.
  \<^item> \<open>Dns_Services\<close>: that every operation keeps the invariant, that what is registered is found, and the
    goodbye.
  \<^item> \<open>Dns_Lifetime\<close>: the descriptors of the responder, its thread and \<open>mdnsd_stop\<close> as an inductive step
    relation, and what is freed at the end.
  \<^item> \<open>Mdns_Backends\<close>: the backends that leave the work to others: \<open>mdns_external.c\<close>, \<open>mdns_dns_sd.c\<close>,
    \<open>mdns_avahi.c\<close>.
  \<^item> \<open>Mdns_Choice\<close>: \<open>mdns_register\<close> and \<open>mdns_unregister\<close> over the states of the five backends, and what a
    backend owes them as the locale \<open>mdns_contract\<close>, which all five interpret.

  Conventions. State is passed explicitly: each C struct with static storage is a record. A \<open>die\<close>, a
  failed assertion, a NULL that is read and an access outside an object are values of \<open>fault\<close>. Integers
  keep their width where the code depends on it. Loops are recursive functions with a measure. The
  loops that need not end are partial functions in \<open>option\<close>, \<open>None\<close> being a loop without an end:
  \<open>dmap_loop\<close>, the two loops of \<open>uncompress_nlabel\<close>, and \<open>add_related_rr\<close>, of which it is proved that it
  does end. Bytes that memory happens to hold (the first byte of \<open>create_nlabel\<close>, the rest of a buffer
  behind what arrived) are arguments.

  Parameters, code that is not under \<open>src\<close>: AES, RSA, MD5 and the base64 filter of OpenSSL; \<open>rand\<close>; what
  sockets, files, the clock and the other processes answer; what the output and mDNS libraries answer. What
  is assumed of one (such as that decoding base64 inverts encoding) is a hypothesis of the theorem that
  needs it.

  Bounds. A critical section is one step of a model with threads, and the identity of a connection thread
  is not used again (\<open>Rtsp_Threads\<close>). The replies of the responder are proved right below 0x4000 bytes,
  the reach of a compression pointer; the buffer of the program has 65536.

  Not modelled: the variant of \<open>stuff_buffer\<close> with libsamplerate and the MSVC body of
  \<open>count_leading_zeros\<close>, which are not compiled; the branches for Windows of the pipe functions of
  \<open>tinysvcmdns.c\<close>; the RSA key and \<open>rsa_apply\<close> of \<open>common.c\<close>, calls of OpenSSL, which are a parameter; the
  text of \<open>usage\<close>, of the help of the backends, of debug and log messages (\<open>format_address\<close>); the
  memory of parsed packets (\<open>mdns_pkt_destroy\<close>) and of other buffers that a function frees itself; the
  lookups of \<open>tinysvcmdns.c\<close> that nobody calls (\<open>rr_entry_find\<close>, \<open>rr_list_count\<close>); the scheduling of threads
  inside a critical section, and a \<open>recvfrom\<close> of the responder that fails. What the sound and mDNS
  libraries do with their calls is outside the program: their answers are arguments, and their calls
  that change no state of the program (\<open>sio_start\<close>, draining a stream) are left out.
\<close>

end
